(* ===== verification/Prelude.thy ===== *)
theory Prelude
  imports Main "HOL-Library.Word" "HOL-Library.Monad_Syntax"
begin

text \<open>
  Shared vocabulary of the embclox development.

  Machine integers are words of their Rust width; \<open>usize\<close> values that are sizes, lengths or
  offsets are natural numbers, with the checks of the language written out where a subtraction
  could go below zero or a slice index could leave its slice.  A computation that may abort (a
  failed \<open>assert!\<close>, a slice index out of range, an arithmetic overflow, which aborts with the
  overflow checks of the dev profile) or leave the memory it owns has type \<open>'a run\<close>: an option
  whose \<open>Panic\<close> is the abort.  A Rust \<open>Result\<close> is the datatype \<open>result\<close>.

  The theory also holds the little-endian byte codecs (\<open>to_le_bytes\<close>/\<open>from_le_bytes\<close>), the slice
  operations (\<open>&xs[a..b]\<close>, \<open>copy_nonoverlapping\<close>), the alignment and bit-field lemmas the
  components share, and the bounded queue interface which the VMBus rings implement.
\<close>

type_synonym u8 = "8 word"
type_synonym u16 = "16 word"
type_synonym u32 = "32 word"
type_synonym u64 = "64 word"
type_synonym bytes = "u8 list"
type_synonym 'a run = "'a option"

datatype ('a, 'e) result = Ok 'a | Err 'e

abbreviation (input) Panic :: "'a run" where "Panic \<equiv> None"
abbreviation (input) Ret :: "'a \<Rightarrow> 'a run" where "Ret \<equiv> Some"

named_theorems slice_simps \<open>evaluation and length of slices and byte codecs\<close>

unbundle bit_operations_syntax

section \<open>Checked arithmetic and slices\<close>

definition checked_sub :: "nat \<Rightarrow> nat \<Rightarrow> nat run" where
  "checked_sub a b = (if b \<le> a then Ret (a - b) else Panic)"

definition assert_run :: "bool \<Rightarrow> unit run" where
  "assert_run b = (if b then Ret () else Panic)"

text \<open>\<open>&xs[a..b]\<close>, \<open>&xs[a..]\<close>, and the in-place copy of \<open>bs\<close> to offset \<open>i\<close> of \<open>xs\<close>.\<close>

definition slice :: "nat \<Rightarrow> nat \<Rightarrow> 'a list \<Rightarrow> 'a list run" where
  "slice a b xs = (if a \<le> b \<and> b \<le> length xs then Ret (take (b - a) (drop a xs)) else Panic)"

definition slice_from :: "nat \<Rightarrow> 'a list \<Rightarrow> 'a list run" where
  "slice_from a xs = (if a \<le> length xs then Ret (drop a xs) else Panic)"

definition write_at :: "nat \<Rightarrow> 'a list \<Rightarrow> 'a list \<Rightarrow> 'a list" where
  "write_at i bs xs = take i xs @ bs @ drop (i + length bs) xs"

definition patch :: "nat \<Rightarrow> 'a list \<Rightarrow> 'a list \<Rightarrow> 'a list run" where
  "patch i bs xs = (if i + length bs \<le> length xs then Ret (write_at i bs xs) else Panic)"

text \<open>\<open>xs[i]\<close>.\<close>

definition nth_run :: "'a list \<Rightarrow> nat \<Rightarrow> 'a run" where
  "nth_run xs i = (if i < length xs then Ret (xs ! i) else Panic)"

text \<open>A closure over a mutable slice maps its bytes to new bytes and a result.\<close>

type_synonym 'r on_slice = "bytes \<Rightarrow> bytes \<times> 'r"

definition keeps_length :: "'r on_slice \<Rightarrow> bool" where
  "keeps_length f \<longleftrightarrow> (\<forall>p. length (fst (f p)) = length p)"

definition zeros :: "nat \<Rightarrow> bytes" where
  "zeros n = replicate n 0"

section \<open>Little-endian codecs\<close>

primrec nat_bytes :: "nat \<Rightarrow> nat \<Rightarrow> bytes" where
  "nat_bytes 0 x = []"
| "nat_bytes (Suc n) x = of_nat (x mod 256) # nat_bytes n (x div 256)"

primrec bytes_nat :: "bytes \<Rightarrow> nat" where
  "bytes_nat [] = 0"
| "bytes_nat (b # bs) = unat b + 256 * bytes_nat bs"

definition le16 :: "u16 \<Rightarrow> bytes" where "le16 w = nat_bytes 2 (unat w)"
definition le32 :: "u32 \<Rightarrow> bytes" where "le32 w = nat_bytes 4 (unat w)"
definition le64 :: "u64 \<Rightarrow> bytes" where "le64 w = nat_bytes 8 (unat w)"

text \<open>Reading an integer at a byte offset of a buffer that is long enough.\<close>

definition get16 :: "nat \<Rightarrow> bytes \<Rightarrow> u16" where
  "get16 off bs = of_nat (bytes_nat (take 2 (drop off bs)))"
definition get32 :: "nat \<Rightarrow> bytes \<Rightarrow> u32" where
  "get32 off bs = of_nat (bytes_nat (take 4 (drop off bs)))"
definition get64 :: "nat \<Rightarrow> bytes \<Rightarrow> u64" where
  "get64 off bs = of_nat (bytes_nat (take 8 (drop off bs)))"

section \<open>A bounded queue and the clients of one\<close>

datatype 'm queue_op = Put 'm | Get

text \<open>
  Run a sequence of operations on a queue.  The result is the messages accepted, in order, the
  packets taken out, in order, and the final queue.
\<close>

fun run_ops :: "('q \<Rightarrow> 'm \<Rightarrow> (bool \<times> 'q) run) \<Rightarrow> ('q \<Rightarrow> ('p option \<times> 'q) run) \<Rightarrow>
  'q \<Rightarrow> 'm queue_op list \<Rightarrow> ('m list \<times> 'p list \<times> 'q) run" where
  "run_ops enq deq q [] = Ret ([], [], q)"
| "run_ops enq deq q (Put m # ops) = do {
     (ok, q1) \<leftarrow> enq q m;
     (ins, outs, q2) \<leftarrow> run_ops enq deq q1 ops;
     Ret (if ok then m # ins else ins, outs, q2) }"
| "run_ops enq deq q (Get # ops) = do {
     (p, q1) \<leftarrow> deq q;
     (ins, outs, q2) \<leftarrow> run_ops enq deq q1 ops;
     Ret (ins, (case p of None \<Rightarrow> outs | Some x \<Rightarrow> x # outs), q2) }"

lemma not_Err_iff [simp]: "(\<forall>e. r \<noteq> Err e) \<longleftrightarrow> (\<exists>x. r = Ok x)"
  by (cases r) auto

section \<open>Lemmas: slices\<close>

lemma length_zeros [simp, slice_simps]: "length (zeros n) = n"
  by (simp add: zeros_def)

lemma zeros_0 [simp]: "zeros 0 = []"
  by (simp add: zeros_def)

lemma length_write_at [simp, slice_simps]:
  "i + length bs \<le> length xs \<Longrightarrow> length (write_at i bs xs) = length xs"
  by (simp add: write_at_def)

lemma nth_write_at:
  "i + length bs \<le> length xs \<Longrightarrow> j < length xs \<Longrightarrow>
   write_at i bs xs ! j = (if i \<le> j \<and> j < i + length bs then bs ! (j - i) else xs ! j)"
  by (auto simp: write_at_def nth_append)

lemma write_at_0: "length bs \<le> length xs \<Longrightarrow> write_at 0 bs xs = bs @ drop (length bs) xs"
  by (simp add: write_at_def)

lemma take_write_at_0 [simp]:
  "length bs \<le> length xs \<Longrightarrow> take (length bs) (write_at 0 bs xs) = bs"
  by (simp add: write_at_def)

lemma slice_Some [slice_simps]:
  "a \<le> b \<Longrightarrow> b \<le> length xs \<Longrightarrow> slice a b xs = Ret (take (b - a) (drop a xs))"
  by (simp add: slice_def)

lemma slice_eq_Some_iff:
  "slice a b xs = Some ys \<longleftrightarrow> a \<le> b \<and> b \<le> length xs \<and> ys = take (b - a) (drop a xs)"
  by (auto simp: slice_def)

lemma length_slice: "slice a b xs = Some ys \<Longrightarrow> length ys = b - a"
  by (auto simp: slice_eq_Some_iff)

lemma checked_sub_Some [simp]: "b \<le> a \<Longrightarrow> checked_sub a b = Ret (a - b)"
  by (simp add: checked_sub_def)

lemma nat_mod_add_cancel:
  assumes "(a + x) mod s = (a + y) mod (s :: nat)"
  shows "x mod s = y mod s"
proof -
  have "int (a + x) mod int s = int (a + y) mod int s"
    using assms by (metis of_nat_mod)
  then have "(int (a + x) - int a) mod int s = (int (a + y) - int a) mod int s"
    by (rule mod_diff_cong) simp
  then show ?thesis by (simp flip: of_nat_mod)
qed

section \<open>Lemmas: codecs\<close>

lemma unat_less2p: "unat (w :: 'a::len word) < 2 ^ LENGTH('a)"
  by (rule unsigned_less)

lemma length_nat_bytes [simp, slice_simps]: "length (nat_bytes n x) = n"
  by (induction n arbitrary: x) auto

lemma length_le [simp, slice_simps]:
  "length (le16 a) = 2" "length (le32 b) = 4" "length (le64 c) = 8"
  by (simp_all add: le16_def le32_def le64_def)

lemma bytes_nat_bytes: "bytes_nat (nat_bytes n x) = x mod 256 ^ n"
proof (induction n arbitrary: x)
  case (Suc n)
  have "unat (of_nat (x mod 256) :: u8) = x mod 256"
    by (simp add: unat_of_nat)
  then show ?case
    by (simp add: Suc mod_mult2_eq)
qed simp

lemma nat_bytes_nat: "nat_bytes (length bs) (bytes_nat bs) = bs"
proof (induction bs)
  case (Cons b bs)
  have "unat b < 256"
    using unat_less2p [of b] by simp
  then have "(unat b + 256 * bytes_nat bs) mod 256 = unat b"
    and "(unat b + 256 * bytes_nat bs) div 256 = bytes_nat bs"
    by simp_all
  then show ?case
    using Cons by simp
qed simp

lemma bytes_nat_less: "bytes_nat bs < 256 ^ length bs"
  using bytes_nat_bytes [of "length bs" "bytes_nat bs"]
  by (metis mod_less_divisor nat_bytes_nat zero_less_numeral zero_less_power)

lemma get16_le16 [slice_simps]: "take 2 (drop off bs) = le16 w \<Longrightarrow> get16 off bs = w"
  using unat_less2p [of w] by (simp add: get16_def le16_def bytes_nat_bytes)

lemma get32_le32 [slice_simps]: "take 4 (drop off bs) = le32 w \<Longrightarrow> get32 off bs = w"
  using unat_less2p [of w] by (simp add: get32_def le32_def bytes_nat_bytes)

lemma get64_le64 [slice_simps]: "take 8 (drop off bs) = le64 w \<Longrightarrow> get64 off bs = w"
  using unat_less2p [of w] by (simp add: get64_def le64_def bytes_nat_bytes)

lemma le16_get16:
  assumes "off + 2 \<le> length bs"
  shows "le16 (get16 off bs) = take 2 (drop off bs)"
proof -
  let ?t = "take 2 (drop off bs)"
  have l: "length ?t = 2" using assms by simp
  have "bytes_nat ?t < 2 ^ 16" using bytes_nat_less [of ?t] l by simp
  then have "unat (get16 off bs) = bytes_nat ?t"
    by (simp add: get16_def unat_of_nat)
  then show ?thesis using nat_bytes_nat [of ?t] l by (simp add: le16_def)
qed

lemma le32_get32:
  assumes "off + 4 \<le> length bs"
  shows "le32 (get32 off bs) = take 4 (drop off bs)"
proof -
  let ?t = "take 4 (drop off bs)"
  have l: "length ?t = 4" using assms by simp
  have "bytes_nat ?t < 2 ^ 32" using bytes_nat_less [of ?t] l by simp
  then have "unat (get32 off bs) = bytes_nat ?t"
    by (simp add: get32_def unat_of_nat)
  then show ?thesis using nat_bytes_nat [of ?t] l by (simp add: le32_def)
qed

section \<open>The bounded queue interface\<close>

text \<open>
  A queue that may refuse a message, but delivers what it accepted in order: \<open>rep q ps\<close> says that
  \<open>q\<close> holds the packets \<open>ps\<close>, and \<open>pkt m\<close> is the packet the consumer sees for message \<open>m\<close>.
\<close>

locale bounded_fifo =
  fixes rep :: "'q \<Rightarrow> 'p list \<Rightarrow> bool"
    and enq :: "'q \<Rightarrow> 'm \<Rightarrow> (bool \<times> 'q) run"
    and deq :: "'q \<Rightarrow> ('p option \<times> 'q) run"
    and pkt :: "'m \<Rightarrow> 'p"
  assumes enq_rep: "rep q ps \<Longrightarrow>
      enq q m = Ret (False, q) \<or> (\<exists>q'. enq q m = Ret (True, q') \<and> rep q' (ps @ [pkt m]))"
    and deq_empty: "rep q [] \<Longrightarrow> deq q = Ret (None, q)"
    and deq_cons: "rep q (p # ps) \<Longrightarrow> \<exists>q'. deq q = Ret (Some p, q') \<and> rep q' ps"
begin

lemma run_ops_fifo:
  assumes "rep q ps"
  shows "\<exists>ins outs q' ps'. run_ops enq deq q ops = Ret (ins, outs, q') \<and> rep q' ps' \<and>
    ps @ map pkt ins = outs @ ps'"
  using assms
proof (induction ops arbitrary: q ps)
  case Nil
  then show ?case by simp
next
  case (Cons op ops)
  show ?case
  proof (cases op)
    case (Put m)
    from enq_rep [OF Cons.prems, of m] show ?thesis
    proof
      assume "enq q m = Ret (False, q)"
      then show ?thesis
        using Cons.IH [OF Cons.prems] Put by auto
    next
      assume "\<exists>q'. enq q m = Ret (True, q') \<and> rep q' (ps @ [pkt m])"
      then obtain q' where q': "enq q m = Ret (True, q')" "rep q' (ps @ [pkt m])" by blast
      from Cons.IH [OF q'(2)] show ?thesis
        using Put q'(1) by fastforce
    qed
  next
    case Get
    show ?thesis
    proof (cases ps)
      case Nil
      then show ?thesis
        using Cons.IH [OF Cons.prems] Cons.prems Get deq_empty by auto
    next
      case (Cons p ps2)
      then obtain q' where "deq q = Ret (Some p, q')" "rep q' ps2"
        using Cons.prems deq_cons by blast
      with Cons.IH [of q' ps2] show ?thesis
        using Get Cons by fastforce
    qed
  qed
qed

lemma drain:
  assumes "rep q ps"
  shows "\<exists>q'. run_ops enq deq q (replicate (length ps) Get) = Ret ([], ps, q') \<and> rep q' []"
  using assms
proof (induction ps arbitrary: q)
  case (Cons p ps)
  from deq_cons [OF Cons.prems] obtain q' where "deq q = Ret (Some p, q')" "rep q' ps" by blast
  with Cons.IH [of q'] show ?case by auto
qed simp

end

end
