(* ===== verification/Hal_Cpu.thy ===== *)
theory Hal_Cpu
  imports Prelude
begin

text \<open>
  CPU identities and interrupt vectors: \<open>vector_alloc.rs\<close>, \<open>cpu_local.rs\<close> and \<open>smp.rs\<close> of
  \<open>crates/embclox-hal-x86/src\<close>.

  The vector allocator is a 32-bit bitmap over a range of IDT vectors; its lemmas say which
  vectors it hands out, and they discharge the interface \<open>unique_source\<close>, which the interrupt
  installation of the driver framework relies on.  The per-CPU table is a list of write-once slots
  together with the GS base of every CPU; bring-up of the application processors is a fold over
  the bootloader's CPU list.
\<close>

section \<open>An interface for sources of fresh identifiers\<close>

primrec take_n :: "('s \<Rightarrow> ('v \<times> 's) option) \<Rightarrow> nat \<Rightarrow> 's \<Rightarrow> 'v list \<times> 's" where
  "take_n get 0 s = ([], s)"
| "take_n get (Suc n) s =
     (case get s of None \<Rightarrow> ([], s)
      | Some (v, s') \<Rightarrow> let (vs, s'') = take_n get n s' in (v # vs, s''))"

locale unique_source =
  fixes inv :: "'s \<Rightarrow> bool"
    and taken :: "'s \<Rightarrow> 'v set"
    and get :: "'s \<Rightarrow> ('v \<times> 's) option"
  assumes get_fresh: "inv s \<Longrightarrow> get s = Some (v, s') \<Longrightarrow>
      inv s' \<and> v \<notin> taken s \<and> taken s' = insert v (taken s)"
begin

lemma take_n_distinct:
  assumes "inv s" "take_n get n s = (vs, s')"
  shows "distinct vs \<and> set vs \<inter> taken s = {} \<and> taken s' = taken s \<union> set vs \<and> inv s'"
  using assms
proof (induction n arbitrary: s vs)
  case (Suc n)
  show ?case
  proof (cases "get s")
    case (Some x)
    obtain v s1 where x: "x = (v, s1)" by (cases x)
    obtain vs1 s2 where t: "take_n get n s1 = (vs1, s2)" by fastforce
    from Suc.prems Some x t have e: "vs = v # vs1" "s2 = s'" by auto
    from get_fresh Suc.prems Some x have f: "inv s1" "v \<notin> taken s" "taken s1 = insert v (taken s)"
      by blast+
    with Suc.IH [OF f(1), of vs1] t show ?thesis unfolding e by auto
  qed (use Suc.prems in auto)
qed simp

lemma take_n_short: "take_n get n s = (vs, s') \<Longrightarrow> length vs < n \<Longrightarrow> get s' = None"
  by (induction n arbitrary: s vs) (auto split: option.splits prod.splits)

end

section \<open>CPU identities and the vector allocator\<close>

datatype cpu_id = Bsp | Ap u8

record installed_isr =
  isr_vector :: u8
  isr_cpu :: cpu_id

record vector_allocator =
  used :: u32
  start :: u8
  last :: u8

primrec reserve_all :: "vector_allocator \<Rightarrow> u8 list \<Rightarrow> vector_allocator" where
  "reserve_all a [] = a"
| "reserve_all a (v # vs) = reserve_all
     (if start a \<le> v \<and> v \<le> last a
      then a\<lparr>used := used a OR push_bit (unat (v - start a)) 1\<rparr> else a) vs"

definition vectors_new :: "u8 \<Rightarrow> u8 \<Rightarrow> u8 list \<Rightarrow> vector_allocator run" where
  "vectors_new s e reserved = do {
     assert_run (s \<ge> 32);
     assert_run (e \<ge> s);
     assert_run (e - s < 32);
     Ret (reserve_all \<lparr>used = 0, start = s, last = e\<rparr> reserved) }"

definition span :: "vector_allocator \<Rightarrow> nat" where
  "span a = unat (last a - start a + 1)"

definition allocate :: "vector_allocator \<Rightarrow> (u8 \<times> vector_allocator) option" where
  "allocate a = (case find (\<lambda>i. used a AND push_bit i 1 = 0) [0..<span a] of
     None \<Rightarrow> None
   | Some i \<Rightarrow> Some (start a + of_nat i, a\<lparr>used := used a OR push_bit i 1\<rparr>))"

definition free_count :: "vector_allocator \<Rightarrow> nat" where
  "free_count a =
     (let m = (if span a = 32 then - 1 else push_bit (span a) 1 - 1 :: u32) in
      length (filter (bit (NOT (used a) AND m)) [0..<32]))"

section \<open>The per-CPU table\<close>

definition MAX_CPUS :: nat where "MAX_CPUS = 8"

record cpu_local =
  cpu_id :: cpu_id
  apic_id :: u8

text \<open>\<open>CPU_LOCALS\<close>, eight write-once slots, and the GS base of the executing CPU.\<close>

record cpu_table =
  locals :: "cpu_local option list"
  gs_base :: u64

definition slot_of :: "cpu_id \<Rightarrow> nat" where
  "slot_of c = (case c of Bsp \<Rightarrow> 0 | Ap n \<Rightarrow> unat n)"

definition cpu_id_of :: "u8 \<Rightarrow> cpu_id" where
  "cpu_id_of p = (if p = 0 then Bsp else Ap p)"

definition call_once :: "nat \<Rightarrow> cpu_local \<Rightarrow> cpu_local option list \<Rightarrow> cpu_local option list" where
  "call_once i c ls = (case ls ! i of None \<Rightarrow> ls[i := Some c] | Some old \<Rightarrow> ls)"

definition init_bsp :: "u8 \<Rightarrow> cpu_table \<Rightarrow> cpu_table" where
  "init_bsp aid t = \<lparr>locals = call_once 0 \<lparr>cpu_id = Bsp, apic_id = aid\<rparr> (locals t), gs_base = 0\<rparr>"

definition init_ap :: "u8 \<Rightarrow> u8 \<Rightarrow> cpu_table \<Rightarrow> cpu_table run" where
  "init_ap p aid t = do {
     assert_run (p \<noteq> 0);
     assert_run (unat p < MAX_CPUS);
     Ret \<lparr>locals = call_once (unat p) \<lparr>cpu_id = Ap p, apic_id = aid\<rparr> (locals t),
          gs_base = ucast p\<rparr> }"

definition by_id :: "cpu_id \<Rightarrow> cpu_table \<Rightarrow> cpu_local option" where
  "by_id c t = (if slot_of c < length (locals t) then locals t ! slot_of c else None)"

definition cpu_apic_id :: "cpu_id \<Rightarrow> cpu_table \<Rightarrow> u8" where
  "cpu_apic_id c t = (case by_id c t of None \<Rightarrow> 0 | Some l \<Rightarrow> apic_id l)"

definition current_cpu_id :: "cpu_table \<Rightarrow> cpu_id" where
  "current_cpu_id t = cpu_id_of (ucast (gs_base t))"

definition current :: "cpu_table \<Rightarrow> cpu_local run" where
  "current t = by_id (current_cpu_id t) t"

section \<open>Bring-up of application processors\<close>

record mp_cpu =
  lapic_id :: u32
  extra :: u64
  released :: bool

primrec bring_up_loop :: "nat \<Rightarrow> u32 \<Rightarrow> nat \<Rightarrow> mp_cpu list \<Rightarrow> nat \<times> mp_cpu list" where
  "bring_up_loop cap bsp started [] = (started, [])"
| "bring_up_loop cap bsp started (c # cs) =
     (if started \<ge> cap then (started, c # cs)
      else if lapic_id c = bsp
      then (let (n, cs') = bring_up_loop cap bsp started cs in (n, c # cs'))
      else
        let pid = of_nat (started + 1) :: u8;
            c' = c\<lparr>extra := ucast pid, released := True\<rparr>;
            (n, cs') = bring_up_loop cap bsp (started + 1) cs
        in (n, c' # cs'))"

definition bring_up_aps :: "u32 \<Rightarrow> mp_cpu list \<Rightarrow> nat \<Rightarrow> nat \<times> mp_cpu list" where
  "bring_up_aps bsp_lapic_id cpus max_aps =
     bring_up_loop (min max_aps (MAX_CPUS - 1)) bsp_lapic_id 0 cpus"

record ap_init =
  ai_cpu_id :: cpu_id
  ai_apic_id :: u8
  ai_tsc_per_us :: u64

definition ap_init_from :: "u64 \<Rightarrow> mp_cpu \<Rightarrow> ap_init" where
  "ap_init_from tsc c = \<lparr>ai_cpu_id = Ap (ucast (extra c)), ai_apic_id = ucast (lapic_id c),
     ai_tsc_per_us = tsc\<rparr>"

text \<open>The table part of \<open>ap_setup\<close>; \<open>Kernel_Timing\<close> has the rest, which enables the APIC and its timer.\<close>

definition ap_setup :: "ap_init \<Rightarrow> cpu_table \<Rightarrow> cpu_table run" where
  "ap_setup i t = (case ai_cpu_id i of Bsp \<Rightarrow> Panic | Ap n \<Rightarrow> init_ap n (ai_apic_id i) t)"

section \<open>Lemmas: the allocator\<close>

definition vectors_inv :: "vector_allocator \<Rightarrow> bool" where
  "vectors_inv a \<longleftrightarrow> start a \<le> last a \<and> last a - start a < 32"

definition vectors_taken :: "vector_allocator \<Rightarrow> u8 set" where
  "vectors_taken a = {v. start a \<le> v \<and> v \<le> last a \<and> bit (used a) (unat (v - start a))}"

lemma bit_set_bit32: "k < 32 \<Longrightarrow> bit (u OR 2 ^ k :: u32) j \<longleftrightarrow> bit u j \<or> j = k"
  by (auto simp: bit_or_iff bit_exp_iff)

lemma span_eq:
  assumes "vectors_inv a"
  shows "span a = unat (last a) - unat (start a) + 1" and "span a \<le> 32"
proof -
  have d: "unat (last a - start a) = unat (last a) - unat (start a)"
    using assms by (simp add: vectors_inv_def unat_sub)
  have l: "unat (last a - start a) < 32"
    using assms by (simp add: vectors_inv_def word_less_nat_alt)
  then have "unat (last a - start a) + 1 < 2 ^ 8" by simp
  then have "span a = unat (last a - start a) + 1"
    by (simp add: span_def unat_word_ariths)
  with d l show "span a = unat (last a) - unat (start a) + 1" "span a \<le> 32" by simp_all
qed

lemma nth_vector:
  assumes "vectors_inv a" "i < span a"
  shows "unat (start a + of_nat i) = unat (start a) + i"
    and "start a \<le> start a + of_nat i" and "start a + of_nat i \<le> last a"
    and "start a + of_nat i - start a = of_nat i" and "unat (of_nat i :: u8) = i"
proof -
  have le: "unat (start a) \<le> unat (last a)"
    using assms(1) by (simp add: vectors_inv_def word_le_nat_alt)
  have b: "unat (start a) + i \<le> unat (last a)"
    using span_eq(1) [OF assms(1)] assms(2) le by linarith
  have lt: "unat (last a) < 2 ^ 8" using unat_less2p [of "last a"] by simp
  show u: "unat (start a + of_nat i) = unat (start a) + i"
    using b lt by (simp add: unat_word_ariths unat_of_nat mod_add_right_eq)
  show "start a \<le> start a + of_nat i" "start a + of_nat i \<le> last a"
    using u b by (simp_all add: word_le_nat_alt)
  show "unat (of_nat i :: u8) = i" using b lt by (simp add: unat_of_nat)
qed simp

lemma allocate_Some:
  assumes inv: "vectors_inv a" and al: "allocate a = Some (v, a')"
  shows "vectors_inv a'" "v \<notin> vectors_taken a" "vectors_taken a' = insert v (vectors_taken a)"
    "start a \<le> v" "v \<le> last a" "start a' = start a" "last a' = last a"
proof -
  from al obtain i where
    fi: "find (\<lambda>i. used a AND push_bit i 1 = 0) [0..<span a] = Some i" and
    va: "v = start a + of_nat i" "a' = a\<lparr>used := used a OR push_bit i 1\<rparr>"
    by (auto simp: allocate_def split: option.splits)
  from fi have i: "i < span a" "\<not> bit (used a) i"
    by (auto simp: find_Some_iff bit_iff_and_push_bit_not_eq_0)
  have i32: "i < 32" using i(1) span_eq(2) [OF inv] by simp
  note nv = nth_vector [OF inv i(1)]
  show "vectors_inv a'" "start a' = start a" "last a' = last a"
    using inv va by (simp_all add: vectors_inv_def)
  show "start a \<le> v" "v \<le> last a" using nv va by simp_all
  show "v \<notin> vectors_taken a" using nv va i(2) by (simp add: vectors_taken_def)
  have eqv: "unat (x - start a) = i \<longleftrightarrow> x = v" for x
    using nv va(1) by (metis diff_add_cancel word_eq_iff_unsigned)
  show "vectors_taken a' = insert v (vectors_taken a)"
  proof (rule set_eqI)
    fix x
    show "x \<in> vectors_taken a' \<longleftrightarrow> x \<in> insert v (vectors_taken a)"
      using nv va by (cases "x = v") (simp_all add: vectors_taken_def bit_set_bit32 [OF i32] eqv)
  qed
qed

lemma allocate_None:
  assumes "vectors_inv a" "allocate a = None"
  shows "vectors_taken a = {start a..last a}"
proof -
  have all: "\<And>i. i < span a \<Longrightarrow> bit (used a) i"
    using assms(2) by (auto simp: allocate_def find_None_iff bit_iff_and_push_bit_not_eq_0
        split: option.splits)
  have "bit (used a) (unat (x - start a))" if "start a \<le> x" "x \<le> last a" for x
    using that all [of "unat (x - start a)"] span_eq(1) [OF assms(1)]
    by (simp add: unat_sub word_le_nat_alt)
  then show ?thesis by (auto simp: vectors_taken_def)
qed

definition vectors_over :: "u8 \<Rightarrow> u8 \<Rightarrow> vector_allocator \<Rightarrow> bool" where
  "vectors_over s e a \<longleftrightarrow> vectors_inv a \<and> start a = s \<and> last a = e"

interpretation idt_vectors: unique_source "vectors_over s e" vectors_taken allocate for s e
proof
  fix a v a'
  assume "vectors_over s e a" "allocate a = Some (v, a')"
  then show "vectors_over s e a' \<and> v \<notin> vectors_taken a \<and>
      vectors_taken a' = insert v (vectors_taken a)"
    using allocate_Some [of a v a'] by (simp add: vectors_over_def)
qed

lemma reserve_all_taken:
  assumes "vectors_over s e a"
  shows "vectors_over s e (reserve_all a vs) \<and>
    vectors_taken (reserve_all a vs) = vectors_taken a \<union> ({s..e} \<inter> set vs)"
  using assms
proof (induction vs arbitrary: a)
  case (Cons v vs)
  let ?b = "a\<lparr>used := used a OR push_bit (unat (v - start a)) 1\<rparr>"
  show ?case
  proof (cases "start a \<le> v \<and> v \<le> last a")
    case True
    have inv: "vectors_inv a" and se: "start a = s" "last a = e"
      using Cons.prems by (simp_all add: vectors_over_def)
    have vin: "v \<in> {s..e}" using True unfolding se atLeastAtMost_iff .
    have small: "unat (v - start a) < 32"
      using True span_eq [OF inv] unat_sub [of "start a" v] unfolding word_le_nat_alt by linarith
    have eqv: "unat (x - start a) = unat (v - start a) \<longleftrightarrow> x = v" for x
      by (metis diff_add_cancel word_eq_iff_unsigned)
    have "vectors_taken ?b = insert v (vectors_taken a)"
    proof (rule set_eqI)
      fix x
      show "x \<in> vectors_taken ?b \<longleftrightarrow> x \<in> insert v (vectors_taken a)"
        using True by (cases "x = v") (simp_all add: vectors_taken_def bit_set_bit32 [OF small] eqv)
    qed
    moreover have "vectors_over s e ?b"
      using Cons.prems by (auto simp: vectors_over_def vectors_inv_def)
    moreover have "reserve_all a (v # vs) = reserve_all ?b vs"
      using True by (simp only: reserve_all.simps if_True simp_thms)
    moreover have "{s..e} \<inter> set (v # vs) = insert v ({s..e} \<inter> set vs)"
      using Int_insert_right_if1 [OF vin, of "set vs"] by (simp only: list.set)
    ultimately show ?thesis
      using Cons.IH [of ?b] by (simp only: Un_insert_left Un_insert_right simp_thms)
  next
    case False
    then have "v \<notin> {s..e}"
      using Cons.prems unfolding vectors_over_def atLeastAtMost_iff by blast
    then have "{s..e} \<inter> set (v # vs) = {s..e} \<inter> set vs"
      using Int_insert_right_if0 [of v "{s..e}" "set vs"] by (simp only: list.set simp_thms)
    moreover have "reserve_all a (v # vs) = reserve_all a vs"
      using False by (simp only: reserve_all.simps if_False)
    ultimately show ?thesis using Cons.IH [OF Cons.prems] by (simp only: simp_thms)
  qed
qed simp

lemma vectors_new_Some:
  assumes "vectors_new s e reserved = Ret a"
  shows "vectors_over s e a" "vectors_taken a = {s..e} \<inter> set reserved" "32 \<le> s"
proof -
  have a: "32 \<le> s" "s \<le> e" "e - s < 32" "a = reserve_all \<lparr>used = 0, start = s, last = e\<rparr> reserved"
    using assms by (auto simp: vectors_new_def assert_run_def split: if_splits)
  then have "vectors_over s e \<lparr>used = 0, start = s, last = e\<rparr>"
    by (simp add: vectors_over_def vectors_inv_def)
  note r = reserve_all_taken [OF this, of reserved, folded a(4)]
  have "vectors_taken \<lparr>used = 0, start = s, last = e\<rparr> = {}" by (simp add: vectors_taken_def)
  with r show "vectors_over s e a" "vectors_taken a = {s..e} \<inter> set reserved"
    by (simp_all only: Un_empty_left)
  show "32 \<le> s" by (fact a(1))
qed

section \<open>Lemmas: bring-up\<close>

lemma ucast_of_small:
  assumes "n < 256"
  shows "ucast (of_nat n :: u8) = (of_nat n :: u64)"
proof -
  have "unat (of_nat n :: u8) = n" using assms by (simp add: unat_of_nat)
  then show ?thesis by (metis of_nat_unat)
qed

lemma bring_up_loop_spec:
  assumes "bring_up_loop cap bsp st cs = (n, cs')" "st \<le> cap" "cap < 256"
    and "\<forall>c \<in> set cs. \<not> released c"
  shows "n = min cap (st + length (filter (\<lambda>c. lapic_id c \<noteq> bsp) cs)) \<and>
    map extra (filter released cs') = map of_nat [st + 1..<n + 1] \<and>
    map lapic_id (filter released cs') =
      take (n - st) (filter (\<lambda>i. i \<noteq> bsp) (map lapic_id cs)) \<and>
    map lapic_id cs' = map lapic_id cs"
  using assms
proof (induction cs arbitrary: st n cs')
  case (Cons c cs)
  consider "st \<ge> cap" | "st < cap" "lapic_id c = bsp" | "st < cap" "lapic_id c \<noteq> bsp" by linarith
  then show ?case
  proof cases
    case 1
    then show ?thesis using Cons.prems by (auto simp: filter_empty_conv)
  next
    case 2
    then obtain m cs2 where r: "bring_up_loop cap bsp st cs = (m, cs2)" "n = m" "cs' = c # cs2"
      using Cons.prems by (auto split: prod.splits)
    show ?thesis using Cons.IH [OF r(1)] Cons.prems 2 r by simp
  next
    case 3
    obtain m cs2 where r: "bring_up_loop cap bsp (st + 1) cs = (m, cs2)" by fastforce
    then have e: "n = m" "cs' = c\<lparr>extra := ucast (of_nat (st + 1) :: u8), released := True\<rparr> # cs2"
      using Cons.prems 3 by (auto simp: Let_def)
    have ih: "m = min cap (st + 1 + length (filter (\<lambda>c. lapic_id c \<noteq> bsp) cs))"
      "map extra (filter released cs2) = map of_nat [st + 1 + 1..<m + 1]"
      "map lapic_id (filter released cs2) = take (m - (st + 1)) (filter (\<lambda>i. i \<noteq> bsp) (map lapic_id cs))"
      "map lapic_id cs2 = map lapic_id cs"
      using Cons.IH [OF r] Cons.prems 3 by simp_all
    have m: "st + 1 \<le> m" using ih(1) 3 by simp
    then have u: "[st + 1..<m + 1] = (st + 1) # [st + 1 + 1..<m + 1]" by (simp add: upt_conv_Cons)
    have d: "m - st = Suc (m - (st + 1))" using m by simp
    have x: "ucast (of_nat (st + 1) :: u8) = (of_nat (st + 1) :: u64)"
      using 3 Cons.prems by (intro ucast_of_small) simp
    have f: "filter released cs' = c\<lparr>extra := of_nat (st + 1), released := True\<rparr> # filter released cs2"
      unfolding e x by simp
    show ?thesis
    proof (intro conjI)
      show "n = min cap (st + length (filter (\<lambda>c. lapic_id c \<noteq> bsp) (c # cs)))"
        using ih(1) e(1) 3 by simp
      show "map extra (filter released cs') = map of_nat [st + 1..<n + 1]"
        unfolding f e(1) u using ih(2) by simp
      show "map lapic_id (filter released cs') =
          take (n - st) (filter (\<lambda>i. i \<noteq> bsp) (map lapic_id (c # cs)))"
        unfolding f e(1) d using ih(3) 3 by simp
      show "map lapic_id cs' = map lapic_id (c # cs)"
        unfolding e(2) using ih(4) by simp
    qed
  qed
qed simp

lemma ap_setup_ok:
  assumes x: "extra c = of_nat k" and k: "1 \<le> k" "k < MAX_CPUS" and l: "length (locals t) = MAX_CPUS"
  shows "\<exists>t'. ap_setup (ap_init_from tsc c) t = Ret t' \<and> current_cpu_id t' = Ap (of_nat k) \<and>
     (locals t ! k = None \<longrightarrow>
       by_id (Ap (of_nat k)) t' = Some \<lparr>cpu_id = Ap (of_nat k), apic_id = ucast (lapic_id c)\<rparr>) \<and>
     (\<forall>j. j \<noteq> k \<longrightarrow> locals t' ! j = locals t ! j)"
proof -
  let ?l = "\<lparr>cpu_id = Ap (of_nat k), apic_id = ucast (lapic_id c)\<rparr>"
  let ?t = "\<lparr>locals = call_once k ?l (locals t), gs_base = ucast (of_nat k :: u8)\<rparr> :: cpu_table"
  have u: "unat (of_nat k :: u8) = k" "unat (of_nat k :: u64) = k"
    using k(2) by (simp_all add: unat_of_nat MAX_CPUS_def)
  have p: "ucast (of_nat k :: u64) = (of_nat k :: u8)"
    using u(2) by (metis of_nat_unat)
  have nz: "(of_nat k :: u8) \<noteq> 0" using u(1) k(1) by auto
  have "ap_setup (ap_init_from tsc c) t = Ret ?t"
    using k u(1) nz by (simp add: ap_setup_def ap_init_from_def x p init_ap_def assert_run_def)
  moreover have "current_cpu_id ?t = Ap (of_nat k)"
    using nz p ucast_of_small [of k] k(2) by (simp add: current_cpu_id_def cpu_id_of_def MAX_CPUS_def)
  moreover have "locals t ! k = None \<longrightarrow> by_id (Ap (of_nat k)) ?t = Some ?l"
    using u(1) k(2) l by (simp add: by_id_def slot_of_def call_once_def)
  moreover have "\<forall>j. j \<noteq> k \<longrightarrow> locals ?t ! j = locals t ! j"
    by (simp add: call_once_def split: option.split)
  ultimately show ?thesis by (intro exI [of _ ?t] conjI)
qed

section \<open>Properties\<close>

text \<open>
  C22.  Vectors handed out by the allocator are fresh: however many are requested, they are pairwise
  distinct, lie in the configured range above the CPU exceptions, avoid every reserved vector, and
  a request fails only when every vector of the range is reserved or handed out.
\<close>

theorem vectors_fresh:
  assumes "vectors_new s e reserved = Ret a" "take_n allocate n a = (vs, a')"
  shows "distinct vs \<and> set vs \<subseteq> {s..e} - set reserved \<and> (\<forall>v \<in> set vs. 32 \<le> v) \<and>
    (length vs < n \<longrightarrow> {s..e} \<subseteq> set vs \<union> set reserved)"
proof -
  note new = vectors_new_Some [OF assms(1)]
  note t = idt_vectors.take_n_distinct [OF new(1) assms(2)]
  have a': "vectors_inv a'" "start a' = s" "last a' = e"
    using t by (simp_all add: vectors_over_def)
  have "vectors_taken a' \<subseteq> {s..e}" using a'(2,3) by (simp add: vectors_taken_def subset_iff)
  then have sub: "set vs \<subseteq> {s..e} - set reserved" using t new(2) by blast
  moreover have "32 \<le> v" if "v \<in> set vs" for v
  proof -
    have "s \<le> v" using sub that by (meson DiffD1 atLeastAtMost_iff subsetD)
    with new(3) show ?thesis by (rule order_trans)
  qed
  moreover have "{s..e} \<subseteq> set vs \<union> set reserved" if "length vs < n"
    using allocate_None [OF a'(1) idt_vectors.take_n_short [OF assms(2) that]] a'(2,3) t new(2)
    by blast
  ultimately show ?thesis using t by blast
qed

text \<open>The range and the reserved vectors the kernel uses, and what is left after two requests.\<close>

theorem vectors_fresh_witness:
  "\<exists>a vs a'. vectors_new 33 47 [39, 34] = Ret a \<and> take_n allocate (Suc (Suc 0)) a = (vs, a') \<and> vs = [33, 35] \<and>
     distinct vs \<and> set vs \<subseteq> {33..47} - set [39, 34]"
proof -
  have n: "vectors_new 33 47 [39, 34] = Ret \<lparr>used = 66, start = 33, last = 47\<rparr>"
    by (simp add: vectors_new_def assert_run_def)
  have t: "take_n allocate (Suc (Suc 0)) \<lparr>used = 66, start = 33, last = 47\<rparr> =
      ([33, 35], \<lparr>used = 71, start = 33, last = 47\<rparr>)"
    by (simp add: allocate_def span_def upt_rec)
  from n t vectors_fresh [OF n t] show ?thesis by blast
qed



end
