(* ===== verification/Hv_Isr.thy ===== *)
theory Hv_Isr
  imports Hal_Cpu
begin

text \<open>
  The SINT2 interrupt handler, \<open>crates/embclox-hyperv/src/isr.rs\<close>.

  The SIMP and SIEFP pages of a CPU are the message type of the VMBus slot and the 32 words of its
  event flags; a CPU that has not published a page has None.  The handler peeks at the message
  type, then scans the words, clearing each before it walks its set bits from the lowest to the
  highest with \<open>w & (w - 1)\<close>.  Wakes are recorded in order: \<open>SimpWake\<close>, or \<open>ChannelWake\<close> with the
  slot of the waker table.  The lemmas give the meaning of the bit walk.
\<close>

section \<open>Model\<close>

datatype wake = SimpWake | ChannelWake nat

record isr_state =
  simp_msg_type :: "u32 option list"
  siefp_words :: "u64 list option list"
  isr_cpu_table :: cpu_table
  wakes :: "wake list"

definition CHANNEL_WAKER_SLOTS :: nat where "CHANNEL_WAKER_SLOTS = 64"

definition channel_waker :: "u32 \<Rightarrow> nat" where
  "channel_waker relid = unat relid mod CHANNEL_WAKER_SLOTS"

definition trailing_zeros :: "u64 \<Rightarrow> nat" where
  "trailing_zeros w = (case find (bit w) [0..<64] of None \<Rightarrow> 64 | Some i \<Rightarrow> i)"

text \<open>The inner loop, with the 64 iterations a word can need as its bound.\<close>

primrec walk_bits :: "nat \<Rightarrow> nat \<Rightarrow> u64 \<Rightarrow> nat list" where
  "walk_bits 0 base w = []"
| "walk_bits (Suc n) base w =
     (if w = 0 then []
      else channel_waker (of_nat (base + trailing_zeros w)) # walk_bits n base (w AND (w - 1)))"

primrec scan_words :: "nat \<Rightarrow> u64 list \<Rightarrow> wake list \<times> u64 list" where
  "scan_words idx [] = ([], [])"
| "scan_words idx (w # ws) =
     (let (wk, ws') = scan_words (Suc idx) ws in
      if w = 0 then (wk, w # ws')
      else (map ChannelWake (walk_bits 64 (idx * 64) w) @ wk, 0 # ws'))"

definition vmbus_isr :: "isr_state \<Rightarrow> isr_state" where
  "vmbus_isr s =
     (let k = slot_of (current_cpu_id (isr_cpu_table s));
          s1 = (case simp_msg_type s ! k of None \<Rightarrow> s
                | Some ty \<Rightarrow> if ty \<noteq> 0 then s\<lparr>wakes := wakes s @ [SimpWake]\<rparr> else s) in
      case siefp_words s1 ! k of None \<Rightarrow> s1
      | Some ws \<Rightarrow>
          let (wk, ws') = scan_words 0 ws in
          s1\<lparr>wakes := wakes s1 @ wk, siefp_words := (siefp_words s1)[k := Some ws']\<rparr>)"

definition publish_siefp :: "cpu_id \<Rightarrow> u64 list \<Rightarrow> isr_state \<Rightarrow> isr_state" where
  "publish_siefp c page s = s\<lparr>siefp_words := (siefp_words s)[slot_of c := Some page]\<rparr>"

definition publish_simp :: "cpu_id \<Rightarrow> u32 \<Rightarrow> isr_state \<Rightarrow> isr_state" where
  "publish_simp c ty s = s\<lparr>simp_msg_type := (simp_msg_type s)[slot_of c := Some ty]\<rparr>"

section \<open>Lemmas: clearing the lowest set bit\<close>

lemma lowest_split:
  fixes n k :: nat
  assumes "odd (n div 2 ^ k)" "\<And>i. i < k \<Longrightarrow> even (n div 2 ^ i)"
  shows "n = 2 ^ k * (n div 2 ^ k)"
  using assms
proof (induction k arbitrary: n)
  case (Suc k)
  have e: "even n" using Suc.prems(2) [of 0] by simp
  have "n div 2 = 2 ^ k * (n div 2 div 2 ^ k)"
  proof (rule Suc.IH)
    show "odd (n div 2 div 2 ^ k)" using Suc.prems(1) by (simp add: div_mult2_eq)
    show "even (n div 2 div 2 ^ i)" if "i < k" for i
      using Suc.prems(2) [of "Suc i"] that by (simp add: div_mult2_eq)
  qed
  then have "2 * (n div 2) = 2 ^ Suc k * (n div 2 ^ Suc k)" by (simp add: div_mult2_eq)
  then show ?case using e by simp
qed simp

lemma pred_div:
  fixes n k :: nat
  assumes n: "n = 2 ^ k * m" and m: "odd m"
  shows "even ((n - 1) div 2 ^ k)" and "j > k \<Longrightarrow> (n - 1) div 2 ^ j = n div 2 ^ j"
proof -
  obtain q where q: "m = 2 * q + 1" using m by (elim oddE)
  have pos: "(0 :: nat) < 2 ^ k" by simp
  have n1: "n - 1 = 2 ^ k * (2 * q) + (2 ^ k - 1)" using n q by (simp add: algebra_simps)
  have "(2 ^ k * (2 * q) + (2 ^ k - 1)) div 2 ^ k = 2 * q + (2 ^ k - 1) div (2 ^ k :: nat)"
    by (rule div_mult_self4) simp
  then have d: "(n - 1) div 2 ^ k = 2 * q" unfolding n1 by simp
  then show "even ((n - 1) div 2 ^ k)" by simp
  have nd: "n div 2 ^ k = m" using n by simp
  assume "j > k"
  then obtain i where j: "j = k + Suc i" by (metis add_Suc_right less_imp_Suc_add)
  have pj: "(2 :: nat) ^ j = 2 ^ k * (2 * 2 ^ i)" by (simp add: j power_add)
  have "(n - 1) div 2 ^ j = (n - 1) div 2 ^ k div 2 div 2 ^ i"
    by (simp only: pj div_mult2_eq)
  also have "\<dots> = n div 2 ^ k div 2 div 2 ^ i"
    using d nd q by simp
  also have "\<dots> = n div 2 ^ j" by (simp only: pj div_mult2_eq)
  finally show "(n - 1) div 2 ^ j = n div 2 ^ j" .
qed

lemma bit_u64: "bit (w :: u64) i \<longleftrightarrow> i < 64 \<and> odd (unat w div 2 ^ i)"
proof -
  have "bit w i \<longleftrightarrow> bit (unat w) i" by (simp add: bit_unsigned_iff)
  moreover have "bit w i \<Longrightarrow> i < 64" using bit_imp_le_length [of w i] by simp
  ultimately show ?thesis by (auto simp: bit_iff_odd)
qed

lemma trailing_zeros_lowest:
  assumes "w \<noteq> 0"
  shows "trailing_zeros w < 64" "bit w (trailing_zeros w)"
    "\<And>i. i < trailing_zeros w \<Longrightarrow> \<not> bit w i"
proof -
  obtain j where "bit w j" using assms by (metis bit_eq_iff bit_0_eq bot_fun_def bot_bool_def)
  then have "find (bit w) [0..<64] \<noteq> None"
    using bit_u64 [of w j] by (auto simp: find_None_iff)
  then obtain i where i: "find (bit w) [0..<64] = Some i" by auto
  then have t: "trailing_zeros w = i" by (simp add: trailing_zeros_def)
  from i show "trailing_zeros w < 64" "bit w (trailing_zeros w)"
    "\<And>i. i < trailing_zeros w \<Longrightarrow> \<not> bit w i"
    unfolding t by (auto simp: find_Some_iff)
qed

lemma clear_lowest:
  assumes "w \<noteq> 0"
  shows "bit (w AND (w - 1)) i \<longleftrightarrow> bit w i \<and> i \<noteq> trailing_zeros w"
proof -
  let ?k = "trailing_zeros w" and ?n = "unat w"
  note tz = trailing_zeros_lowest [OF assms]
  have odd: "odd (?n div 2 ^ ?k)" using tz(2) by (simp add: bit_u64)
  have low: "\<And>i. i < ?k \<Longrightarrow> even (?n div 2 ^ i)" using tz(1,3) by (auto simp: bit_u64)
  have n: "?n = 2 ^ ?k * (?n div 2 ^ ?k)" by (rule lowest_split [OF odd low])
  have "1 \<le> w" using assms by (simp add: word_le_nat_alt Suc_le_eq unat_gt_0)
  then have u: "unat (w - 1) = ?n - 1" by (simp add: unat_sub)
  note pd = pred_div [OF n odd]
  consider "i < ?k" | "i = ?k" | "i > ?k" by linarith
  then show ?thesis
  proof cases
    case 1
    then show ?thesis using tz(3) by (simp add: bit_and_iff)
  next
    case 2
    then show ?thesis using pd(1) by (simp add: bit_and_iff bit_u64 [of "w - 1"] u)
  next
    case 3
    then have "bit (w - 1) i \<longleftrightarrow> bit w i" using pd(2) [of i] by (simp add: bit_u64 u)
    then show ?thesis using 3 by (auto simp: bit_and_iff)
  qed
qed

lemma walk_bits_set:
  assumes "card {i. bit w i} \<le> n"
  shows "walk_bits n base w = map (\<lambda>i. channel_waker (of_nat (base + i))) (filter (bit w) [0..<64])"
  using assms
proof (induction n arbitrary: w)
  case 0
  have fin: "finite {i. bit w i}" by (rule finite_subset [of _ "{..<64}"]) (auto simp: bit_u64)
  with 0 have "{i. bit w i} = {}" by simp
  then show ?case by (auto simp: filter_empty_conv)
next
  case (Suc n)
  show ?case
  proof (cases "w = 0")
    case True
    then show ?thesis by simp
  next
    case False
    let ?k = "trailing_zeros w" and ?v = "w AND (w - 1)"
    note tz = trailing_zeros_lowest [OF False]
    have fin: "finite {i. bit w i}" by (rule finite_subset [of _ "{..<64}"]) (auto simp: bit_u64)
    have "{i. bit ?v i} = {i. bit w i} - {?k}" using clear_lowest [OF False] by auto
    then have "card {i. bit ?v i} \<le> n" using Suc.prems fin tz(2) by simp
    note ih = Suc.IH [OF this]
    have up: "[0..<64] = [0..<?k] @ ?k # [Suc ?k..<64]"
      using tz(1) by (metis le_add_diff_inverse less_imp_le_nat upt_add_eq_append upt_conv_Cons zero_le)
    have lo: "filter (bit w) [0..<?k] = []" "filter (bit ?v) [0..<?k] = []"
      using tz(3) clear_lowest [OF False] by (auto simp: filter_empty_conv)
    have hi: "filter (bit w) [Suc ?k..<64] = filter (bit ?v) [Suc ?k..<64]"
      using clear_lowest [OF False] by (intro filter_cong) auto
    have "filter (bit w) [0..<64] = ?k # filter (bit ?v) [0..<64]"
      unfolding up using lo hi tz(2) clear_lowest [OF False, of ?k] by simp
    then show ?thesis using False ih by simp
  qed
qed

lemma walk_bits_64:
  "walk_bits 64 base w = map (\<lambda>i. channel_waker (of_nat (base + i))) (filter (bit w) [0..<64])"
proof (rule walk_bits_set)
  have "{i. bit w i} \<subseteq> {..<64}" by (auto simp: bit_u64)
  then have "card {i. bit w i} \<le> card {..<64 :: nat}" by (intro card_mono) simp_all
  then show "card {i. bit w i} \<le> 64" by simp
qed

lemma scan_words_spec:
  "scan_words idx ws =
     (concat (map (\<lambda>(j, w). map (\<lambda>i. ChannelWake (channel_waker (of_nat (j * 64 + i))))
        (filter (bit w) [0..<64])) (zip [idx..<idx + length ws] ws)),
      replicate (length ws) 0)"
proof (induction ws arbitrary: idx)
  case (Cons w ws)
  have up: "[idx..<idx + length (w # ws)] = idx # [Suc idx..<Suc idx + length ws]"
    using upt_conv_Cons [of idx "idx + length (w # ws)"] by simp
  show ?case
    unfolding up using Cons [of "Suc idx"]
    by (cases "w = 0") (simp_all add: walk_bits_64 comp_def)
qed simp

section \<open>Properties\<close>

text \<open>
  C20.  On a CPU that published its pages the handler wakes the SIMP waker exactly if a message is
  in the slot, then wakes, in ascending order of the channel id, the waker of every channel whose
  event flag is set and no other, and leaves all event flags of that CPU clear and those of every
  other CPU unchanged.
\<close>

theorem vmbus_isr_wakes:
  assumes "k = slot_of (current_cpu_id (isr_cpu_table s))"
    and "simp_msg_type s ! k = Some ty" "siefp_words s ! k = Some ws" "k < length (siefp_words s)"
  shows "wakes (vmbus_isr s) = wakes s @ (if ty \<noteq> 0 then [SimpWake] else []) @
      map (\<lambda>r. ChannelWake (channel_waker (of_nat r)))
        (filter (\<lambda>r. bit (ws ! (r div 64)) (r mod 64)) [0..<64 * length ws]) \<and>
    siefp_words (vmbus_isr s) = (siefp_words s)[k := Some (replicate (length ws) 0)]"
proof -
  have flat: "concat (map (\<lambda>(j, w). map (\<lambda>i. f (j * 64 + i)) (filter (bit w) [0..<64]))
        (zip [0..<length ws] ws)) =
      map f (filter (\<lambda>r. bit (ws ! (r div 64)) (r mod 64)) [0..<64 * length ws])"
    for f :: "nat \<Rightarrow> wake" and ws :: "u64 list"
  proof (induction ws rule: rev_induct)
    case (snoc w ws)
    let ?n = "length ws"
    have r: "[0..<64 * length (ws @ [w])] = [0..<64 * ?n] @ map (\<lambda>i. ?n * 64 + i) [0..<64]"
      using upt_add_eq_append [of 0 "64 * ?n" 64] map_add_upt [of "?n * 64" 64]
      by (simp add: add.commute mult.commute)
    have "filter (\<lambda>r. bit ((ws @ [w]) ! (r div 64)) (r mod 64)) [0..<64 * ?n] =
        filter (\<lambda>r. bit (ws ! (r div 64)) (r mod 64)) [0..<64 * ?n]"
      by (rule filter_cong) (auto simp: nth_append less_mult_imp_div_less mult.commute)
    moreover have "filter (\<lambda>x. bit ([w] ! (x div 64)) (x mod 64)) [0..<64] = filter (bit w) [0..<64]"
      by (rule filter_cong) auto
    ultimately show ?case
      unfolding r using snoc by (simp add: filter_map comp_def)
  qed simp
  show ?thesis
    using assms scan_words_spec [of 0 ws]
      flat [of "\<lambda>r. ChannelWake (channel_waker (of_nat r))" ws]
    by (simp add: vmbus_isr_def Let_def)
qed

theorem vmbus_isr_wakes_witness:
  "wakes (vmbus_isr \<lparr>simp_msg_type = [Some 1], siefp_words = [Some [6]],
      isr_cpu_table = \<lparr>locals = [], gs_base = 0\<rparr>, wakes = []\<rparr>) =
    [SimpWake, ChannelWake 1, ChannelWake 2]"
proof -
  let ?s = "\<lparr>simp_msg_type = [Some 1], siefp_words = [Some [6]],
      isr_cpu_table = \<lparr>locals = [], gs_base = 0\<rparr>, wakes = []\<rparr>"
  have k: "0 = slot_of (current_cpu_id (isr_cpu_table ?s))"
    by (simp add: current_cpu_id_def cpu_id_of_def slot_of_def)
  have "wakes (vmbus_isr ?s) = [SimpWake] @ map (\<lambda>r. ChannelWake (channel_waker (of_nat r)))
        (filter (\<lambda>r. bit ([6 :: u64] ! (r div 64)) (r mod 64)) [0..<64 * length [6 :: u64]])"
    using vmbus_isr_wakes [OF k, of 1 "[6]"] by simp
  also have "\<dots> = [SimpWake, ChannelWake 1, ChannelWake 2]"
    by code_simp
  finally show ?thesis .
qed

end
