(* ===== verification/Hv_Ring.thy ===== *)
theory Hv_Ring
  imports Prelude
begin

text \<open>
  The VMBus ring buffer, \<open>crates/embclox-hyperv/src/ring.rs\<close>.

  A \<open>RingHalf\<close> is a 4 KiB control page followed by a circular data area.  The record keeps the
  control words the code reads and writes and the bytes of the data area.  Both indices live in
  memory the host shares, so the operations read them from the record and no operation assumes
  that they are in range.  The three send operations and the two receive operations are
  translated byte for byte; copies out of the data area are \<open>Panic\<close>.

  The lemmas relate the bytes between the two indices to the sequence of packets they encode, show
  that a send appends exactly one packet to that sequence and a receive takes exactly the first
  one, and discharge the bounded queue interface of \<open>Prelude\<close> for the ring.
\<close>

section \<open>Data\<close>

record vm_packet_descriptor =
  packet_type :: u16
  offset8 :: u16
  len8 :: u16
  flags :: u16
  transaction_id :: u64

definition VM_PKT_DATA_INBAND :: u16 where "VM_PKT_DATA_INBAND = 6"
definition VM_PKT_DATA_USING_XFER_PAGES :: u16 where "VM_PKT_DATA_USING_XFER_PAGES = 7"
definition VM_PKT_DATA_USING_GPA_DIRECT :: u16 where "VM_PKT_DATA_USING_GPA_DIRECT = 8"
definition VM_PKT_COMP :: u16 where "VM_PKT_COMP = 11"
definition VMBUS_DATA_PACKET_FLAG_COMPLETION_REQUESTED :: u16 where
  "VMBUS_DATA_PACKET_FLAG_COMPLETION_REQUESTED = 1"

record ring_half =
  write_index :: u32
  read_index :: u32
  feature_bits :: u32
  data_size :: nat
  ring_data :: bytes

datatype ring_error = Full | Corrupt

section \<open>Operations\<close>

text \<open>\<open>RingHalf::new\<close> on a region whose control page and data area hold the given values.\<close>

definition ring_new :: "u32 \<Rightarrow> u32 \<Rightarrow> bytes \<Rightarrow> nat \<Rightarrow> ring_half run" where
  "ring_new wi ri area total_size =
     (if total_size > 4096 \<and> total_size mod 4096 = 0
      then Ret \<lparr>write_index = wi, read_index = ri, feature_bits = 1,
                data_size = total_size - 4096, ring_data = area\<rparr>
      else Panic)"

definition align8 :: "nat \<Rightarrow> nat" where
  "align8 n = (n + 7) div 8 * 8"

definition copy_to :: "ring_half \<Rightarrow> nat \<Rightarrow> bytes \<Rightarrow> (nat \<times> ring_half) run" where
  "copy_to r offset src =
     (let off = offset mod data_size r;
          first = min (data_size r - off) (length src) in
      do {
        d1 \<leftarrow> patch off (take first src) (ring_data r);
        d2 \<leftarrow> (if first < length src then patch 0 (drop first src) d1 else Ret d1);
        Ret ((off + length src) mod data_size r, r\<lparr>ring_data := d2\<rparr>)
      })"

definition copy_from :: "ring_half \<Rightarrow> nat \<Rightarrow> nat \<Rightarrow> (nat \<times> bytes) run" where
  "copy_from r offset n =
     (let off = offset mod data_size r;
          first = min (data_size r - off) n in
      do {
        a \<leftarrow> slice off (off + first) (ring_data r);
        b \<leftarrow> (if first < n then slice 0 (n - first) (ring_data r) else Ret []);
        Ret ((off + n) mod data_size r, a @ b)
      })"

fun copy_all :: "ring_half \<Rightarrow> nat \<Rightarrow> bytes list \<Rightarrow> ring_half run" where
  "copy_all r pos [] = Ret r"
| "copy_all r pos (c # cs) = do { (pos', r') \<leftarrow> copy_to r pos c; copy_all r' pos' cs }"

definition desc_bytes :: "vm_packet_descriptor \<Rightarrow> bytes" where
  "desc_bytes d = le16 (packet_type d) @ le16 (offset8 d) @ le16 (len8 d) @ le16 (flags d) @
     le64 (transaction_id d)"

definition desc_of_bytes :: "bytes \<Rightarrow> vm_packet_descriptor" where
  "desc_of_bytes b = \<lparr>packet_type = get16 0 b, offset8 = get16 2 b, len8 = get16 4 b,
     flags = get16 6 b, transaction_id = get64 8 b\<rparr>"

text \<open>The space and fill computations at the head of every send and every receive.\<close>

definition send_avail :: "ring_half \<Rightarrow> nat run" where
  "send_avail r =
     (let w = unat (write_index r); rd = unat (read_index r) in
      if w \<ge> rd then checked_sub (data_size r) (w - rd) else Ret (rd - w))"

definition recv_avail :: "ring_half \<Rightarrow> nat run" where
  "recv_avail r =
     (let w = unat (write_index r); rd = unat (read_index r) in
      if w \<ge> rd then Ret (w - rd) else checked_sub (data_size r) (rd - w))"

text \<open>
  The body the three send operations share: \<open>extra\<close> are the chunks written between the descriptor
  and the user data.
\<close>

definition send_frame ::
  "ring_half \<Rightarrow> nat \<Rightarrow> u16 \<Rightarrow> u16 \<Rightarrow> u64 \<Rightarrow> bytes list \<Rightarrow> bytes \<Rightarrow>
   ((unit, ring_error) result \<times> ring_half) run" where
  "send_frame r header_size ptype fl tid extra payload =
     (let packet_len = align8 (header_size + length payload);
          total_write = packet_len + 8;
          w = unat (write_index r); rd = unat (read_index r) in
      do {
        avail \<leftarrow> send_avail r;
        if avail \<le> total_write then Ret (Err Full, r)
        else
          let d = \<lparr>packet_type = ptype, offset8 = of_nat (header_size div 8),
                   len8 = of_nat (packet_len div 8), flags = fl, transaction_id = tid\<rparr>;
              pad = packet_len - header_size - length payload;
              prev = push_bit 32 (of_nat w) OR (of_nat rd :: u64) in
          do {
            r' \<leftarrow> copy_all r w
              ([desc_bytes d] @ extra @ (if payload = [] then [] else [payload]) @
               (if pad > 0 then [take pad (zeros 8)] else []) @ [le64 prev]);
            Ret (Ok (), r'\<lparr>write_index := of_nat ((w + total_write) mod data_size r)\<rparr>)
          }
      })"

definition send_packet :: "ring_half \<Rightarrow> bytes \<Rightarrow> u64 \<Rightarrow> u16 \<Rightarrow>
   ((unit, ring_error) result \<times> ring_half) run" where
  "send_packet r payload tid fl = send_frame r 16 VM_PKT_DATA_INBAND fl tid [] payload"

definition send_comp :: "ring_half \<Rightarrow> bytes \<Rightarrow> u64 \<Rightarrow>
   ((unit, ring_error) result \<times> ring_half) run" where
  "send_comp r payload tid = send_frame r 16 VM_PKT_COMP 0 tid [] payload"

definition send_packet_with_page_buffer ::
  "ring_half \<Rightarrow> bytes \<Rightarrow> u64 \<Rightarrow> u32 \<Rightarrow> u32 \<Rightarrow> u64 \<Rightarrow> u16 \<Rightarrow>
   ((unit, ring_error) result \<times> ring_half) run" where
  "send_packet_with_page_buffer r user_data page_pfn page_offset page_len tid fl =
     send_frame r (16 + 4 + 4 + 16) VM_PKT_DATA_USING_GPA_DIRECT fl tid
       [le32 0, le32 1, le32 page_offset, le32 page_len, le64 page_pfn] user_data"

text \<open>
  The two receive operations share their head, up to the validated descriptor.  \<open>Inl\<close> is an
  early return, \<open>Inr\<close> carries the descriptor, the position after it and the packet length.
\<close>

definition recv_head :: "ring_half \<Rightarrow>
   (((vm_packet_descriptor \<times> nat) option, ring_error) result +
    (vm_packet_descriptor \<times> nat \<times> nat)) run" where
  "recv_head r = do {
     avail \<leftarrow> recv_avail r;
     if avail = 0 then Ret (Inl (Ok None))
     else if avail < 16 then Ret (Inl (Err Corrupt))
     else do {
       (pos, db) \<leftarrow> copy_from r (unat (read_index r)) 16;
       let d = desc_of_bytes db;
           packet_len = unat (len8 d) * 8;
           total_read = packet_len + 8 in
       if packet_len < 16 \<or> total_read > avail then Ret (Inl (Err Corrupt))
       else Ret (Inr (d, pos, packet_len))
     } }"

definition advance_read :: "ring_half \<Rightarrow> nat \<Rightarrow> ring_half" where
  "advance_read r packet_len =
     r\<lparr>read_index := of_nat ((unat (read_index r) + (packet_len + 8)) mod data_size r)\<rparr>"

definition recv_packet :: "ring_half \<Rightarrow> bytes \<Rightarrow>
   (((vm_packet_descriptor \<times> nat) option, ring_error) result \<times> bytes \<times> ring_half) run" where
  "recv_packet r buf = do {
     h \<leftarrow> recv_head r;
     case h of Inl e \<Rightarrow> Ret (e, buf, r)
     | Inr (d, pos, packet_len) \<Rightarrow>
        let data_offset = unat (offset8 d) * 8 in
        if data_offset > packet_len then Ret (Err Corrupt, buf, r)
        else do {
          payload_pos \<leftarrow>
            (if data_offset > 16 then do {
               skip \<leftarrow> slice 0 (data_offset - 16) (zeros 64);
               (p, skipped) \<leftarrow> copy_from r pos (length skip);
               Ret p }
             else Ret pos);
          let copy_len = min (packet_len - data_offset) (length buf) in
          do {
            buf' \<leftarrow>
              (if copy_len > 0 then do {
                 (p, bs) \<leftarrow> copy_from r payload_pos copy_len;
                 patch 0 bs buf }
               else Ret buf);
            Ret (Ok (Some (d, copy_len)), buf', advance_read r packet_len)
          }
        } }"

definition recv_packet_raw :: "ring_half \<Rightarrow> bytes \<Rightarrow>
   (((vm_packet_descriptor \<times> nat) option, ring_error) result \<times> bytes \<times> ring_half) run" where
  "recv_packet_raw r buf = do {
     h \<leftarrow> recv_head r;
     case h of Inl e \<Rightarrow> Ret (e, buf, r)
     | Inr (d, pos, packet_len) \<Rightarrow>
        let copy_len = min (packet_len - 16) (length buf) in
        do {
          buf' \<leftarrow>
            (if copy_len > 0 then do {
               (p, bs) \<leftarrow> copy_from r pos copy_len;
               patch 0 bs buf }
             else Ret buf);
          Ret (Ok (Some (d, copy_len)), buf', advance_read r packet_len)
        } }"

section \<open>Specification\<close>

text \<open>
  Rings of at most 512 KiB whose indices are inside the data area.  (The driver's rings have
  128 KiB - 4096 bytes of data.)  The bound is where \<open>len8\<close>, sixteen bits of 8-byte units, still
  holds the length of every packet that fits.
\<close>

definition ring_shape :: "ring_half \<Rightarrow> bool" where
  "ring_shape r \<longleftrightarrow> length (ring_data r) = data_size r \<and> 0 < data_size r"

definition ring_inv :: "ring_half \<Rightarrow> bool" where
  "ring_inv r \<longleftrightarrow> ring_shape r \<and> data_size r \<le> 524288 \<and>
     unat (write_index r) < data_size r \<and> unat (read_index r) < data_size r"

definition circ :: "ring_half \<Rightarrow> nat \<Rightarrow> nat \<Rightarrow> bytes" where
  "circ r a n = map (\<lambda>i. ring_data r ! ((a + i) mod data_size r)) [0..<n]"

definition fill :: "ring_half \<Rightarrow> nat" where
  "fill r = (unat (write_index r) + data_size r - unat (read_index r)) mod data_size r"

definition stream :: "ring_half \<Rightarrow> bytes" where
  "stream r = circ r (unat (read_index r)) (fill r)"

text \<open>
  The bytes of a stream as packets: descriptor, the bytes after the descriptor up to \<open>len8\<close>, and
  eight bytes of trailer that the consumer skips.
\<close>

type_synonym packet = "vm_packet_descriptor \<times> bytes"

primrec stream_packets :: "bytes \<Rightarrow> packet list \<Rightarrow> bool" where
  "stream_packets bs [] \<longleftrightarrow> bs = []"
| "stream_packets bs (p # ps) \<longleftrightarrow>
     length (snd p) + 16 = unat (len8 (fst p)) * 8 \<and>
     24 + length (snd p) \<le> length bs \<and>
     take (16 + length (snd p)) bs = desc_bytes (fst p) @ snd p \<and>
     stream_packets (drop (24 + length (snd p)) bs) ps"

definition ring_holds :: "ring_half \<Rightarrow> packet list \<Rightarrow> bool" where
  "ring_holds r ps \<longleftrightarrow> ring_inv r \<and> stream_packets (stream r) ps"

text \<open>The packet a send of \<open>payload\<close> puts on the ring.\<close>

definition frame_packet :: "nat \<Rightarrow> u16 \<Rightarrow> u16 \<Rightarrow> u64 \<Rightarrow> bytes \<Rightarrow> bytes \<Rightarrow> packet" where
  "frame_packet header_size ptype fl tid extra payload =
     (let n = align8 (header_size + length payload) in
      (\<lparr>packet_type = ptype, offset8 = of_nat (header_size div 8), len8 = of_nat (n div 8),
        flags = fl, transaction_id = tid\<rparr>,
       extra @ payload @ zeros (n - header_size - length payload)))"

section \<open>Lemmas: circular copies\<close>

lemma align8_ge: "n \<le> align8 n" and align8_less: "align8 n < n + 8" and align8_dvd: "8 dvd align8 n"
  by (simp_all add: align8_def)

lemma length_circ [simp]: "length (circ r a n) = n"
  by (simp add: circ_def)

lemma nth_circ [simp]: "i < n \<Longrightarrow> circ r a n ! i = ring_data r ! ((a + i) mod data_size r)"
  by (simp add: circ_def)

lemma circ_mod [simp]: "circ r (a mod data_size r) n = circ r a n"
  by (simp add: circ_def mod_add_left_eq)

lemma circ_split: "m \<le> n \<Longrightarrow> circ r a n = circ r a m @ circ r (a + m) (n - m)"
  by (rule nth_equalityI) (auto simp: nth_append)

lemma take_circ: "m \<le> n \<Longrightarrow> take m (circ r a n) = circ r a m"
  by (simp add: circ_split [of m n])

lemma drop_circ: "m \<le> n \<Longrightarrow> drop m (circ r a n) = circ r (a + m) (n - m)"
  by (simp add: circ_split [of m n])

lemma circ_cong:
  "ring_data r = ring_data r' \<Longrightarrow> data_size r = data_size r' \<Longrightarrow> circ r a n = circ r' a n"
  by (simp add: circ_def)

lemma wrap_index: "a < (s::nat) \<Longrightarrow> i < s \<Longrightarrow>
    (a + i) mod s = (if i < s - a then a + i else i - (s - a))"
  by (auto simp: mod_if)

lemma circ_two_parts:
  assumes "length (ring_data r) = data_size r" "off < data_size r" "n \<le> data_size r"
    and f: "f = min (data_size r - off) n"
  shows "circ r off n = take f (drop off (ring_data r)) @ take (n - f) (ring_data r)"
proof (rule nth_equalityI)
  show "length (circ r off n) = length (take f (drop off (ring_data r)) @ take (n - f) (ring_data r))"
    using assms by simp
next
  fix i assume "i < length (circ r off n)"
  then have i: "i < n" by simp
  show "circ r off n ! i = (take f (drop off (ring_data r)) @ take (n - f) (ring_data r)) ! i"
  proof (cases "i < data_size r - off")
    case True
    then show ?thesis using assms i by (simp add: nth_append)
  next
    case False
    then have "f = data_size r - off" using f i by simp
    with False show ?thesis
      using assms(1-3) i wrap_index [of off "data_size r" i] by (simp add: nth_append)
  qed
qed

lemma copy_from_circ:
  assumes "ring_shape r" "n \<le> data_size r"
  shows "copy_from r a n = Ret ((a + n) mod data_size r, circ r a n)"
proof -
  let ?s = "data_size r" and ?off = "a mod data_size r"
  have s: "length (ring_data r) = ?s" "?off < ?s"
    using assms by (simp_all add: ring_shape_def)
  define f where "f = min (?s - ?off) n"
  have f: "f \<le> n" "?off + f \<le> ?s" "n - f \<le> ?s"
    using s(2) assms(2) by (simp_all add: f_def)
  have "circ r a n = take f (drop ?off (ring_data r)) @ take (n - f) (ring_data r)"
    using circ_two_parts [OF s assms(2) f_def] by simp
  then show ?thesis
    using f s(1) by (simp add: copy_from_def Let_def f_def [symmetric] slice_def mod_add_left_eq)
qed

lemma copy_to_mod: "copy_to r (a mod data_size r) src = copy_to r a src"
  by (simp add: copy_to_def)

lemma copy_to_spec:
  assumes "ring_shape r" "length src \<le> data_size r"
  obtains d where "copy_to r a src = Ret ((a + length src) mod data_size r, r\<lparr>ring_data := d\<rparr>)"
    and "length d = data_size r"
    and "\<And>i. i < data_size r \<Longrightarrow> d ! ((a + i) mod data_size r) =
      (if i < length src then src ! i else ring_data r ! ((a + i) mod data_size r))"
proof -
  let ?s = "data_size r" and ?off = "a mod data_size r"
  have s: "length (ring_data r) = ?s" "?off < ?s"
    using assms by (simp_all add: ring_shape_def)
  define f where "f = min (?s - ?off) (length src)"
  have f: "f \<le> length src" "?off + f \<le> ?s" "length src - f \<le> ?s"
    using s(2) assms(2) by (simp_all add: f_def)
  define d1 where "d1 = write_at ?off (take f src) (ring_data r)"
  define d where "d = (if f < length src then write_at 0 (drop f src) d1 else d1)"
  have l1: "length d1 = ?s" using f s by (simp add: d1_def)
  have l: "length d = ?s" using f l1 by (simp add: d_def)
  have run: "copy_to r a src = Ret ((a + length src) mod ?s, r\<lparr>ring_data := d\<rparr>)"
    using f s(1) l1
    by (simp add: copy_to_def Let_def f_def [symmetric] patch_def d1_def [symmetric] d_def
        mod_add_left_eq)
  have "d ! ((a + i) mod ?s) =
      (if i < length src then src ! i else ring_data r ! ((a + i) mod ?s))" if i: "i < ?s" for i
  proof (cases "i < ?s - ?off")
    case True
    then have ix: "(a + i) mod ?s = ?off + i"
      using wrap_index [OF s(2) i] by (simp add: mod_add_left_eq)
    have "d ! (?off + i) = d1 ! (?off + i)"
      using True f l1 assms(2) by (auto simp: d_def f_def nth_write_at)
    also have "\<dots> = (if i < length src then src ! i else ring_data r ! (?off + i))"
      using True f s by (auto simp: d1_def f_def nth_write_at)
    finally show ?thesis using ix by simp
  next
    case False
    then have ix: "(a + i) mod ?s = i - (?s - ?off)"
      using wrap_index [OF s(2) i] by (simp add: mod_add_left_eq)
    have k: "i - (?s - ?off) < ?off" using False i s(2) by linarith
    have old: "d1 ! (i - (?s - ?off)) = ring_data r ! (i - (?s - ?off))"
      using k f s by (simp add: d1_def nth_write_at)
    show ?thesis
    proof (cases "i < length src")
      case True
      with False have fe: "f = ?s - ?off" "f < length src" by (simp_all add: f_def)
      have j: "i - f < length src - f" "i - f < ?s"
        using True False fe i by linarith+
      have "d ! (i - f) = drop f src ! (i - f)"
        using j fe(2) f(3) l1 by (simp add: d_def nth_write_at)
      also have "\<dots> = src ! i"
        using True False fe by simp
      finally show ?thesis using True fe(1) ix by simp
    next
      case F2: False
      have "d ! (i - (?s - ?off)) = d1 ! (i - (?s - ?off))"
        using F2 k f l1 s(2) by (auto simp: d_def f_def nth_write_at)
      with old F2 ix show ?thesis by simp
    qed
  qed
  with run l show ?thesis by (rule that)
qed

lemma copy_to_append:
  assumes "ring_shape r" "n + length src \<le> data_size r"
  obtains d where "copy_to r (a + n) src =
      Ret ((a + n + length src) mod data_size r, r\<lparr>ring_data := d\<rparr>)"
    and "length d = data_size r"
    and "circ (r\<lparr>ring_data := d\<rparr>) a (n + length src) = circ r a n @ src"
proof -
  let ?s = "data_size r"
  have len: "length src \<le> ?s" using assms(2) by simp
  obtain d where d: "copy_to r (a + n) src = Ret ((a + n + length src) mod ?s, r\<lparr>ring_data := d\<rparr>)"
    "length d = ?s"
    and at: "\<And>i. i < ?s \<Longrightarrow> d ! ((a + n + i) mod ?s) =
      (if i < length src then src ! i else ring_data r ! ((a + n + i) mod ?s))"
    using copy_to_spec [OF assms(1) len, of "a + n"] by metis
  have "circ (r\<lparr>ring_data := d\<rparr>) a (n + length src) = circ r a n @ src"
  proof (rule nth_equalityI)
    fix i assume "i < length (circ (r\<lparr>ring_data := d\<rparr>) a (n + length src))"
    then have i: "i < n + length src" by simp
    show "circ (r\<lparr>ring_data := d\<rparr>) a (n + length src) ! i = (circ r a n @ src) ! i"
    proof (cases "i < n")
      case True
      have "a + n + (?s - n + i) = (a + i) + ?s"
        using assms(2) by simp
      then have "(a + i) mod ?s = (a + n + (?s - n + i)) mod ?s"
        by (metis mod_add_self2)
      moreover have "?s - n + i < ?s" "\<not> ?s - n + i < length src"
        using True assms(2) by linarith+
      ultimately have "d ! ((a + i) mod ?s) = ring_data r ! ((a + i) mod ?s)"
        using at by presburger
      then show ?thesis using True i by (simp add: nth_append)
    next
      case False
      then have "i - n < ?s" "i - n < length src" "a + n + (i - n) = a + i"
        using i assms(2) by linarith+
      then have "d ! ((a + i) mod ?s) = src ! (i - n)"
        using at [of "i - n"] by simp
      then show ?thesis using False i by (simp add: nth_append)
    qed
  qed simp
  with d show ?thesis by (rule that)
qed

lemma copy_all_append:
  assumes "ring_shape r" "n + length (concat cs) \<le> data_size r" "pos mod data_size r = (a + n) mod data_size r"
  shows "\<exists>d. copy_all r pos cs = Ret (r\<lparr>ring_data := d\<rparr>) \<and> length d = data_size r \<and>
    circ (r\<lparr>ring_data := d\<rparr>) a (n + length (concat cs)) = circ r a n @ concat cs"
  using assms
proof (induction cs arbitrary: r n pos)
  case Nil
  then show ?case by (intro exI [of _ "ring_data r"]) (simp add: ring_shape_def)
next
  case (Cons c cs)
  have "n + length c \<le> data_size r" using Cons.prems(2) by simp
  then obtain d where d: "copy_to r (a + n) c = Ret ((a + n + length c) mod data_size r, r\<lparr>ring_data := d\<rparr>)"
    "length d = data_size r"
    "circ (r\<lparr>ring_data := d\<rparr>) a (n + length c) = circ r a n @ c"
    using copy_to_append [OF Cons.prems(1)] by metis
  have step: "copy_to r pos c = Ret ((a + n + length c) mod data_size r, r\<lparr>ring_data := d\<rparr>)"
    using d(1) Cons.prems(3) copy_to_mod by metis
  have "ring_shape (r\<lparr>ring_data := d\<rparr>)"
    using d(2) Cons.prems(1) by (simp add: ring_shape_def)
  from Cons.IH [OF this, of "n + length c" "(a + n + length c) mod data_size r"]
  show ?case
    using Cons.prems(2) step d(3) by (simp add: add.assoc)
qed

section \<open>Lemmas: descriptors and streams\<close>

lemma length_desc_bytes [simp, slice_simps]: "length (desc_bytes d) = 16"
  by (simp add: desc_bytes_def)

lemma desc_of_desc_bytes [simp]: "desc_of_bytes (desc_bytes d) = d"
  by (cases d)
    (simp add: desc_of_bytes_def desc_bytes_def get16_le16 get64_le64)

lemma stream_packets_append:
  assumes "stream_packets bs ps" "length body + 16 = unat (len8 d) * 8" "length t = 8"
  shows "stream_packets (bs @ desc_bytes d @ body @ t) (ps @ [(d, body)])"
  using assms(1)
proof (induction ps arbitrary: bs)
  case Nil
  then show ?case using assms(2,3) by simp
next
  case (Cons p ps)
  then show ?case by auto
qed

lemma fill_less: "ring_inv r \<Longrightarrow> fill r < data_size r"
  by (simp add: fill_def ring_inv_def ring_shape_def)

lemma length_stream [simp]: "length (stream r) = fill r"
  by (simp add: stream_def)

lemma recv_avail_fill: "ring_inv r \<Longrightarrow> recv_avail r = Ret (fill r)"
  by (auto simp: recv_avail_def fill_def ring_inv_def Let_def mod_if)

lemma send_avail_fill: "ring_inv r \<Longrightarrow> send_avail r = Ret (data_size r - fill r)"
  by (auto simp: send_avail_def fill_def ring_inv_def Let_def mod_if)

lemma fill_write: "ring_inv r \<Longrightarrow>
    (unat (read_index r) + fill r) mod data_size r = unat (write_index r)"
  by (auto simp: fill_def ring_inv_def mod_if)

lemma index_fits:
  assumes "ring_inv r"
  shows "x mod data_size r < data_size r" and "unat (of_nat (x mod data_size r) :: u32) = x mod data_size r"
proof -
  show lt: "x mod data_size r < data_size r"
    using assms by (simp add: ring_inv_def ring_shape_def)
  then have "x mod data_size r < 524288" using assms unfolding ring_inv_def by linarith
  then show "unat (of_nat (x mod data_size r) :: u32) = x mod data_size r"
    by (simp add: unat_of_nat)
qed

lemma fill_advance_write:
  assumes "ring_inv r" "fill r + t < data_size r"
    and r': "r' = r\<lparr>ring_data := d, write_index := of_nat ((unat (write_index r) + t) mod data_size r)\<rparr>"
    and "length d = data_size r"
  shows "ring_inv r'" and "fill r' = fill r + t"
proof -
  let ?s = "data_size r"
  note lt = index_fits(1) [OF assms(1), of "unat (write_index r) + t"]
  have w: "unat (write_index r') = (unat (write_index r) + t) mod ?s"
    using r' index_fits(2) [OF assms(1)] by simp
  with lt assms show inv: "ring_inv r'" by (simp add: ring_inv_def ring_shape_def)
  have "(unat (read_index r) + (fill r + t)) mod ?s = unat (write_index r')"
    using fill_write [OF assms(1)] w by (metis add.assoc mod_add_left_eq)
  moreover have "(unat (read_index r') + fill r') mod ?s = unat (write_index r')"
    using fill_write [OF inv] r' by simp
  ultimately have "(unat (read_index r) + (fill r + t)) mod ?s = (unat (read_index r) + fill r') mod ?s"
    using r' by simp
  then have "(fill r + t) mod ?s = fill r' mod ?s"
    by (rule nat_mod_add_cancel)
  then show "fill r' = fill r + t"
    using assms(2) fill_less [OF inv] r' by simp
qed

lemma send_frame_Full:
  assumes "ring_inv r" "data_size r - fill r \<le> align8 (hs + length payload) + 8"
  shows "send_frame r hs ptype fl tid extra payload = Ret (Err Full, r)"
  using assms by (simp add: send_frame_def Let_def send_avail_fill)

text \<open>What a send with space does to the stream, whatever bytes the ring holds.\<close>

lemma send_frame_stream:
  assumes inv: "ring_inv r"
    and space: "data_size r - fill r > align8 (hs + length payload) + 8"
    and hs: "length (concat extra) + 16 = hs"
    and pkt: "(d, body) = frame_packet hs ptype fl tid (concat extra) payload"
  shows "\<exists>r' prev. send_frame r hs ptype fl tid extra payload = Ret (Ok (), r') \<and> ring_inv r' \<and>
     stream r' = stream r @ desc_bytes d @ body @ le64 prev \<and> length body + 16 = unat (len8 d) * 8 \<and>
     read_index r' = read_index r \<and> data_size r' = data_size r"
proof -
  let ?s = "data_size r" and ?n = "align8 (hs + length payload)"
  let ?w = "unat (write_index r)" and ?rd = "unat (read_index r)"
  let ?pad = "?n - hs - length payload"
  define prev where "prev = push_bit 32 (of_nat ?w) OR (of_nat ?rd :: u64)"
  define cs where "cs = [desc_bytes d] @ extra @ (if payload = [] then [] else [payload]) @
               (if ?pad > 0 then [take ?pad (zeros 8)] else []) @ [le64 prev]"
  have dval: "d = \<lparr>packet_type = ptype, offset8 = of_nat (hs div 8), len8 = of_nat (?n div 8),
      flags = fl, transaction_id = tid\<rparr>"
    and bval: "body = concat extra @ payload @ zeros ?pad"
    using pkt by (simp_all add: frame_packet_def Let_def zeros_def)
  have pad: "?pad < 8" "hs + length payload + ?pad = ?n"
    using align8_ge [of "hs + length payload"] align8_less [of "hs + length payload"] by linarith+
  have cat: "concat cs = desc_bytes d @ body @ le64 prev"
    using pad(1) by (simp add: cs_def bval zeros_def)
  have lbody: "length body + 16 = ?n" using pad hs by (simp add: bval)
  have lcat: "length (concat cs) = ?n + 8" using lbody cat by simp
  have fits: "fill r + length (concat cs) < ?s" using space lcat by linarith
  have "?n < 524288" using fits lcat inv unfolding ring_inv_def by linarith
  then have "unat (of_nat (?n div 8) :: u16) = ?n div 8" by (simp add: unat_of_nat)
  then have len8: "length body + 16 = unat (len8 d) * 8"
    using lbody align8_dvd [of "hs + length payload"] by (simp add: dval)
  have shape: "ring_shape r" using inv by (simp add: ring_inv_def)
  have "?w mod ?s = (?rd + fill r) mod ?s"
    using fill_write [OF inv] inv by (simp add: ring_inv_def)
  then obtain dd where dd: "copy_all r ?w cs = Ret (r\<lparr>ring_data := dd\<rparr>)" "length dd = ?s"
    "circ (r\<lparr>ring_data := dd\<rparr>) ?rd (fill r + length (concat cs)) = circ r ?rd (fill r) @ concat cs"
    using copy_all_append [OF shape] fits by (meson less_imp_le)
  define r' where "r' = r\<lparr>ring_data := dd, write_index := of_nat ((?w + (?n + 8)) mod ?s)\<rparr>"
  have "fill r + (?n + 8) < ?s" using fits lcat by simp
  note adv = fill_advance_write [OF inv this r'_def dd(2)]
  have "stream r' = circ (r\<lparr>ring_data := dd\<rparr>) ?rd (fill r + (?n + 8))"
    using adv(2) circ_cong [of r' "r\<lparr>ring_data := dd\<rparr>"] by (simp add: stream_def r'_def)
  then have "stream r' = stream r @ desc_bytes d @ body @ le64 prev"
    using dd(3) lcat by (simp only: stream_def cat)
  moreover have "send_frame r hs ptype fl tid extra payload = Ret (Ok (), r')"
  proof -
    have "\<not> ?s - fill r \<le> ?n + 8" using space by simp
    then show ?thesis
      unfolding send_frame_def Let_def send_avail_fill [OF inv] dval [symmetric]
        prev_def [symmetric] cs_def [symmetric]
      by (simp add: dd(1) r'_def)
  qed
  ultimately show ?thesis using adv(1) len8 by (auto simp: r'_def)
qed

lemma send_frame_Ok:
  assumes holds: "ring_holds r ps"
    and space: "data_size r - fill r > align8 (hs + length payload) + 8"
    and hs: "length (concat extra) + 16 = hs"
  shows "\<exists>r'. send_frame r hs ptype fl tid extra payload = Ret (Ok (), r') \<and>
     ring_holds r' (ps @ [frame_packet hs ptype fl tid (concat extra) payload]) \<and>
     read_index r' = read_index r \<and> data_size r' = data_size r"
proof -
  obtain d body where pkt: "(d, body) = frame_packet hs ptype fl tid (concat extra) payload"
    by (metis surj_pair)
  from holds have inv: "ring_inv r" by (simp add: ring_holds_def)
  from send_frame_stream [OF inv space hs pkt] obtain r' prev where r':
    "send_frame r hs ptype fl tid extra payload = Ret (Ok (), r')" "ring_inv r'"
    "stream r' = stream r @ desc_bytes d @ body @ le64 prev" "length body + 16 = unat (len8 d) * 8"
    "read_index r' = read_index r" "data_size r' = data_size r" by blast
  then have "stream_packets (stream r') (ps @ [(d, body)])"
    using stream_packets_append [OF _ r'(4)] holds by (simp add: ring_holds_def)
  with r' pkt show ?thesis by (auto simp: ring_holds_def)
qed

text \<open>A send on a ring with arbitrary bytes returns and keeps the invariant.\<close>

lemma send_frame_safe:
  assumes "ring_inv r" "length (concat extra) + 16 = hs"
  shows "\<exists>res r'. send_frame r hs ptype fl tid extra payload = Ret (res, r') \<and> ring_inv r'"
proof (cases "data_size r - fill r > align8 (hs + length payload) + 8")
  case True
  obtain d body where "(d, body) = frame_packet hs ptype fl tid (concat extra) payload"
    by (metis surj_pair)
  from send_frame_stream [OF assms(1) True assms(2) this] show ?thesis by blast
next
  case False
  then show ?thesis using send_frame_Full [OF assms(1)] assms(1) by simp
qed

section \<open>Lemmas: receiving\<close>

lemma recv_head_empty: "ring_holds r [] \<Longrightarrow> recv_head r = Ret (Inl (Ok None))"
  using length_stream [of r] by (simp add: ring_holds_def recv_head_def recv_avail_fill)

lemma recv_head_cons:
  assumes "ring_holds r ((d, body) # ps)"
  shows "recv_head r =
      Ret (Inr (d, (unat (read_index r) + 16) mod data_size r, 16 + length body))"
    and "circ r (unat (read_index r) + 16) (length body) = body"
    and "24 + length body \<le> fill r"
proof -
  let ?rd = "unat (read_index r)"
  have inv: "ring_inv r" and shape: "ring_shape r"
    using assms by (simp_all add: ring_holds_def ring_inv_def)
  have sp: "length body + 16 = unat (len8 d) * 8" and le: "24 + length body \<le> fill r"
    and tk: "take (16 + length body) (stream r) = desc_bytes d @ body"
    using assms by (simp_all add: ring_holds_def)
  then show "24 + length body \<le> fill r" by simp
  have c: "circ r ?rd (16 + length body) = desc_bytes d @ body"
    using tk le by (simp add: stream_def take_circ)
  then have both: "circ r ?rd 16 = desc_bytes d \<and> circ r (?rd + 16) (length body) = body"
    using circ_split [of 16 "16 + length body" r ?rd] by simp
  then show "circ r (?rd + 16) (length body) = body" by simp
  have sz: "16 \<le> data_size r" using le fill_less [OF inv] by linarith
  show "recv_head r = Ret (Inr (d, (?rd + 16) mod data_size r, 16 + length body))"
    using both sp le copy_from_circ [OF shape sz, of ?rd]
    by (simp add: recv_head_def recv_avail_fill [OF inv] Let_def)
qed

lemma advance_read_inv: "ring_inv r \<Longrightarrow> ring_inv (advance_read r n)"
  using index_fits [of r] by (simp add: ring_inv_def ring_shape_def advance_read_def)

lemma fill_advance_read:
  assumes inv: "ring_inv r" and le: "n + 8 \<le> fill r"
  shows "fill (advance_read r n) = fill r - (n + 8)"
    and "stream (advance_read r n) = drop (n + 8) (stream r)"
proof -
  let ?s = "data_size r" and ?rd = "unat (read_index r)" and ?t = "n + 8"
  let ?r' = "advance_read r n"
  have rd': "unat (read_index ?r') = (?rd + ?t) mod ?s"
    using index_fits(2) [OF inv] by (simp add: advance_read_def)
  have same: "write_index ?r' = write_index r" "data_size ?r' = ?s" "ring_data ?r' = ring_data r"
    by (simp_all add: advance_read_def)
  note inv' = advance_read_inv [OF inv, of n]
  have "((?rd + ?t) + fill ?r') mod ?s = (?rd + fill r) mod ?s"
    using fill_write [OF inv'] fill_write [OF inv] rd' same by (simp add: mod_add_left_eq)
  then have "((?rd + ?t) + fill ?r') mod ?s = ((?rd + ?t) + (fill r - ?t)) mod ?s"
    using le by simp
  then have "fill ?r' mod ?s = (fill r - ?t) mod ?s"
    by (rule nat_mod_add_cancel)
  then show f': "fill ?r' = fill r - ?t"
    using fill_less [OF inv] fill_less [OF inv'] same by simp
  show "stream ?r' = drop ?t (stream r)"
    using le f' rd' same circ_cong [of ?r' r] circ_mod [of r "?rd + ?t"]
    by (simp add: stream_def drop_circ)
qed

lemma advance_read_holds:
  assumes "ring_holds r ((d, body) # ps)"
  shows "ring_holds (advance_read r (16 + length body)) ps"
proof -
  have inv: "ring_inv r" and sp: "stream_packets (drop (24 + length body) (stream r)) ps"
    using assms by (simp_all add: ring_holds_def)
  have "16 + length body + 8 = 24 + length body" by simp
  with fill_advance_read(2) [OF inv, of "16 + length body"] recv_head_cons(3) [OF assms]
  have "stream (advance_read r (16 + length body)) = drop (24 + length body) (stream r)"
    by metis
  with sp show ?thesis by (simp add: ring_holds_def advance_read_inv [OF inv])
qed

lemma recv_packet_raw_cons:
  assumes "ring_holds r ((d, body) # ps)"
  shows "recv_packet_raw r buf = Ret
      (Ok (Some (d, min (length body) (length buf))),
       write_at 0 (take (length buf) body) buf,
       advance_read r (16 + length body))"
proof -
  let ?p = "(unat (read_index r) + 16) mod data_size r" and ?k = "min (length body) (length buf)"
  note hd = recv_head_cons [OF assms]
  have shape: "ring_shape r" and inv: "ring_inv r"
    using assms by (simp_all add: ring_holds_def ring_inv_def)
  have "?k \<le> data_size r" using hd(3) fill_less [OF inv] by linarith
  then have "copy_from r ?p ?k = Ret ((?p + ?k) mod data_size r, take ?k body)"
    using copy_from_circ [OF shape] hd(2)
      take_circ [of ?k "length body" r "unat (read_index r) + 16"] by simp
  moreover have "take ?k body = take (length buf) body" by (simp add: min_def)
  ultimately show ?thesis
    using hd(1) by (auto simp: recv_packet_raw_def Let_def patch_def write_at_def)
qed

text \<open>What the head of a receive guarantees about a ring with arbitrary bytes.\<close>

lemma recv_head_cases:
  assumes "ring_inv r"
  obtains (empty) "recv_head r = Ret (Inl (Ok None))"
  | (corrupt) "recv_head r = Ret (Inl (Err Corrupt))"
  | (packet) d pos n where "recv_head r = Ret (Inr (d, pos, n))" "n = unat (len8 d) * 8" "16 \<le> n"
      "n + 8 \<le> fill r" "pos = (unat (read_index r) + 16) mod data_size r"
proof -
  have shape: "ring_shape r" using assms by (simp add: ring_inv_def)
  consider "fill r = 0" | "0 < fill r" "fill r < 16" | "16 \<le> fill r" by linarith
  then show ?thesis
  proof cases
    case 1
    then show ?thesis using empty assms by (simp add: recv_head_def recv_avail_fill)
  next
    case 2
    then show ?thesis using corrupt assms by (simp add: recv_head_def recv_avail_fill)
  next
    case 3
    let ?c = "circ r (unat (read_index r)) 16"
    have "16 \<le> data_size r" using 3 fill_less [OF assms] by linarith
    note cf = copy_from_circ [OF shape this, of "unat (read_index r)"]
    show ?thesis
    proof (cases "unat (len8 (desc_of_bytes ?c)) * 8 < 16 \<or>
        unat (len8 (desc_of_bytes ?c)) * 8 + 8 > fill r")
      case True
      then show ?thesis using 3 cf corrupt by (simp add: recv_head_def recv_avail_fill [OF assms] Let_def)
    next
      case False
      show ?thesis
        by (rule packet [of "desc_of_bytes ?c" "(unat (read_index r) + 16) mod data_size r"
              "unat (len8 (desc_of_bytes ?c)) * 8"])
          (use False 3 cf in \<open>simp_all add: recv_head_def recv_avail_fill [OF assms] Let_def\<close>)
    qed
  qed
qed

text \<open>Copying \<open>min k (length buf)\<close> bytes to the front of a buffer always succeeds.\<close>

lemma copy_into_buf:
  assumes "ring_inv r" "k \<le> data_size r"
  shows "\<exists>buf'. (if min k (length buf) > 0 then do {
             (p, bs) \<leftarrow> copy_from r a (min k (length buf)); patch 0 bs buf }
           else Ret buf) = Ret buf' \<and> length buf' = length buf"
  using assms copy_from_circ [of r "min k (length buf)" a]
  by (simp add: ring_inv_def patch_def)

lemma recv_packet_raw_inv:
  assumes "ring_inv r"
  shows "\<exists>res buf' r'. recv_packet_raw r buf = Ret (res, buf', r') \<and> length buf' = length buf \<and>
    ring_inv r' \<and>
    (case res of Ok (Some (d, n)) \<Rightarrow> n \<le> length buf \<and> n + 16 \<le> unat (len8 d) * 8 \<and>
         fill r' + unat (len8 d) * 8 + 8 = fill r
     | _ \<Rightarrow> r' = r \<and> buf' = buf)"
  using assms
proof (cases rule: recv_head_cases)
  case (packet d pos n)
  have "n - 16 \<le> data_size r" using packet(4) fill_less [OF assms] by linarith
  from copy_into_buf [OF assms this, of buf pos] obtain buf' where
    "recv_packet_raw r buf = Ret (Ok (Some (d, min (n - 16) (length buf))), buf', advance_read r n)"
    "length buf' = length buf"
    using packet(1) by (auto simp: recv_packet_raw_def Let_def)
  then show ?thesis
    using packet(2-4) fill_advance_read(1) [OF assms packet(4)] advance_read_inv [OF assms, of n]
    by auto
qed (use assms in \<open>auto simp: recv_packet_raw_def\<close>)

section \<open>The ring as a bounded queue\<close>

definition ring_enq :: "ring_half \<Rightarrow> bytes \<times> u64 \<times> u16 \<Rightarrow> (bool \<times> ring_half) run" where
  "ring_enq r m = do {
     (res, r') \<leftarrow> send_packet r (fst m) (fst (snd m)) (snd (snd m));
     Ret (res = Ok (), r') }"

text \<open>Receive with a buffer of the size of the ring; a corrupt ring counts as a failed run.\<close>

definition ring_deq :: "ring_half \<Rightarrow> (packet option \<times> ring_half) run" where
  "ring_deq r = do {
     (res, buf, r') \<leftarrow> recv_packet_raw r (zeros (data_size r));
     case res of Ok None \<Rightarrow> Ret (None, r')
     | Ok (Some (d, n)) \<Rightarrow> Ret (Some (d, take n buf), r')
     | Err e \<Rightarrow> Panic }"

definition inband_packet :: "bytes \<times> u64 \<times> u16 \<Rightarrow> packet" where
  "inband_packet m = frame_packet 16 VM_PKT_DATA_INBAND (snd (snd m)) (fst (snd m)) [] (fst m)"

interpretation vmring: bounded_fifo ring_holds ring_enq ring_deq inband_packet
proof
  fix r ps m
  assume h: "ring_holds r ps"
  show "ring_enq r m = Ret (False, r) \<or>
      (\<exists>r'. ring_enq r m = Ret (True, r') \<and> ring_holds r' (ps @ [inband_packet m]))"
  proof (cases "data_size r - fill r \<le> align8 (16 + length (fst m)) + 8")
    case True
    then show ?thesis
      using h send_frame_Full [of r 16 "fst m"]
      by (simp add: ring_enq_def send_packet_def ring_holds_def)
  next
    case False
    then show ?thesis
      using send_frame_Ok [OF h, of 16 "fst m" "[]" VM_PKT_DATA_INBAND "snd (snd m)" "fst (snd m)"]
      by (auto simp: ring_enq_def send_packet_def inband_packet_def)
  qed
next
  fix r
  assume "ring_holds r []"
  then show "ring_deq r = Ret (None, r)"
    using recv_head_empty by (simp add: ring_deq_def recv_packet_raw_def)
next
  fix r p ps
  assume h: "ring_holds r (p # ps)"
  obtain d body where p: "p = (d, body)" by (cases p)
  have "length body \<le> data_size r"
    using recv_head_cons(3) [of r d body ps] h p fill_less [of r] by (simp add: ring_holds_def)
  then have "ring_deq r = Ret (Some p, advance_read r (16 + length body))"
    using h p recv_packet_raw_cons [of r d body ps "zeros (data_size r)"]
    by (simp add: ring_deq_def write_at_def)
  with h p show "\<exists>r'. ring_deq r = Ret (Some p, r') \<and> ring_holds r' ps"
    using advance_read_holds by auto
qed

section \<open>Properties\<close>

text \<open>
  C1.  Any interleaving of \<open>send_packet\<close> and \<open>recv_packet_raw\<close> on a ring that holds the packets \<open>ps\<close>
  runs to the end without a panic and without reporting corruption, the packets received followed
  by those still on the ring are the packets \<open>ps\<close> followed by the accepted messages in order, each
  with its flags, transaction id and zero-padded payload.
\<close>

theorem ring_fifo:
  assumes "ring_holds r ps"
  shows "\<exists>ins outs r' ps'. run_ops ring_enq ring_deq r ops = Ret (ins, outs, r') \<and>
    ring_holds r' ps' \<and> ps @ map inband_packet ins = outs @ ps'"
  by (rule vmring.run_ops_fifo [OF assms])

theorem ring_fifo_witness:
  "ring_holds \<lparr>write_index = 40, read_index = 40, feature_bits = 1, data_size = 64,
       ring_data = zeros 64\<rparr> [] \<and>
   (\<exists>ins outs r' ps'. run_ops ring_enq ring_deq
      \<lparr>write_index = 40, read_index = 40, feature_bits = 1, data_size = 64, ring_data = zeros 64\<rparr>
      [Put ([1, 2, 3], 7, 1), Get] = Ret (ins, outs, r') \<and>
    ring_holds r' ps' \<and> [] @ map inband_packet ins = outs @ ps')"
proof -
  have h: "ring_holds \<lparr>write_index = 40, read_index = 40, feature_bits = 1, data_size = 64,
       ring_data = zeros 64\<rparr> []"
    by (simp add: ring_holds_def ring_inv_def ring_shape_def stream_def fill_def circ_def)
  from h ring_fifo [OF h] show ?thesis by blast
qed

text \<open>
  A data packet with a page buffer (the transmit path) is refused exactly when the free space
  does not exceed its length plus trailer, in which case the ring is unchanged; otherwise it
  becomes the last packet of the ring, with the 24 bytes of page range between descriptor and user
  data, and the consumer's index does not move.
\<close>

lemma page_buffer_send:
  assumes "ring_holds r ps"
  shows "if data_size r - fill r \<le> align8 (40 + length user_data) + 8
    then send_packet_with_page_buffer r user_data pfn poff plen tid fl = Ret (Err Full, r)
    else \<exists>r'. send_packet_with_page_buffer r user_data pfn poff plen tid fl = Ret (Ok (), r') \<and>
      read_index r' = read_index r \<and>
      ring_holds r' (ps @ [frame_packet 40 VM_PKT_DATA_USING_GPA_DIRECT fl tid
        (le32 0 @ le32 1 @ le32 poff @ le32 plen @ le64 pfn) user_data])"
proof -
  let ?extra = "[le32 0, le32 1, le32 poff, le32 plen, le64 pfn]"
  have "ring_inv r" using assms by (simp add: ring_holds_def)
  moreover have "length (concat ?extra) + 16 = 40" by simp
  ultimately show ?thesis
    using send_frame_Full [of r 40 user_data _ fl tid ?extra]
      send_frame_Ok [OF assms, of 40 user_data ?extra VM_PKT_DATA_USING_GPA_DIRECT fl tid]
    by (auto simp: send_packet_with_page_buffer_def)
qed

lemma page_buffer_send_witness:
  "\<exists>r'. send_packet_with_page_buffer \<lparr>write_index = 40, read_index = 40, feature_bits = 1,
       data_size = 128, ring_data = zeros 128\<rparr> [5, 6] 9 0 60 3 1 = Ret (Ok (), r') \<and>
     read_index r' = 40 \<and>
     ring_holds r' [frame_packet 40 VM_PKT_DATA_USING_GPA_DIRECT 1 3
       (le32 0 @ le32 1 @ le32 0 @ le32 60 @ le64 9) [5, 6]]"
proof -
  have h: "ring_holds \<lparr>write_index = 40, read_index = 40, feature_bits = 1, data_size = 128,
       ring_data = zeros 128\<rparr> []"
    by (simp add: ring_holds_def ring_inv_def ring_shape_def stream_def fill_def circ_def)
  from page_buffer_send [OF h, of "[5, 6]" 9 0 60 3 1] show ?thesis
    by (simp add: fill_def align8_def)
qed

text \<open>
  C24.  Whatever bytes the host leaves in the data area, \<open>recv_packet_raw\<close> on indices inside the area
  returns: it neither panics nor reads outside the area, keeps the buffer's length and the ring's
  invariant, leaves the ring alone when it reports no packet or a corrupt one, and otherwise
  consumes exactly the packet's bytes and its trailer.
\<close>

theorem recv_packet_raw_safe:
  assumes "ring_inv r"
  shows "\<exists>res buf' r'. recv_packet_raw r buf = Ret (res, buf', r') \<and> length buf' = length buf \<and>
    ring_inv r' \<and>
    (case res of Ok (Some (d, n)) \<Rightarrow> n \<le> length buf \<and> n + 16 \<le> unat (len8 d) * 8 \<and>
         fill r' + unat (len8 d) * 8 + 8 = fill r
     | _ \<Rightarrow> r' = r \<and> buf' = buf)"
  using assms by (rule recv_packet_raw_inv)

theorem recv_packet_raw_safe_witness:
  "ring_inv \<lparr>write_index = 40, read_index = 8, feature_bits = 1, data_size = 64,
      ring_data = replicate 64 255\<rparr> \<and>
   (\<exists>res buf' r'. recv_packet_raw \<lparr>write_index = 40, read_index = 8, feature_bits = 1,
      data_size = 64, ring_data = replicate 64 255\<rparr> [0, 0] = Ret (res, buf', r') \<and>
      length buf' = 2 \<and> ring_inv r')"
proof -
  have i: "ring_inv \<lparr>write_index = 40, read_index = 8, feature_bits = 1, data_size = 64,
      ring_data = replicate 64 255\<rparr>"
    by (simp add: ring_inv_def ring_shape_def)
  from i recv_packet_raw_safe [OF i, of "[0, 0]"] show ?thesis by auto
qed

text \<open>
  \<open>recv_packet\<close>, which skips to the payload through a 64-byte scratch array, panics on exactly
  those well-formed packets whose data offset lies more than 64 bytes after the descriptor, a
  value the host chooses.
\<close>

lemma recv_packet_panics_iff:
  assumes "ring_inv r" "recv_head r = Ret (Inr (d, pos, n))"
  shows "recv_packet r buf = Panic \<longleftrightarrow> 10 < unat (offset8 d) \<and> unat (offset8 d) * 8 \<le> n"
proof -
  have n: "n + 8 \<le> fill r"
    using assms(2) by (cases rule: recv_head_cases [OF assms(1)]) auto
  have shape: "ring_shape r" using assms(1) by (simp add: ring_inv_def)
  have sz: "n \<le> data_size r" using n fill_less [OF assms(1)] by linarith
  let ?o = "unat (offset8 d) * 8"
  have tail: "\<And>a. (if 0 < min (n - ?o) (length buf) then do {
             (p, bs) \<leftarrow> copy_from r a (min (n - ?o) (length buf)); patch 0 bs buf }
           else Ret buf) \<noteq> Panic"
    using copy_into_buf [OF assms(1), of "n - ?o" buf] sz by fastforce
  consider "?o > n" | "?o \<le> n" "?o \<le> 16" | "?o \<le> n" "16 < ?o" "?o \<le> 80" | "?o \<le> n" "80 < ?o"
    by linarith
  then show ?thesis
  proof cases
    case 3
    then have "copy_from r pos (?o - 16) = Ret ((pos + (?o - 16)) mod data_size r, circ r pos (?o - 16))"
      using copy_from_circ [OF shape] sz by simp
    then show ?thesis
      using 3 tail assms(2)
      by (auto simp: recv_packet_def Let_def slice_def zeros_def bind_eq_None_conv)
  qed (use tail assms(2) in \<open>auto simp: recv_packet_def Let_def slice_def bind_eq_None_conv\<close>)
qed

text \<open>A 96-byte packet whose descriptor puts the data 88 bytes into it.\<close>

definition far_ring :: ring_half where
  "far_ring = \<lparr>write_index = 104, read_index = 0, feature_bits = 1, data_size = 128,
     ring_data = desc_bytes \<lparr>packet_type = 7, offset8 = 11, len8 = 12, flags = 0,
       transaction_id = 0\<rparr> @ zeros 112\<rparr>"

lemma recv_packet_panics_iff_witness:
  "ring_inv far_ring \<and> (\<exists>d pos n. recv_head far_ring = Ret (Inr (d, pos, n))) \<and>
   recv_packet far_ring (zeros 4) = Panic"
proof -
  have i: "ring_inv far_ring"
    by (simp add: ring_inv_def ring_shape_def far_ring_def)
  let ?d = "\<lparr>packet_type = 7, offset8 = 11, len8 = 12, flags = 0, transaction_id = 0\<rparr>"
  have h: "recv_head far_ring = Ret (Inr (?d, 16, 96))"
    by (simp add: recv_head_def recv_avail_def copy_from_def slice_def far_ring_def Let_def)
  from recv_packet_panics_iff [OF i h, of "zeros 4"] i h show ?thesis by simp
qed

end
