(* ===== verification/Async_Rt.thy ===== *)
theory Async_Rt
  imports Prelude
begin

text \<open>
  The one-future runner, \<open>crates/embclox-async/src/lib.rs\<close>: \<open>block_on_with\<close> polls a future until
  it is ready and calls \<open>park\<close> after every \<open>Pending\<close>.  A future is a poll function on a state; the
  state is what the future captured together with the machine it observes.  The loop may run
  forever, so it is fuelled: None is a run that has not returned within the fuel (or whose poll
  did not return).
\<close>

datatype 'r poll = Ready 'r | Pending

primrec block_on_with :: "nat \<Rightarrow> ('s \<Rightarrow> ('r poll \<times> 's) option) \<Rightarrow> ('s \<Rightarrow> 's) \<Rightarrow> 's \<Rightarrow> ('r \<times> 's) option" where
  "block_on_with 0 poll park s = None"
| "block_on_with (Suc fuel) poll park s =
     (case poll s of None \<Rightarrow> None
      | Some (Ready r, s') \<Rightarrow> Some (r, s')
      | Some (Pending, s') \<Rightarrow> block_on_with fuel poll park (park s'))"

lemma block_on_with_mono:
  "block_on_with n poll park s = Some x \<Longrightarrow> n \<le> m \<Longrightarrow> block_on_with m poll park s = Some x"
proof (induction n arbitrary: s m)
  case (Suc n)
  then obtain m' where m: "m = Suc m'" "n \<le> m'" by (cases m) auto
  then show ?case using Suc by (auto split: option.splits poll.splits)
qed simp

text \<open>The first poll that is ready decides the result, and none before it is.\<close>

lemma block_on_with_ready:
  "(\<And>i s. i < n \<Longrightarrow> poll (S i) = Some (Pending, s) \<Longrightarrow> S (Suc i) = park s) \<Longrightarrow>
   (\<And>i. i < n \<Longrightarrow> \<exists>s. poll (S i) = Some (Pending, s)) \<Longrightarrow>
   poll (S n) = Some (Ready r, s') \<Longrightarrow>
   block_on_with (Suc n) poll park (S 0) = Some (r, s')"
proof (induction n arbitrary: S)
  case (Suc n)
  obtain s where s: "poll (S 0) = Some (Pending, s)" using Suc.prems(2) by blast
  have "block_on_with (Suc n) poll park ((\<lambda>i. S (Suc i)) 0) = Some (r, s')"
    by (rule Suc.IH) (use Suc.prems in auto)
  then show ?case using s Suc.prems(1) [of 0 s] by simp
qed simp

text \<open>Invariants of the runner: what every poll keeps and every park keeps holds at the end.\<close>

lemma block_on_with_invariant:
  assumes "block_on_with n poll park s = Some (r, s')" "I s"
    and "\<And>s s'. I s \<Longrightarrow> poll s = Some (Pending, s') \<Longrightarrow> I (park s')"
    and "\<And>s s' r. I s \<Longrightarrow> poll s = Some (Ready r, s') \<Longrightarrow> Q r s'"
  shows "Q r s'"
  using assms(1,2)
proof (induction n arbitrary: s)
  case (Suc n)
  then show ?case using assms(3,4) by (auto split: option.splits poll.splits)
qed simp

end
