(* ===== verification/Dma.thy ===== *)
theory Dma
  imports Prelude
begin

text \<open>
  DMA memory: the regions of \<open>crates/embclox-dma/src/lib.rs\<close> and the allocator over the kernel heap
  of \<open>crates/embclox-core/src/dma_alloc.rs\<close>.

  The heap is a parameter: the pointer it returns for a layout.  A call of \<open>dealloc\<close> is the triple
  of pointer, size and alignment it was made with.
\<close>

record dma_region =
  vaddr :: u64
  paddr :: u64
  dma_size :: nat

record boot_dma_allocator =
  kernel_offset :: u64
  phys_offset :: u64

text \<open>\<open>Layout::from_size_align\<close>: a power of two whose rounding of the size stays below \<open>isize::MAX\<close>.\<close>

definition is_power_of_two :: "nat \<Rightarrow> bool" where
  "is_power_of_two n \<longleftrightarrow> n > 0 \<and> list_ex (\<lambda>k. n = 2 ^ k) [0..<64]"

definition layout_ok :: "nat \<Rightarrow> nat \<Rightarrow> bool" where
  "layout_ok sz align \<longleftrightarrow> is_power_of_two align \<and> sz \<le> 2 ^ 63 - align"

definition sub64 :: "u64 \<Rightarrow> u64 \<Rightarrow> u64 run" where
  "sub64 a b = (if b \<le> a then Ret (a - b) else Panic)"

definition add64 :: "u64 \<Rightarrow> u64 \<Rightarrow> u64 run" where
  "add64 a b = (if unat a + unat b < 2 ^ 64 then Ret (a + b) else Panic)"

definition boot_alloc_coherent :: "(nat \<Rightarrow> nat \<Rightarrow> u64) \<Rightarrow> boot_dma_allocator \<Rightarrow> nat \<Rightarrow> nat \<Rightarrow> dma_region run" where
  "boot_alloc_coherent heap a sz align = do {
     assert_run (layout_ok sz align);
     let ptr = heap sz align in do {
     assert_run (ptr \<noteq> 0);
     pa \<leftarrow> sub64 ptr (kernel_offset a);
     va \<leftarrow> add64 pa (phys_offset a);
     Ret \<lparr>vaddr = va, paddr = pa, dma_size = sz\<rparr> } }"

definition boot_free_coherent :: "boot_dma_allocator \<Rightarrow> dma_region \<Rightarrow> (u64 \<times> nat \<times> nat) run" where
  "boot_free_coherent a region = do {
     pa \<leftarrow> sub64 (vaddr region) (phys_offset a);
     ptr \<leftarrow> add64 pa (kernel_offset a);
     assert_run (layout_ok (dma_size region) 4096);
     Ret (ptr, dma_size region, 4096) }"

section \<open>Lemmas\<close>

lemma sub_add64: "sub64 a b = Ret c \<Longrightarrow> add64 c b = Ret a"
  by (auto simp: sub64_def add64_def unat_sub unat_less2p [where 'a = 64, simplified] word_le_nat_alt split: if_splits)

lemma add_sub64:
  assumes "add64 a b = Ret c"
  shows "sub64 c b = Ret a"
proof -
  have lt: "unat a + unat b < 2 ^ 64" and c: "c = a + b"
    using assms by (simp_all add: add64_def split: if_splits)
  have "unat c = unat a + unat b" using lt c by (simp add: unat_word_ariths)
  then show ?thesis using c by (simp add: sub64_def word_le_nat_alt)
qed

section \<open>Properties\<close>

text \<open>
  Freeing gives the heap back exactly what it handed out: for a region of the allocator the
  pointer passed to \<open>dealloc\<close> is the heap's own pointer and the size is the allocated one.  The
  alignment it passes is always 4096, so the layout is that of the allocation exactly when the
  region was allocated with that alignment.  The two addresses of a region differ by the offset of
  the direct map.
\<close>

lemma dma_free_roundtrip:
  assumes "boot_alloc_coherent heap a sz align = Ret region" "sz \<le> 2 ^ 63 - 4096"
  shows "boot_free_coherent a region = Ret (heap sz align, sz, 4096) \<and>
    vaddr region = paddr region + phys_offset a \<and> heap sz align = paddr region + kernel_offset a"
proof -
  from assms(1) obtain pa va where a: "sub64 (heap sz align) (kernel_offset a) = Ret pa"
    "add64 pa (phys_offset a) = Ret va" "region = \<lparr>vaddr = va, paddr = pa, dma_size = sz\<rparr>"
    by (auto simp: boot_alloc_coherent_def Let_def bind_eq_Some_conv)
  have "layout_ok sz 4096"
    using assms(2) by (simp add: layout_ok_def is_power_of_two_def upt_rec)
  then have "boot_free_coherent a region = Ret (heap sz align, sz, 4096)"
    using a(3) add_sub64 [OF a(2)] sub_add64 [OF a(1)] by (simp add: boot_free_coherent_def assert_run_def)
  moreover have "va = pa + phys_offset a" "heap sz align = pa + kernel_offset a"
    using a(1,2) by (auto simp: add64_def sub64_def split: if_splits)
  ultimately show ?thesis using a(3) by simp
qed

lemma dma_free_roundtrip_witness:
  "\<exists>region. boot_alloc_coherent (\<lambda>s al. 0xffff800000100000) \<lparr>kernel_offset = 0xffff800000000000, phys_offset = 0xffff900000000000\<rparr>
      8192 4096 = Ret region \<and>
    boot_free_coherent \<lparr>kernel_offset = 0xffff800000000000, phys_offset = 0xffff900000000000\<rparr> region =
      Ret (0xffff800000100000, 8192, 4096)"
proof -
  let ?a = "\<lparr>kernel_offset = 0xffff800000000000, phys_offset = 0xffff900000000000\<rparr>" and ?r = "\<lparr>vaddr = 0xffff900000100000, paddr = 0x100000, dma_size = 8192\<rparr>"
  have "boot_alloc_coherent (\<lambda>s al. 0xffff800000100000) ?a 8192 4096 = Ret ?r"
    by (simp add: boot_alloc_coherent_def assert_run_def layout_ok_def is_power_of_two_def upt_rec sub64_def add64_def)
  with dma_free_roundtrip [OF this] show ?thesis by auto
qed

end
