(* ===== verification/Hv_Synic.thy ===== *)
theory Hv_Synic
  imports Async_Rt Dma
begin

text \<open>
  Hypercalls and the synthetic interrupt controller: \<open>msr.rs\<close>, \<open>hypercall.rs\<close> and \<open>synic.rs\<close> of
  \<open>crates/embclox-hyperv/src\<close>.

  The hypervisor is not part of the program.  Everything the guest can observe of it is a
  parameter of type \<open>host\<close>: the message it places in the free SIMP slot before the n-th look at
  that slot, the status of the n-th hypercall, the n-th clock reading, the n-th DMA region handed
  out.  The theorems hold for every such host.  The record \<open>world\<close> is what the guest shares with
  it: the SIMP slot of SINT2, the hypercalls made, the MSR writes made.  \<open>arrived\<close> records the
  messages the host delivered, so that the properties can speak about them.
\<close>

section \<open>Data\<close>

datatype hv_error = NotHyperV | NoSynIC | NoHypercall | HypercallFailed u16
  | HypercallRetryExhausted | VersionRejected | Timeout

record hv_message =
  message_type :: u32
  payload_size :: u8
  message_flags :: u8
  msg_payload :: bytes

record hypercall =
  hc_code :: u64
  hc_input :: u64
  hc_page :: bytes

record host =
  deliver :: "nat \<Rightarrow> hv_message option"
  status :: "nat \<Rightarrow> u64"
  clock :: "nat \<Rightarrow> u64"
  dma_at :: "nat \<Rightarrow> dma_region"

record world =
  slot :: hv_message
  turns :: nat
  clock_reads :: nat
  calls :: "hypercall list"
  msr_log :: "(u32 \<times> u64) list"
  dma_log :: "(nat \<times> nat) list"
  arrived :: "hv_message list"

text \<open>MSR numbers (\<open>msr.rs\<close>) and hypercall codes (\<open>hypercall.rs\<close>).\<close>

definition GUEST_OS_ID :: u32 where "GUEST_OS_ID = 0x40000000"
definition HYPERCALL :: u32 where "HYPERCALL = 0x40000001"
definition SCONTROL :: u32 where "SCONTROL = 0x40000080"
definition SIEFP :: u32 where "SIEFP = 0x40000082"
definition SIMP :: u32 where "SIMP = 0x40000083"
definition EOM :: u32 where "EOM = 0x40000084"
definition SINT0 :: u32 where "SINT0 = 0x40000090"
definition VMBUS_SINT :: u32 where "VMBUS_SINT = 2"
definition VMBUS_VECTOR :: u8 where "VMBUS_VECTOR = 34"
definition HV_POST_MESSAGE :: u64 where "HV_POST_MESSAGE = 0x5C"
definition HV_SIGNAL_EVENT :: u64 where "HV_SIGNAL_EVENT = 0x5D"
definition HV_HYPERCALL_FAST :: u64 where "HV_HYPERCALL_FAST = push_bit 16 1"

section \<open>Machine accesses\<close>

definition wrmsr :: "u32 \<Rightarrow> u64 \<Rightarrow> world \<Rightarrow> world" where
  "wrmsr r v w = w\<lparr>msr_log := msr_log w @ [(r, v)]\<rparr>"

definition alloc_coherent :: "host \<Rightarrow> nat \<Rightarrow> nat \<Rightarrow> world \<Rightarrow> dma_region \<times> world" where
  "alloc_coherent H sz align w =
     (dma_at H (length (dma_log w)), w\<lparr>dma_log := dma_log w @ [(sz, align)]\<rparr>)"

definition now :: "host \<Rightarrow> world \<Rightarrow> u64 \<times> world" where
  "now H w = (clock H (clock_reads w), w\<lparr>clock_reads := Suc (clock_reads w)\<rparr>)"

text \<open>The host may fill the slot, when it is free, before any look at it.\<close>

definition slot_free :: "world \<Rightarrow> bool" where
  "slot_free w \<longleftrightarrow> message_type (slot w) = 0"

definition host_turn :: "host \<Rightarrow> world \<Rightarrow> world" where
  "host_turn H w =
     (let w' = w\<lparr>turns := Suc (turns w)\<rparr> in
      case deliver H (turns w) of
        Some m \<Rightarrow> if slot_free w \<and> message_type m \<noteq> 0
          then w'\<lparr>slot := m, arrived := arrived w @ [m]\<rparr> else w'
      | None \<Rightarrow> w')"

definition set_guest_os_id :: "world \<Rightarrow> world" where
  "set_guest_os_id = wrmsr GUEST_OS_ID
     (push_bit 48 0x8100 OR push_bit 16 0x00060500 OR 0x0001)"

section \<open>Hypercalls\<close>

record hypercall_page =
  hp_page :: dma_region
  msg_buffer :: dma_region

definition hypercall_new :: "host \<Rightarrow> world \<Rightarrow> hypercall_page \<times> world" where
  "hypercall_new H w =
     (let (page, w) = alloc_coherent H 4096 4096 w;
          w = wrmsr HYPERCALL (paddr page OR 1) w;
          (buf, w) = alloc_coherent H 4096 4096 w in
      (\<lparr>hp_page = page, msg_buffer = buf\<rparr>, w))"

definition raw_call :: "host \<Rightarrow> u64 \<Rightarrow> u64 \<Rightarrow> bytes \<Rightarrow> world \<Rightarrow> u64 \<times> world" where
  "raw_call H code input page w =
     (status H (length (calls w)),
      w\<lparr>calls := calls w @ [\<lparr>hc_code = code, hc_input = input, hc_page = page\<rparr>]\<rparr>)"

definition post_message_input :: "u32 \<Rightarrow> u32 \<Rightarrow> bytes \<Rightarrow> bytes" where
  "post_message_input connection_id msg_type dat =
     le32 connection_id @ le32 0 @ le32 msg_type @ le32 (of_nat (length dat)) @
     write_at 0 dat (zeros 240)"

primrec post_attempts :: "nat \<Rightarrow> host \<Rightarrow> u64 \<Rightarrow> bytes \<Rightarrow> world \<Rightarrow> (unit, hv_error) result \<times> world" where
  "post_attempts 0 H gpa page w = (Err HypercallRetryExhausted, w)"
| "post_attempts (Suc n) H gpa page w =
     (let (st, w') = raw_call H HV_POST_MESSAGE gpa page w; s = (ucast st :: u16) in
      if s = 0 then (Ok (), w')
      else if s = 0x13 then post_attempts n H gpa page w'
      else (Err (HypercallFailed s), w'))"

definition post_message :: "host \<Rightarrow> hypercall_page \<Rightarrow> u32 \<Rightarrow> u32 \<Rightarrow> bytes \<Rightarrow> world \<Rightarrow>
   ((unit, hv_error) result \<times> world) run" where
  "post_message H hp connection_id msg_type dat w =
     (if length dat \<le> 240
      then Ret (post_attempts 10 H (paddr (msg_buffer hp))
                  (post_message_input connection_id msg_type dat) w)
      else Panic)"

definition signal_event :: "host \<Rightarrow> hypercall_page \<Rightarrow> u32 \<Rightarrow> world \<Rightarrow> world" where
  "signal_event H hp connection_id w =
     snd (raw_call H (HV_SIGNAL_EVENT OR HV_HYPERCALL_FAST) (ucast connection_id) [] w)"

section \<open>SynIC\<close>

record synic =
  simp_page :: dma_region
  siefp_page :: dma_region

definition synic_new :: "host \<Rightarrow> world \<Rightarrow> synic \<times> world" where
  "synic_new H w =
     (let (simp, w) = alloc_coherent H 4096 4096 w;
          (siefp, w) = alloc_coherent H 4096 4096 w;
          w = wrmsr SCONTROL 1 w;
          w = wrmsr SIMP (paddr simp OR 1) w;
          w = wrmsr SIEFP (paddr siefp OR 1) w;
          w = wrmsr (SINT0 + VMBUS_SINT) (ucast VMBUS_VECTOR OR push_bit 17 1) w in
      (\<lparr>simp_page = simp, siefp_page = siefp\<rparr>, w))"

definition message_bytes :: "hv_message \<Rightarrow> bytes" where
  "message_bytes m = take (min (unat (payload_size m)) 240) (msg_payload m)"

definition poll_message :: "host \<Rightarrow> world \<Rightarrow> bytes option \<times> world" where
  "poll_message H w =
     (let w = host_turn H w in
      (if message_type (slot w) = 0 then None else Some (message_bytes (slot w)), w))"

definition ack_message :: "world \<Rightarrow> world" where
  "ack_message w =
     (let fl = message_flags (slot w);
          w = w\<lparr>slot := (slot w)\<lparr>message_type := 0\<rparr>\<rparr> in
      if fl AND 1 \<noteq> 0 then wrmsr EOM 0 w else w)"

text \<open>One poll of the \<open>WaitForMatch\<close> future; \<open>m\<close> is the matcher with the state it captured.\<close>

type_synonym ('s, 'r) matcher = "'s \<Rightarrow> bytes \<Rightarrow> 'r option \<times> 's"

primrec wait_for_match_poll :: "nat \<Rightarrow> host \<Rightarrow> u64 \<Rightarrow> ('s, 'r) matcher \<Rightarrow> world \<times> 's \<Rightarrow>
   (('r, hv_error) result poll \<times> world \<times> 's) option" where
  "wait_for_match_poll 0 H deadline m ws = None"
| "wait_for_match_poll (Suc fuel) H deadline m ws =
     (case poll_message H (fst ws) of
        (Some payload, w) \<Rightarrow>
          (let (result, s) = m (snd ws) payload; w = ack_message w in
           case result of Some r \<Rightarrow> Some (Ready (Ok r), w, s)
           | None \<Rightarrow> wait_for_match_poll fuel H deadline m (w, s))
      | (None, w) \<Rightarrow>
          (let (again, w) = poll_message H w in
           if again \<noteq> None then wait_for_match_poll fuel H deadline m (w, snd ws)
           else let (t, w) = now H w in
             if t \<ge> deadline then Some (Ready (Err Timeout), w, snd ws)
             else Some (Pending, w, snd ws)))"

text \<open>The future driven by \<open>block_on_hlt\<close>, whose park leaves the shared state to the host.\<close>

definition wait_for_match :: "nat \<Rightarrow> host \<Rightarrow> u64 \<Rightarrow> ('s, 'r) matcher \<Rightarrow> world \<times> 's \<Rightarrow>
   (('r, hv_error) result \<times> world \<times> 's) option" where
  "wait_for_match fuel H deadline m ws =
     block_on_with fuel (wait_for_match_poll fuel H deadline m) (\<lambda>ws. ws) ws"

section \<open>Specification of the message wait\<close>

text \<open>
  The message occupying the slot, the EOM writes a list of messages asks for, and what a matcher
  does with a list of payloads, all of which it must consume: a match ends the list.
\<close>

definition pend :: "world \<Rightarrow> hv_message list" where
  "pend w = (if slot_free w then [] else [slot w])"

definition eoms :: "hv_message list \<Rightarrow> (u32 \<times> u64) list" where
  "eoms ms = map (\<lambda>_. (EOM, 0)) (filter (\<lambda>m. message_flags m AND 1 \<noteq> 0) ms)"

fun feed :: "('s, 'r) matcher \<Rightarrow> 's \<Rightarrow> bytes list \<Rightarrow> ('r option \<times> 's) option" where
  "feed m s [] = Some (None, s)"
| "feed m s (p # ps) =
     (case m s p of (None, s') \<Rightarrow> feed m s' ps
      | (Some r, s') \<Rightarrow> if ps = [] then Some (Some r, s') else None)"

definition handled :: "('s, 'r) matcher \<Rightarrow> world \<Rightarrow> 's \<Rightarrow> hv_message list \<Rightarrow> 'r option \<Rightarrow>
    world \<Rightarrow> 's \<Rightarrow> bool" where
  "handled m w s ms out w' s' \<longleftrightarrow>
     (\<exists>news. arrived w' = arrived w @ news \<and> pend w @ news = ms @ pend w') \<and>
     msr_log w' = msr_log w @ eoms ms \<and>
     feed m s (map message_bytes ms) = Some (out, s')"

section \<open>Lemmas\<close>

lemma feed_append:
  "feed m s ps = Some (None, s1) \<Longrightarrow> feed m s (ps @ qs) = feed m s1 qs"
  by (induction m s ps rule: feed.induct) (auto split: prod.splits option.splits if_splits)

lemma handled_trans:
  assumes "handled m w s ms None w1 s1" "handled m w1 s1 ms' out w2 s2"
  shows "handled m w s (ms @ ms') out w2 s2"
proof -
  from assms obtain n1 n2 where
    "arrived w1 = arrived w @ n1" "pend w @ n1 = ms @ pend w1"
    "arrived w2 = arrived w1 @ n2" "pend w1 @ n2 = ms' @ pend w2"
    by (auto simp: handled_def)
  then have "arrived w2 = arrived w @ (n1 @ n2) \<and> pend w @ (n1 @ n2) = (ms @ ms') @ pend w2"
    by (metis append.assoc)
  then show ?thesis
    using assms by (auto simp: handled_def eoms_def feed_append)
qed

lemma handled_host_turn: "handled m w s [] None (host_turn H w) s"
  by (auto simp: handled_def host_turn_def pend_def eoms_def Let_def slot_free_def split: option.splits)

lemma handled_now: "handled m w s [] None (snd (now H w)) s"
  by (simp add: handled_def now_def pend_def eoms_def slot_free_def)

lemma slot_free_ack [simp]: "slot_free (ack_message w)"
  by (simp add: ack_message_def slot_free_def wrmsr_def Let_def)

lemma handled_ack:
  assumes "\<not> slot_free w" "m s (message_bytes (slot w)) = (out, s')"
  shows "handled m w s [slot w] out (ack_message w) s'"
  using assms
  by (auto simp: handled_def ack_message_def pend_def eoms_def slot_free_def wrmsr_def Let_def
      split: option.splits)

lemma poll_message_simps:
  "poll_message H w = (Some p, w') \<longleftrightarrow>
     w' = host_turn H w \<and> \<not> slot_free w' \<and> p = message_bytes (slot w')"
  "poll_message H w = (None, w') \<longleftrightarrow> w' = host_turn H w \<and> slot_free w'"
  by (auto simp: poll_message_def slot_free_def Let_def)

definition poll_outcome :: "('r, hv_error) result poll \<Rightarrow> 'r option" where
  "poll_outcome p = (case p of Ready (Ok r) \<Rightarrow> Some r | _ \<Rightarrow> None)"

lemma wait_for_match_poll_handled:
  assumes "wait_for_match_poll fuel H dl m (w, s) = Some (p, w', s')"
  shows "\<exists>ms. handled m w s ms (poll_outcome p) w' s' \<and> slot_free w' \<and>
    (\<forall>e. p = Ready (Err e) \<longrightarrow> e = Timeout)"
  using assms
proof (induction fuel arbitrary: w s)
  case (Suc fuel)
  let ?w1 = "host_turn H w"
  have h1: "handled m w s [] None ?w1 s" by (rule handled_host_turn)
  show ?case
  proof (cases "slot_free ?w1")
    case False
    obtain res s1 where m: "m s (message_bytes (slot ?w1)) = (res, s1)" by fastforce
    have "handled m ?w1 s [slot ?w1] res (ack_message ?w1) s1"
      by (rule handled_ack) (use False m in auto)
    then have h2: "handled m w s [slot ?w1] res (ack_message ?w1) s1"
      using handled_trans [OF h1] by fastforce
    show ?thesis
    proof (cases res)
      case (Some r)
      then have "p = Ready (Ok r)" "w' = ack_message ?w1" "s' = s1"
        using Suc.prems False m by (auto simp: poll_message_def slot_free_def Let_def)
      then show ?thesis
        using h2 Some by (auto simp: poll_outcome_def)
    next
      case None
      then have "wait_for_match_poll fuel H dl m (ack_message ?w1, s1) = Some (p, w', s')"
        using Suc.prems False m by (auto simp: poll_message_def slot_free_def Let_def)
      from Suc.IH [OF this] show ?thesis
        using handled_trans [OF h2 [unfolded None]] by fast
    qed
  next
    case True
    let ?w2 = "host_turn H ?w1"
    have h2: "handled m w s [] None ?w2 s"
      using handled_trans [OF h1 handled_host_turn] by simp
    show ?thesis
    proof (cases "slot_free ?w2")
      case False
      then have "wait_for_match_poll fuel H dl m (?w2, s) = Some (p, w', s')"
        using Suc.prems True by (auto simp: poll_message_def slot_free_def Let_def)
      from Suc.IH [OF this] show ?thesis
        using handled_trans [OF h2] by fastforce
    next
      case F2: True
      have w': "w' = snd (now H ?w2)" "s' = s" and p: "p = Ready (Err Timeout) \<or> p = Pending"
        using Suc.prems True F2
        by (auto simp: poll_message_def slot_free_def now_def Let_def split: if_splits)
      have "handled m w s [] None w' s'"
        using handled_trans [OF h2 handled_now] w' by simp
      moreover have "slot_free w'" using F2 w' by (simp add: now_def slot_free_def)
      ultimately show ?thesis using p by (auto simp: poll_outcome_def)
    qed
  qed
qed simp

text \<open>Polls that return, when the host stops sending and the clock passes the deadline.\<close>

definition quiet_from :: "nat \<Rightarrow> host \<Rightarrow> bool" where
  "quiet_from N H \<longleftrightarrow> (\<forall>n \<ge> N. deliver H n = None)"

lemma host_turn_turns [simp]: "turns (host_turn H w) = Suc (turns w)"
  by (auto simp: host_turn_def Let_def split: option.splits)

lemma host_turn_quiet:
  "quiet_from N H \<Longrightarrow> N \<le> turns w \<Longrightarrow> slot_free (host_turn H w) = slot_free w"
  by (simp add: host_turn_def quiet_from_def slot_free_def)

lemma keeps_counters [simp]:
  "turns (ack_message w) = turns w" "turns (snd (now H w)) = turns w"
  "clock_reads (ack_message w) = clock_reads w" "clock_reads (host_turn H w) = clock_reads w"
  by (auto simp: ack_message_def now_def wrmsr_def host_turn_def Let_def split: option.splits)

lemma wait_for_match_poll_returns:
  assumes quiet: "quiet_from N H"
    and fuel: "(N - turns w) + (if slot_free w then 0 else 1) < fuel"
  shows "\<exists>p w' s'. wait_for_match_poll fuel H dl m (w, s) = Some (p, w', s') \<and>
     clock_reads w \<le> clock_reads w' \<and>
     (p = Pending \<longrightarrow> clock_reads w' = Suc (clock_reads w) \<and> clock H (clock_reads w) < dl)"
  using fuel
proof (induction fuel arbitrary: w s)
  case (Suc fuel)
  let ?w1 = "host_turn H w" and ?w2 = "host_turn H (host_turn H w)"
  show ?case
  proof (cases "slot_free ?w1")
    case False
    obtain res s1 where m: "m s (message_bytes (slot ?w1)) = (res, s1)" by fastforce
    have step: "wait_for_match_poll (Suc fuel) H dl m (w, s) =
        (case res of Some r \<Rightarrow> Some (Ready (Ok r), ack_message ?w1, s1)
         | None \<Rightarrow> wait_for_match_poll fuel H dl m (ack_message ?w1, s1))"
      using False m by (simp add: poll_message_def slot_free_def Let_def)
    have "N - turns (ack_message ?w1) < fuel"
    proof (cases "slot_free w")
      case True
      then have "turns w < N" using host_turn_quiet [OF quiet, of w] False by force
      with True Suc.prems show ?thesis by simp
    qed (use Suc.prems in simp)
    then have ih: "\<exists>p w' s'. wait_for_match_poll fuel H dl m (ack_message ?w1, s1) = Some (p, w', s') \<and>
        clock_reads w \<le> clock_reads w' \<and>
        (p = Pending \<longrightarrow> clock_reads w' = Suc (clock_reads w) \<and> clock H (clock_reads w) < dl)"
      using Suc.IH [of "ack_message ?w1" s1] by simp
    show ?thesis
      unfolding step using ih by (cases res) simp_all
  next
    case T1: True
    show ?thesis
    proof (cases "slot_free ?w2")
      case False
      have step: "wait_for_match_poll (Suc fuel) H dl m (w, s) = wait_for_match_poll fuel H dl m (?w2, s)"
        using T1 False by (simp add: poll_message_def slot_free_def Let_def)
      have "turns ?w1 < N" using host_turn_quiet [OF quiet, of ?w1] T1 False by force
      then have "(N - turns ?w2) + (if slot_free ?w2 then 0 else 1) < fuel"
        using Suc.prems by (auto split: if_splits)
      from Suc.IH [OF this, of s] show ?thesis unfolding step by simp
    next
      case T2: True
      have step: "wait_for_match_poll (Suc fuel) H dl m (w, s) =
          Some (if clock H (clock_reads w) \<ge> dl then Ready (Err Timeout) else Pending,
            snd (now H ?w2), s)"
        using T1 T2 by (simp add: poll_message_def slot_free_def now_def Let_def)
      have "clock_reads (snd (now H ?w2)) = Suc (clock_reads w)"
        by (simp add: now_def)
      then show ?thesis
        unfolding step by (simp add: not_le)
    qed
  qed
qed simp

lemma wait_for_match_returns_lemma:
  assumes quiet: "quiet_from N H" and F: "Suc N < F" and late: "\<And>k. K \<le> k \<Longrightarrow> dl \<le> clock H k"
    and fuel: "K - clock_reads w < fuel"
  shows "\<exists>x. block_on_with fuel (wait_for_match_poll F H dl m) (\<lambda>ws. ws) (w, s) = Some x"
  using fuel
proof (induction fuel arbitrary: w s)
  case (Suc fuel)
  have "(N - turns w) + (if slot_free w then 0 else 1) < F"
    using F by (auto intro: le_less_trans [of _ "Suc N"])
  from wait_for_match_poll_returns [OF quiet this, of dl m s] obtain p w' s' where
    p: "wait_for_match_poll F H dl m (w, s) = Some (p, w', s')"
    "p = Pending \<Longrightarrow> clock_reads w' = Suc (clock_reads w) \<and> clock H (clock_reads w) < dl"
    by blast
  show ?case
  proof (cases p)
    case Pending
    then have "clock_reads w < K" using p(2) late [of "clock_reads w"] by fastforce
    then have "K - clock_reads w' < fuel" using Suc.prems p(2) Pending by simp
    with Suc.IH [of w' s'] show ?thesis using p(1) Pending by simp
  qed (use p(1) in simp)
qed simp

definition call_status :: "host \<Rightarrow> world \<Rightarrow> nat \<Rightarrow> u16" where
  "call_status H w i = ucast (status H (length (calls w) + i))"

lemma post_attempts_spec:
  "post_attempts n H gpa page w =
    (let k = length (takeWhile (\<lambda>x. x = 0x13) (map (call_status H w) [0..<n])) in
     (if k = n then Err HypercallRetryExhausted
      else if call_status H w k = 0 then Ok () else Err (HypercallFailed (call_status H w k)),
      w\<lparr>calls := calls w @ replicate (min n (Suc k))
         \<lparr>hc_code = HV_POST_MESSAGE, hc_input = gpa, hc_page = page\<rparr>\<rparr>))"
proof (induction n arbitrary: w)
  case (Suc n)
  let ?hc = "\<lparr>hc_code = HV_POST_MESSAGE, hc_input = gpa, hc_page = page\<rparr>"
  let ?w = "w\<lparr>calls := calls w @ [?hc]\<rparr>"
  have up: "map (call_status H w) [0..<Suc n] = call_status H w 0 # map (call_status H ?w) [0..<n]"
    by (simp add: call_status_def upt_conv_Cons map_Suc_upt [symmetric] del: upt_Suc)
  have sh: "\<And>i. call_status H ?w i = call_status H w (Suc i)" by (simp add: call_status_def)
  show ?case
  proof (cases "call_status H w 0 = 0x13")
    case True
    then have "post_attempts (Suc n) H gpa page w = post_attempts n H gpa page ?w"
      by (simp add: raw_call_def call_status_def Let_def)
    then show ?thesis
      using True unfolding Suc.IH up by (simp add: Let_def sh)
  next
    case False
    then show ?thesis
      unfolding up by (simp add: raw_call_def call_status_def Let_def)
  qed
qed simp

text \<open>What the matcher of a finished wait has consumed.\<close>

lemma wait_for_match_feeds:
  assumes "wait_for_match fuel H dl m (w, s) = Some (res, w', s')"
  shows "\<exists>ms. (\<exists>news. arrived w' = arrived w @ news \<and> pend w @ news = ms) \<and>
    msr_log w' = msr_log w @ eoms ms \<and>
    feed m s (map message_bytes ms) = Some (case res of Ok r \<Rightarrow> Some r | Err e \<Rightarrow> None, s') \<and>
    slot_free w' \<and> (\<forall>e. res = Err e \<longrightarrow> e = Timeout)"
proof -
  let ?I = "\<lambda>ws'. \<exists>ms. handled m w s ms None (fst ws') (snd ws')"
  let ?Q = "\<lambda>res ws'. \<exists>ms. handled m w s ms (case res of Ok r \<Rightarrow> Some r | Err e \<Rightarrow> None) (fst ws') (snd ws') \<and>
      slot_free (fst ws') \<and> (\<forall>e. res = Err e \<longrightarrow> e = Timeout)"
  have "?Q res (w', s')"
  proof (rule block_on_with_invariant [where I = ?I and Q = ?Q])
    show "block_on_with fuel (wait_for_match_poll fuel H dl m) (\<lambda>ws. ws) (w, s) = Some (res, (w', s'))"
      using assms by (simp add: wait_for_match_def)
    have "handled m w s [] None w s" by (simp add: handled_def eoms_def)
    then show "?I (w, s)" by auto
  next
    fix a b
    assume "?I a" "wait_for_match_poll fuel H dl m a = Some (Pending, b)"
    then show "?I b"
      using wait_for_match_poll_handled [of fuel H dl m "fst a" "snd a" Pending "fst b" "snd b"]
        handled_trans [of m w s _ "fst a" "snd a"]
      by (simp add: poll_outcome_def) blast
  next
    fix a b r
    assume "?I a" "wait_for_match_poll fuel H dl m a = Some (Ready r, b)"
    then show "?Q r b"
      using wait_for_match_poll_handled [of fuel H dl m "fst a" "snd a" "Ready r" "fst b" "snd b"]
        handled_trans [of m w s _ "fst a" "snd a"]
      by (cases r) (simp_all add: poll_outcome_def, blast+)
  qed
  then show ?thesis by (auto simp: handled_def pend_def)
qed

lemma keeps_calls [simp]:
  "calls (host_turn H w) = calls w" "calls (ack_message w) = calls w" "calls (snd (now H w)) = calls w"
  by (auto simp: host_turn_def ack_message_def now_def wrmsr_def Let_def split: option.splits)

lemma poll_message_calls: "calls (snd (poll_message H w)) = calls w"
  by (simp add: poll_message_def Let_def)

lemma wait_for_match_poll_calls:
  "wait_for_match_poll fuel H dl m ws = Some (p, w', s') \<Longrightarrow> calls w' = calls (fst ws)"
proof (induction fuel arbitrary: ws)
  case (Suc fuel)
  obtain o1 w1 where p1: "poll_message H (fst ws) = (o1, w1)" by fastforce
  obtain o2 w2 where p2: "poll_message H w1 = (o2, w2)" by fastforce
  have c: "calls w1 = calls (fst ws)" "calls w2 = calls (fst ws)"
    using poll_message_calls [of H "fst ws"] poll_message_calls [of H w1] p1 p2 by simp_all
  show ?case
  proof (cases o1)
    case None
    then show ?thesis
      using Suc.prems Suc.IH [of "(w2, snd ws)"] p1 p2 c
      by (auto simp: Let_def now_def split: if_splits)
  next
    case (Some pl)
    obtain res s1 where "m (snd ws) pl = (res, s1)" by fastforce
    then show ?thesis
      using Suc.prems Suc.IH [of "(ack_message w1, s1)"] p1 c Some
      by (auto simp: Let_def split: option.splits)
  qed
qed simp

lemma wait_for_match_calls:
  assumes "wait_for_match fuel H dl m (w, s) = Some (res, w', s')"
  shows "calls w' = calls w"
proof -
  let ?I = "\<lambda>ws. calls (fst ws) = calls w"
  have "?I (w', s')"
  proof (rule block_on_with_invariant [where I = ?I and Q = "\<lambda>r. ?I"])
    show "block_on_with fuel (wait_for_match_poll fuel H dl m) (\<lambda>ws. ws) (w, s) = Some (res, (w', s'))"
      using assms by (simp add: wait_for_match_def)
  qed (auto dest: wait_for_match_poll_calls)
  then show ?thesis by simp
qed

lemma post_message_keeps:
  assumes "post_message H hp conn ty dat w = Ret (r, w')"
  shows "msr_log w' = msr_log w" "arrived w' = arrived w" "slot w' = slot w" "dma_log w' = dma_log w"
    "r \<noteq> Err Timeout" "r \<noteq> Err VersionRejected"
  using assms post_attempts_spec [of 10 H "paddr (msg_buffer hp)" "post_message_input conn ty dat" w]
  by (auto simp: post_message_def Let_def split: if_splits)

section \<open>Properties\<close>


text \<open>A host that sends one message and a clock that stands still, for the examples.\<close>

definition demo_host :: host where
  "demo_host = \<lparr>deliver = (\<lambda>n. if n = 0 then Some \<lparr>message_type = 1, payload_size = 4,
       message_flags = 1, msg_payload = [15, 0, 0, 0]\<rparr> else None),
     status = (\<lambda>n. if n = 0 then 0x13 else 0), clock = (\<lambda>n. 5),
     dma_at = (\<lambda>n. \<lparr>vaddr = 0, paddr = 0x1000, dma_size = 4096\<rparr>)\<rparr>"

definition demo_world :: world where
  "demo_world = \<lparr>slot = \<lparr>message_type = 0, payload_size = 0, message_flags = 0, msg_payload = zeros 240\<rparr>,
     turns = 0, clock_reads = 0, calls = [], msr_log = [], dma_log = [], arrived = []\<rparr>"


text \<open>
  C25.  \<open>wait_for_match\<close> returns: if the host sends no message after its \<open>N\<close>-th opportunity and the
  clock has reached the deadline from its \<open>K\<close>-th reading on, then more than \<open>N + K + 1\<close> rounds are
  enough, for every matcher.
\<close>

theorem wait_for_match_returns:
  assumes "quiet_from N H" "\<And>k. K \<le> k \<Longrightarrow> dl \<le> clock H k" "N + K + 1 < fuel"
  shows "\<exists>res w' s'. wait_for_match fuel H dl m (w, s) = Some (res, w', s')"
  using wait_for_match_returns_lemma [of N H fuel K dl w fuel m s] assms
  by (auto simp: wait_for_match_def)

theorem wait_for_match_returns_witness:
  "\<exists>res w' s'. wait_for_match 3 demo_host 5 (\<lambda>n p. (None, Suc n)) (demo_world, 0 :: nat) =
     Some (res :: (unit, hv_error) result, w', s')"
  by (rule wait_for_match_returns [of 1 demo_host 0])
    (simp_all add: quiet_from_def demo_host_def)

text \<open>
  C26.  \<open>post_message\<close> on a payload of at most 240 bytes issues the hypercall on the same 256-byte input
  page until a status other than \<open>HV_STATUS_INSUFFICIENT_BUFFERS\<close> comes back, ten times at most: status
  0 is success, any other status is reported as it is, and ten refusals are
  \<open>HypercallRetryExhausted\<close>.
\<close>

theorem post_message_outcome:
  assumes "length dat \<le> 240"
    and "k = length (takeWhile (\<lambda>x. x = 0x13) (map (call_status H w) [0..<10]))"
  shows "post_message H hp conn ty dat w = Ret
    (if k = 10 then Err HypercallRetryExhausted
     else if call_status H w k = 0 then Ok () else Err (HypercallFailed (call_status H w k)),
     w\<lparr>calls := calls w @ replicate (min 10 (Suc k))
       \<lparr>hc_code = HV_POST_MESSAGE, hc_input = paddr (msg_buffer hp),
        hc_page = post_message_input conn ty dat\<rparr>\<rparr>)"
  using assms post_attempts_spec [of 10 H "paddr (msg_buffer hp)" "post_message_input conn ty dat" w]
  by (simp add: post_message_def Let_def)

theorem post_message_outcome_witness:
  "\<exists>w'. post_message demo_host \<lparr>hp_page = dma_at demo_host 0, msg_buffer = dma_at demo_host 1\<rparr>
     1 1 [3, 0, 0, 0] demo_world = Ret (Ok (), w') \<and> length (calls w') = 2"
proof -
  have k: "1 = length (takeWhile (\<lambda>x. x = 0x13) (map (call_status demo_host demo_world) [0..<10]))"
    by (simp add: call_status_def demo_host_def demo_world_def upt_rec)
  show ?thesis
    using post_message_outcome [OF _ k, of "[3, 0, 0, 0]"
        "\<lparr>hp_page = dma_at demo_host 0, msg_buffer = dma_at demo_host 1\<rparr>" 1 1]
    by (simp add: call_status_def demo_host_def demo_world_def)
qed

end
