(* ===== verification/Hv_Vmbus.thy ===== *)
theory Hv_Vmbus
  imports Hv_Synic
begin

text \<open>
  The VMBus connection: \<open>guid.rs\<close>, \<open>detect.rs\<close>, \<open>vmbus.rs\<close> and the initialisation of \<open>lib.rs\<close> in
  \<open>crates/embclox-hyperv/src\<close>.

  Version negotiation and offer enumeration are sequences of a posted message and a wait for the
  answer, over the world and the host of \<open>Hv_Synic\<close>.  CPUID is a parameter.  The results are
  option values: None is a wait that has not returned within the fuel, or an abort.
\<close>

section \<open>GUIDs and CPUID\<close>

record guid =
  guid_bytes :: bytes

definition from_fields :: "u32 \<Rightarrow> u16 \<Rightarrow> u16 \<Rightarrow> bytes \<Rightarrow> guid" where
  "from_fields d1 d2 d3 d4 = \<lparr>guid_bytes = le32 d1 @ le16 d2 @ le16 d3 @ d4\<rparr>"

definition SYNTHVID :: guid where
  "SYNTHVID = from_fields 0xDA0A7802 0xE377 0x4AAC [0x8E, 0x77, 0x05, 0x58, 0xEB, 0x10, 0x73, 0xF8]"
definition NETVSC :: guid where
  "NETVSC = from_fields 0xF8615163 0xDF3E 0x46C5 [0x91, 0x3F, 0xF2, 0xD2, 0xF9, 0x65, 0xED, 0x0E]"
definition SYNTH_KEYBOARD :: guid where
  "SYNTH_KEYBOARD = from_fields 0xF912AD6D 0x2B17 0x48EA [0xBD, 0x65, 0xF9, 0x27, 0xA6, 0x1C, 0x76, 0x84]"
definition HEARTBEAT :: guid where
  "HEARTBEAT = from_fields 0x57164F39 0x9115 0x4E78 [0xAB, 0x55, 0x38, 0x2F, 0x3B, 0xD5, 0x42, 0x2D]"

record cpuid_result =
  eax :: u32
  ebx :: u32
  ecx :: u32
  edx :: u32

record hv_features =
  max_leaf :: u32
  has_synic :: bool
  has_hypercall :: bool

definition detect :: "(u32 \<Rightarrow> cpuid_result) \<Rightarrow> hv_features option" where
  "detect cpuid =
     (let r = cpuid 0x40000000 in
      if ebx r \<noteq> 0x7263694D \<or> ecx r \<noteq> 0x666F736F \<or> edx r \<noteq> 0x76482074 then None
      else if eax r < 0x40000003
      then Some \<lparr>max_leaf = eax r, has_synic = False, has_hypercall = False\<rparr>
      else let f = cpuid 0x40000003 in
        Some \<lparr>max_leaf = eax r, has_synic = (eax f AND push_bit 2 1 \<noteq> 0),
              has_hypercall = (eax f AND push_bit 5 1 \<noteq> 0)\<rparr>)"

section \<open>Version negotiation\<close>

definition VMBUS_MESSAGE_CONNECTION_ID :: u32 where "VMBUS_MESSAGE_CONNECTION_ID = 1"
definition VMBUS_MESSAGE_TYPE_CHANNEL :: u32 where "VMBUS_MESSAGE_TYPE_CHANNEL = 1"
definition CHANNELMSG_OFFERCHANNEL :: u32 where "CHANNELMSG_OFFERCHANNEL = 1"
definition CHANNELMSG_REQUEST_OFFERS :: u32 where "CHANNELMSG_REQUEST_OFFERS = 3"
definition CHANNELMSG_ALLOFFERS_DELIVERED :: u32 where "CHANNELMSG_ALLOFFERS_DELIVERED = 4"
definition CHANNELMSG_INITIATE_CONTACT :: u32 where "CHANNELMSG_INITIATE_CONTACT = 14"
definition CHANNELMSG_VERSION_RESPONSE :: u32 where "CHANNELMSG_VERSION_RESPONSE = 15"
definition VERSION_WIN10 :: u32 where "VERSION_WIN10 = push_bit 16 4"
definition VERSION_WIN8_1 :: u32 where "VERSION_WIN8_1 = push_bit 16 3"

definition target_info_for_version :: "u32 \<Rightarrow> u64" where
  "target_info_for_version v = (if v \<ge> VERSION_WIN8_1 then 0x100 else 0)"

definition initiate_contact_bytes :: "u32 \<Rightarrow> u64 \<Rightarrow> u64 \<Rightarrow> bytes" where
  "initiate_contact_bytes v m1 m2 =
     le32 CHANNELMSG_INITIATE_CONTACT @ le32 0 @ le32 v @ le32 0 @
     le64 (target_info_for_version v) @ le64 m1 @ le64 m2"

text \<open>\<open>Instant + Duration\<close> in microsecond ticks aborts on overflow.\<close>

definition instant_add :: "u64 \<Rightarrow> u64 \<Rightarrow> u64 run" where
  "instant_add t d = (if unat t + unat d < 2 ^ 64 then Ret (t + d) else Panic)"

definition version_matcher :: "(unit, (unit, hv_error) result) matcher" where
  "version_matcher s payload =
     (if length payload < 12 then (None, s)
      else if get32 0 payload \<noteq> CHANNELMSG_VERSION_RESPONSE then (None, s)
      else (Some (if payload ! 8 \<noteq> 0 then Ok () else Err VersionRejected), s))"

text \<open>A posted channel message followed by a wait with a deadline, the shape of every exchange.\<close>

definition post_and_wait :: "nat \<Rightarrow> host \<Rightarrow> hypercall_page \<Rightarrow> bytes \<Rightarrow> u64 \<Rightarrow> ('s, 'r) matcher \<Rightarrow> 's \<Rightarrow>
   world \<Rightarrow> (('r, hv_error) result \<times> world \<times> 's) option" where
  "post_and_wait fuel H hp msg timeout_us m s w = do {
     (r, w) \<leftarrow> post_message H hp VMBUS_MESSAGE_CONNECTION_ID VMBUS_MESSAGE_TYPE_CHANNEL msg w;
     case r of Err e \<Rightarrow> Some (Err e, w, s)
     | Ok u \<Rightarrow> do {
         let (t, w) = now H w in do {
           deadline \<leftarrow> instant_add t timeout_us;
           wait_for_match fuel H deadline m (w, s) } } }"

definition try_version :: "nat \<Rightarrow> host \<Rightarrow> hypercall_page \<Rightarrow> u32 \<Rightarrow> dma_region \<Rightarrow> dma_region \<Rightarrow> world \<Rightarrow>
   ((unit, hv_error) result \<times> world) option" where
  "try_version fuel H hp v m1 m2 w = do {
     (r, w, s) \<leftarrow> post_and_wait fuel H hp (initiate_contact_bytes v (paddr m1) (paddr m2))
        5000000 version_matcher () w;
     case r of Ok answer \<Rightarrow> Some (answer, w) | Err e \<Rightarrow> Some (Err e, w) }"

fun try_versions :: "nat \<Rightarrow> host \<Rightarrow> hypercall_page \<Rightarrow> u32 list \<Rightarrow> dma_region \<Rightarrow> dma_region \<Rightarrow> world \<Rightarrow>
   ((u32, hv_error) result \<times> world) option" where
  "try_versions fuel H hp [] m1 m2 w = Some (Err VersionRejected, w)"
| "try_versions fuel H hp (v # vs) m1 m2 w = do {
     (r, w) \<leftarrow> try_version fuel H hp v m1 m2 w;
     case r of Ok u \<Rightarrow> Some (Ok v, w)
     | Err VersionRejected \<Rightarrow> try_versions fuel H hp vs m1 m2 w
     | Err e \<Rightarrow> Some (Err e, w) }"

definition connect :: "nat \<Rightarrow> host \<Rightarrow> hypercall_page \<Rightarrow> world \<Rightarrow>
   ((u32 \<times> dma_region \<times> dma_region, hv_error) result \<times> world) option" where
  "connect fuel H hp w =
     (let (m1, w) = alloc_coherent H 4096 4096 w;
          (m2, w) = alloc_coherent H 4096 4096 w in do {
        (r, w) \<leftarrow> try_versions fuel H hp [VERSION_WIN10, VERSION_WIN8_1] m1 m2 w;
        case r of Ok v \<Rightarrow> Some (Ok (v, m1, m2), w) | Err e \<Rightarrow> Some (Err e, w) })"

section \<open>Offers\<close>

record channel_offer =
  device_type :: guid
  instance_id :: guid
  child_relid :: u32
  connection_id :: u32
  monitor_id :: u8
  monitor_allocated :: bool
  is_dedicated_interrupt :: bool

definition device_name :: "guid \<Rightarrow> string" where
  "device_name g =
     (if g = SYNTHVID then ''synthvid'' else if g = NETVSC then ''netvsc''
      else if g = SYNTH_KEYBOARD then ''keyboard'' else if g = HEARTBEAT then ''heartbeat''
      else ''unknown'')"

definition parse_offer :: "bytes \<Rightarrow> channel_offer option" where
  "parse_offer payload =
     (if length payload < 196 then None
      else Some \<lparr>device_type = \<lparr>guid_bytes = take 16 (drop 8 payload)\<rparr>,
             instance_id = \<lparr>guid_bytes = take 16 (drop 24 payload)\<rparr>,
             child_relid = get32 184 payload, connection_id = get32 192 payload,
             monitor_id = payload ! 188, monitor_allocated = (payload ! 189 \<noteq> 0),
             is_dedicated_interrupt = (get16 190 payload \<noteq> 0)\<rparr>)"

definition offers_matcher :: "(channel_offer list, unit) matcher" where
  "offers_matcher offers payload =
     (if length payload < 4 then (None, offers)
      else if get32 0 payload = CHANNELMSG_OFFERCHANNEL
      then (None, case parse_offer payload of Some off \<Rightarrow> offers @ [off] | None \<Rightarrow> offers)
      else if get32 0 payload = CHANNELMSG_ALLOFFERS_DELIVERED then (Some (), offers)
      else (None, offers))"

definition request_offers :: "nat \<Rightarrow> host \<Rightarrow> hypercall_page \<Rightarrow> world \<Rightarrow>
   ((channel_offer list, hv_error) result \<times> world) option" where
  "request_offers fuel H hp w = do {
     (r, w, offers) \<leftarrow> post_and_wait fuel H hp (le32 CHANNELMSG_REQUEST_OFFERS @ le32 0)
        10000000 offers_matcher [] w;
     case r of Ok u \<Rightarrow> Some (Ok offers, w)
     | Err Timeout \<Rightarrow> if offers \<noteq> [] then Some (Ok offers, w) else Some (Err Timeout, w)
     | Err e \<Rightarrow> Some (Err e, w) }"

section \<open>Initialisation\<close>

record vmbus =
  hcall :: hypercall_page
  vb_synic :: synic
  version :: u32
  offers :: "channel_offer list"
  monitor_child_to_parent :: dma_region
  monitor_parent_to_child :: dma_region

definition find_offer :: "guid \<Rightarrow> vmbus \<Rightarrow> channel_offer option" where
  "find_offer g vb = find (\<lambda>off. device_type off = g) (offers vb)"

definition checkpoint :: "u32 \<Rightarrow> u32 \<Rightarrow> unit run" where
  "checkpoint crash_after stage = (if crash_after = stage then Panic else Ret ())"

definition vmbus_init :: "nat \<Rightarrow> host \<Rightarrow> (u32 \<Rightarrow> cpuid_result) \<Rightarrow> u32 \<Rightarrow> world \<Rightarrow>
   ((vmbus, hv_error) result \<times> world) option" where
  "vmbus_init fuel H cpuid crash w =
     (case detect cpuid of None \<Rightarrow> Some (Err NotHyperV, w)
      | Some f \<Rightarrow> do {
          checkpoint crash 1;
          if \<not> has_synic f then Some (Err NoSynIC, w)
          else if \<not> has_hypercall f then Some (Err NoHypercall, w)
          else do {
            let w = set_guest_os_id w in do {
            checkpoint crash 2;
            let (hp, w) = hypercall_new H w in do {
            checkpoint crash 3;
            let (sy, w) = synic_new H w in do {
            checkpoint crash 4;
            (r, w) \<leftarrow> connect fuel H hp w;
            case r of Err e \<Rightarrow> Some (Err e, w)
            | Ok (v, m1, m2) \<Rightarrow> do {
                checkpoint crash 5;
                (r, w) \<leftarrow> request_offers fuel H hp w;
                case r of Err e \<Rightarrow> Some (Err e, w)
                | Ok offs \<Rightarrow> do {
                    checkpoint crash 6;
                    Some (Ok \<lparr>hcall = hp, vb_synic = sy, version = v, offers = offs,
                      monitor_child_to_parent = m2, monitor_parent_to_child = m1\<rparr>, w) } } } } } } })"

text \<open>What \<open>try_init\<close> wires up besides: the vectors with a handler and the published pages.\<close>

record isr_setup =
  handlers :: "u8 list"
  published_siefp :: "u64 option"
  published_simp :: "u64 option"

definition try_init :: "nat \<Rightarrow> host \<Rightarrow> (u32 \<Rightarrow> cpuid_result) \<Rightarrow> u32 \<Rightarrow> world \<Rightarrow> isr_setup \<Rightarrow>
   ((vmbus option, hv_error) result \<times> world \<times> isr_setup) option" where
  "try_init fuel H cpuid crash w i =
     (case detect cpuid of None \<Rightarrow> Some (Ok None, w, i)
      | Some f \<Rightarrow>
         if \<not> (has_synic f \<and> has_hypercall f) then Some (Ok None, w, i)
         else let i = i\<lparr>handlers := VMBUS_VECTOR # handlers i\<rparr> in do {
           (r, w) \<leftarrow> vmbus_init fuel H cpuid crash w;
           case r of Err e \<Rightarrow> Some (Err e, w, i)
           | Ok vb \<Rightarrow> Some (Ok (Some vb), w,
               i\<lparr>published_siefp := Some (vaddr (siefp_page (vb_synic vb))),
                 published_simp := Some (vaddr (simp_page (vb_synic vb)))\<rparr>) })"

section \<open>Lemmas\<close>

lemma post_and_wait_cases:
  assumes "post_and_wait fuel H hp msg t m s w = Some (res, w', s')"
  obtains (refused) e where "res = Err e" "e \<noteq> Timeout" "s' = s" "msr_log w' = msr_log w"
      "arrived w' = arrived w" "slot w' = slot w"
  | (waited) ms where "\<exists>news. arrived w' = arrived w @ news \<and> pend w @ news = ms"
      "msr_log w' = msr_log w @ eoms ms"
      "feed m s (map message_bytes ms) = Some (case res of Ok r \<Rightarrow> Some r | Err e \<Rightarrow> None, s')"
      "slot_free w'" "\<And>e. res = Err e \<Longrightarrow> e = Timeout"
proof -
  from assms obtain r w1 where pm: "post_message H hp VMBUS_MESSAGE_CONNECTION_ID
      VMBUS_MESSAGE_TYPE_CHANNEL msg w = Ret (r, w1)"
    by (auto simp: post_and_wait_def bind_eq_Some_conv)
  note keep = post_message_keeps [OF pm]
  show ?thesis
  proof (cases r)
    case (Err e)
    then have "res = Err e" "w' = w1" "s' = s"
      using assms pm by (auto simp: post_and_wait_def)
    with keep Err show ?thesis by (intro refused [of e]) auto
  next
    case (Ok u)
    obtain d where "wait_for_match fuel H d m (snd (now H w1), s) = Some (res, w', s')"
      using assms pm Ok by (auto simp: post_and_wait_def bind_eq_Some_conv split: prod.splits)
    from wait_for_match_feeds [OF this] obtain ms where ms:
      "\<exists>news. arrived w' = arrived (snd (now H w1)) @ news \<and> pend (snd (now H w1)) @ news = ms"
      "msr_log w' = msr_log (snd (now H w1)) @ eoms ms"
      "feed m s (map message_bytes ms) = Some (case res of Ok r \<Rightarrow> Some r | Err e \<Rightarrow> None, s')"
      "slot_free w'" "\<forall>e. res = Err e \<longrightarrow> e = Timeout"
      by blast
    have "arrived (snd (now H w1)) = arrived w" "pend (snd (now H w1)) = pend w"
      "msr_log (snd (now H w1)) = msr_log w"
      using keep by (simp_all add: now_def pend_def slot_free_def)
    with ms show ?thesis by (intro waited [of ms]) auto
  qed
qed

definition offer_of :: "bytes \<Rightarrow> channel_offer option" where
  "offer_of p = (if 4 \<le> length p \<and> get32 0 p = CHANNELMSG_OFFERCHANNEL then parse_offer p else None)"

definition all_offers :: "bytes \<Rightarrow> bool" where
  "all_offers p \<longleftrightarrow> 4 \<le> length p \<and> get32 0 p = CHANNELMSG_ALLOFFERS_DELIVERED"

lemma offers_matcher_eq:
  "offers_matcher os p = (if all_offers p then Some () else None,
     case offer_of p of Some off \<Rightarrow> os @ [off] | None \<Rightarrow> os)"
  by (auto simp: offers_matcher_def all_offers_def offer_of_def CHANNELMSG_OFFERCHANNEL_def
      CHANNELMSG_ALLOFFERS_DELIVERED_def split: option.split)

lemma feed_offers:
  assumes "feed offers_matcher os ps = Some (out, os')"
  shows "os' = os @ List.map_filter offer_of ps \<and>
    (case out of None \<Rightarrow> (\<forall>p \<in> set ps. \<not> all_offers p)
     | Some u \<Rightarrow> ps \<noteq> [] \<and> all_offers (List.last ps) \<and> (\<forall>p \<in> set (butlast ps). \<not> all_offers p))"
  using assms
proof (induction ps arbitrary: os)
  case (Cons p ps)
  show ?case
  proof (cases "all_offers p")
    case True
    then show ?thesis
      using Cons.prems offers_matcher_eq [of os p]
      by (auto simp: map_filter_simps split: if_splits option.splits)
  next
    case False
    let ?os = "case offer_of p of Some off \<Rightarrow> os @ [off] | None \<Rightarrow> os"
    have "feed offers_matcher ?os ps = Some (out, os')"
      using Cons.prems False offers_matcher_eq [of os p] by simp
    from Cons.IH [OF this] show ?thesis
      using False by (auto simp: map_filter_simps split: option.splits)
  qed
qed (simp add: map_filter_simps)

lemma eoms_append: "eoms (a @ b) = eoms a @ eoms b"
  by (simp add: eoms_def)

lemma post_and_wait_msrs:
  "post_and_wait fuel H hp msg t m s w = Some (res, w', s') \<Longrightarrow>
   \<exists>ms. msr_log w' = msr_log w @ eoms ms"
  by (erule post_and_wait_cases) (auto simp: eoms_def intro: exI [of _ "[]"])

lemma try_version_msrs:
  "try_version fuel H hp v m1 m2 w = Some (r, w') \<Longrightarrow> \<exists>ms. msr_log w' = msr_log w @ eoms ms"
proof -
  assume "try_version fuel H hp v m1 m2 w = Some (r, w')"
  then obtain r0 s0 where "post_and_wait fuel H hp (initiate_contact_bytes v (paddr m1) (paddr m2))
      5000000 version_matcher () w = Some (r0, w', s0)"
    unfolding try_version_def bind_eq_Some_conv by (fastforce split: result.split_asm)
  then show ?thesis by (rule post_and_wait_msrs)
qed

lemma try_versions_msrs:
  "try_versions fuel H hp vs m1 m2 w = Some (r, w') \<Longrightarrow> \<exists>ms. msr_log w' = msr_log w @ eoms ms"
proof (induction vs arbitrary: w)
  case Nil
  then show ?case by (auto simp: eoms_def intro: exI [of _ "[]"])
next
  case (Cons v vs)
  from Cons.prems obtain r1 w1 where t: "try_version fuel H hp v m1 m2 w = Some (r1, w1)"
    by (auto simp: bind_eq_Some_conv)
  then have rest: "w' = w1 \<or> try_versions fuel H hp vs m1 m2 w1 = Some (r, w')"
    using Cons.prems by (auto split: result.split_asm hv_error.split_asm)
  from try_version_msrs [OF t] rest show ?case
    using Cons.IH [of w1] by (metis append.assoc eoms_append)
qed

lemma connect_msrs:
  assumes "connect fuel H hp w = Some (r, w')"
  shows "\<exists>ms. msr_log w' = msr_log w @ eoms ms"
proof -
  obtain m1 w1 m2 w2 where al: "alloc_coherent H 4096 4096 w = (m1, w1)"
    "alloc_coherent H 4096 4096 w1 = (m2, w2)" by fastforce
  then have k: "msr_log w2 = msr_log w" by (auto simp: alloc_coherent_def)
  from assms al obtain r0 where "try_versions fuel H hp [VERSION_WIN10, VERSION_WIN8_1] m1 m2 w2 = Some (r0, w')"
    unfolding connect_def Let_def by (fastforce simp: bind_eq_Some_conv split: result.split_asm)
  from try_versions_msrs [OF this] k show ?thesis by simp
qed

lemma request_offers_msrs:
  assumes "request_offers fuel H hp w = Some (r, w')"
  shows "\<exists>ms. msr_log w' = msr_log w @ eoms ms"
proof -
  from assms obtain r0 s0 where "post_and_wait fuel H hp (le32 CHANNELMSG_REQUEST_OFFERS @ le32 0)
      10000000 offers_matcher [] w = Some (r0, w', s0)"
    unfolding request_offers_def bind_eq_Some_conv
    by (fastforce split: result.split_asm hv_error.split_asm if_split_asm)
  then show ?thesis by (rule post_and_wait_msrs)
qed

text \<open>The MSR writes of a full initialisation, up to the EOMs.\<close>

definition init_writes :: "dma_region \<Rightarrow> dma_region \<Rightarrow> dma_region \<Rightarrow> (u32 \<times> u64) list" where
  "init_writes page simp siefp =
     [(GUEST_OS_ID, push_bit 48 0x8100 OR push_bit 16 0x00060500 OR 0x0001),
      (HYPERCALL, paddr page OR 1), (SCONTROL, 1), (SIMP, paddr simp OR 1),
      (SIEFP, paddr siefp OR 1), (SINT0 + VMBUS_SINT, ucast VMBUS_VECTOR OR push_bit 17 1)]"

lemma setup_writes:
  assumes "hypercall_new H (set_guest_os_id w) = (hp, w1)" "synic_new H w1 = (sy, w2)"
  shows "msr_log w2 = msr_log w @ init_writes (hp_page hp) (simp_page sy) (siefp_page sy)"
  using assms
  by (auto simp: hypercall_new_def synic_new_def set_guest_os_id_def alloc_coherent_def wrmsr_def
      init_writes_def Let_def)

section \<open>Properties\<close>

text \<open>
  C18.  A successful \<open>request_offers\<close> returns exactly the offers of the well-formed OFFERCHANNEL
  messages the host delivered, each once and in the order of arrival.  It stops at the first
  ALLOFFERS_DELIVERED; without one it returns only on a timeout, and then at least one offer.
\<close>

theorem request_offers_complete:
  assumes "request_offers fuel H hp w = Some (Ok offs, w')"
  shows "\<exists>ms. (\<exists>news. arrived w' = arrived w @ news \<and> pend w @ news = ms) \<and>
    offs = List.map_filter offer_of (map message_bytes ms) \<and>
    ((ms \<noteq> [] \<and> all_offers (message_bytes (List.last ms)) \<and>
       (\<forall>m \<in> set (butlast ms). \<not> all_offers (message_bytes m))) \<or>
     (offs \<noteq> [] \<and> (\<forall>m \<in> set ms. \<not> all_offers (message_bytes m))))"
proof -
  from assms obtain r0 where paw: "post_and_wait fuel H hp (le32 CHANNELMSG_REQUEST_OFFERS @ le32 0)
      10000000 offers_matcher [] w = Some (r0, w', offs)"
    and r0: "r0 = Ok () \<or> (r0 = Err Timeout \<and> offs \<noteq> [])"
    unfolding request_offers_def bind_eq_Some_conv
    by (fastforce split: result.split_asm hv_error.split_asm if_split_asm)
  from paw show ?thesis
  proof (cases rule: post_and_wait_cases)
    case (refused e)
    then show ?thesis using r0 by simp
  next
    case (waited ms)
    note f = feed_offers [OF waited(3)]
    show ?thesis
    proof (rule exI [of _ ms], intro conjI)
      show "\<exists>news. arrived w' = arrived w @ news \<and> pend w @ news = ms" by (rule waited(1))
      show "offs = List.map_filter offer_of (map message_bytes ms)" using f by simp
      show "(ms \<noteq> [] \<and> all_offers (message_bytes (List.last ms)) \<and>
         (\<forall>m \<in> set (butlast ms). \<not> all_offers (message_bytes m))) \<or>
       (offs \<noteq> [] \<and> (\<forall>m \<in> set ms. \<not> all_offers (message_bytes m)))"
        using f r0 by (auto simp: last_map map_butlast [symmetric])
    qed
  qed
qed

text \<open>A host that offers nothing and says so at once.\<close>

definition offers_host :: host where
  "offers_host = demo_host\<lparr>deliver := (\<lambda>n. if n = 0 then Some \<lparr>message_type = 1, payload_size = 8,
     message_flags = 0, msg_payload = [4, 0, 0, 0, 0, 0, 0, 0]\<rparr> else None), status := (\<lambda>n. 0)\<rparr>"

theorem request_offers_complete_witness:
  "\<exists>hp w'. request_offers (Suc 0) offers_host hp demo_world = Some (Ok [], w') \<and>
     (\<exists>ms. ms \<noteq> [] \<and> all_offers (message_bytes (List.last ms)) \<and> arrived w' = ms)"
proof -
  let ?hp = "\<lparr>hp_page = dma_at demo_host 0, msg_buffer = dma_at demo_host 1\<rparr>"
  obtain w' where r: "request_offers (Suc 0) offers_host ?hp demo_world = Some (Ok [], w')"
    using post_attempts.simps(2) [of 9]
    by (simp add: request_offers_def post_and_wait_def post_message_def raw_call_def
        offers_host_def demo_host_def demo_world_def now_def instant_add_def wait_for_match_def
        poll_message_def host_turn_def slot_free_def message_bytes_def offers_matcher_def get32_def
        CHANNELMSG_OFFERCHANNEL_def CHANNELMSG_ALLOFFERS_DELIVERED_def ack_message_def Let_def)
  have "pend demo_world = []" "arrived demo_world = []"
    by (simp_all add: demo_world_def pend_def slot_free_def)
  with r request_offers_complete [OF r] show ?thesis by auto
qed

text \<open>
  C27.  On a hypervisor with SynIC and hypercalls \<open>init\<close>, however it ends, has written the MSRs in the
  order the interface demands: the guest OS id before the hypercall page, SynIC control before the
  message and event pages, SINT2 (vector 34, auto-EOI) last; after these it writes nothing but EOM.
\<close>

theorem init_msr_order:
  assumes "vmbus_init fuel H cpuid crash w = Some (res, w')"
    and "detect cpuid = Some f" "has_synic f" "has_hypercall f"
  shows "\<exists>page simp siefp ms. msr_log w' = msr_log w @ init_writes page simp siefp @ eoms ms"
proof -
  obtain hp w1 where h: "hypercall_new H (set_guest_os_id w) = (hp, w1)" by fastforce
  obtain sy w2 where s: "synic_new H w1 = (sy, w2)" by fastforce
  note set = setup_writes [OF h s]
  from assms h s obtain r w3 where c: "connect fuel H hp w2 = Some (r, w3)"
    by (auto simp: vmbus_init_def Let_def bind_eq_Some_conv)
  have rest: "w' = w3 \<or> (\<exists>r2. request_offers fuel H hp w3 = Some (r2, w'))"
  proof (cases r)
    case (Ok x)
    obtain v m1 m2 where x: "x = (v, m1, m2)" by (cases x)
    with assms h s c Ok obtain r2 w4 where ro: "request_offers fuel H hp w3 = Some (r2, w4)"
      by (auto simp: vmbus_init_def Let_def bind_eq_Some_conv)
    with assms h s c Ok x have "w4 = w'"
      by (cases r2) (auto simp: vmbus_init_def Let_def bind_eq_Some_conv)
    with ro show ?thesis by blast
  qed (use assms h s c in \<open>auto simp: vmbus_init_def Let_def bind_eq_Some_conv\<close>)
  from connect_msrs [OF c] obtain ms where m: "msr_log w3 = msr_log w2 @ eoms ms" by blast
  from rest have "\<exists>ms'. msr_log w' = msr_log w3 @ eoms ms'"
    using request_offers_msrs by (auto simp: eoms_def intro: exI [of _ "[]"])
  with m set show ?thesis by (metis append.assoc eoms_append)
qed

text \<open>A CPUID with the Hyper-V signature and both features, and a host that refuses the first post.\<close>

definition demo_cpuid :: "u32 \<Rightarrow> cpuid_result" where
  "demo_cpuid leaf = (if leaf = 0x40000000
     then \<lparr>eax = 0x40000005, ebx = 0x7263694D, ecx = 0x666F736F, edx = 0x76482074\<rparr>
     else \<lparr>eax = 0x24, ebx = 0, ecx = 0, edx = 0\<rparr>)"

theorem init_msr_order_witness:
  "\<exists>w'. vmbus_init 1 (demo_host\<lparr>status := (\<lambda>n. 5)\<rparr>) demo_cpuid 0 demo_world =
       Some (Err (HypercallFailed 5), w') \<and>
     (\<exists>page simp siefp ms. msr_log w' = msr_log demo_world @ init_writes page simp siefp @ eoms ms)"
proof -
  let ?H = "demo_host\<lparr>status := (\<lambda>n. 5)\<rparr>"
  have d: "detect demo_cpuid = Some \<lparr>max_leaf = 0x40000005, has_synic = True, has_hypercall = True\<rparr>"
    by (simp add: detect_def demo_cpuid_def)
  obtain w' where r: "vmbus_init 1 ?H demo_cpuid 0 demo_world = Some (Err (HypercallFailed 5), w')"
    using post_attempts.simps(2) [of 9]
    by (simp add: vmbus_init_def d checkpoint_def hypercall_new_def synic_new_def alloc_coherent_def
        connect_def try_version_def post_and_wait_def post_message_def raw_call_def
        initiate_contact_bytes_def Let_def)
  from r init_msr_order [OF r d] show ?thesis by simp
qed

end
