(* ===== verification/Hv_Channel.thy ===== *)
theory Hv_Channel
  imports Hv_Ring Hv_Vmbus
begin

text \<open>
  VMBus channels, \<open>crates/embclox-hyperv/src/channel.rs\<close>: the page lists (GPADLs) a ring buffer is
  announced with, the open handshake, and send and receive on the two rings of an open channel.

  What the host does to the two rings (consume from the send ring, add to the receive ring) is a
  parameter of type \<open>ring_host\<close>, applied before every operation on them; \<open>ch_turns\<close> counts the
  applications.  An operation returns the result, the channel and
  the world; None is an abort, or a wait that has not returned within its fuel.
\<close>

section \<open>Channel operations\<close>

definition CHANNELMSG_OPENCHANNEL :: u32 where "CHANNELMSG_OPENCHANNEL = 5"
definition CHANNELMSG_OPENCHANNEL_RESULT :: u32 where "CHANNELMSG_OPENCHANNEL_RESULT = 6"
definition CHANNELMSG_GPADL_HEADER :: u32 where "CHANNELMSG_GPADL_HEADER = 8"
definition CHANNELMSG_GPADL_BODY :: u32 where "CHANNELMSG_GPADL_BODY = 9"
definition CHANNELMSG_GPADL_CREATED :: u32 where "CHANNELMSG_GPADL_CREATED = 10"

type_synonym ring_host = "nat \<Rightarrow> ring_half \<times> ring_half \<Rightarrow> ring_half \<times> ring_half"

record channel =
  ch_child_relid :: u32
  ch_connection_id :: u32
  ch_ring_buf :: dma_region
  ch_gpadl_handle :: u32
  ch_send :: ring_half
  ch_recv :: ring_half
  ch_hcall :: hypercall_page
  ch_turns :: nat

definition ring_turn :: "ring_host \<Rightarrow> channel \<Rightarrow> channel" where
  "ring_turn R ch = (case R (ch_turns ch) (ch_send ch, ch_recv ch) of (snd_ring, rcv_ring) \<Rightarrow>
     ch\<lparr>ch_send := snd_ring, ch_recv := rcv_ring, ch_turns := Suc (ch_turns ch)\<rparr>)"

text \<open>The tail of every send: map a ring error, put back the ring, signal the host on success.\<close>

definition finish_send :: "host \<Rightarrow> channel \<Rightarrow> world \<Rightarrow> ((unit, ring_error) result \<times> ring_half) run \<Rightarrow>
   ((unit, hv_error) result \<times> channel \<times> world) run" where
  "finish_send H ch w sent = do {
     (r, ring) \<leftarrow> sent;
     let ch = ch\<lparr>ch_send := ring\<rparr> in
     case r of Err e \<Rightarrow> Ret (Err (HypercallFailed 0xFFFF), ch, w)
     | Ok u \<Rightarrow> Ret (Ok (), ch, signal_event H (ch_hcall ch) (ch_connection_id ch) w) }"

definition chan_send :: "host \<Rightarrow> ring_host \<Rightarrow> channel \<Rightarrow> bytes \<Rightarrow> u64 \<Rightarrow> world \<Rightarrow>
   ((unit, hv_error) result \<times> channel \<times> world) run" where
  "chan_send H R ch payload tid w = (let ch = ring_turn R ch in finish_send H ch w
     (send_packet (ch_send ch) payload tid VMBUS_DATA_PACKET_FLAG_COMPLETION_REQUESTED))"

definition chan_send_raw :: "host \<Rightarrow> ring_host \<Rightarrow> channel \<Rightarrow> bytes \<Rightarrow> u64 \<Rightarrow> world \<Rightarrow>
   ((unit, hv_error) result \<times> channel \<times> world) run" where
  "chan_send_raw H R ch payload tid w = (let ch = ring_turn R ch in
     finish_send H ch w (send_packet (ch_send ch) payload tid 0))"

definition send_with_page_buffer :: "host \<Rightarrow> ring_host \<Rightarrow> channel \<Rightarrow> bytes \<Rightarrow> u64 \<Rightarrow> u32 \<Rightarrow> u32 \<Rightarrow> u64 \<Rightarrow> world \<Rightarrow>
   ((unit, hv_error) result \<times> channel \<times> world) run" where
  "send_with_page_buffer H R ch user_data pfn poff plen tid w = (let ch = ring_turn R ch in finish_send H ch w
     (send_packet_with_page_buffer (ch_send ch) user_data pfn poff plen tid
        VMBUS_DATA_PACKET_FLAG_COMPLETION_REQUESTED))"

definition send_completion :: "host \<Rightarrow> ring_host \<Rightarrow> channel \<Rightarrow> bytes \<Rightarrow> u64 \<Rightarrow> world \<Rightarrow>
   ((unit, hv_error) result \<times> channel \<times> world) run" where
  "send_completion H R ch payload tid w = (let ch = ring_turn R ch in
     finish_send H ch w (send_comp (ch_send ch) payload tid))"

definition map_ring_err :: "('a, ring_error) result \<Rightarrow> ('a, hv_error) result" where
  "map_ring_err r = (case r of Ok x \<Rightarrow> Ok x | Err e \<Rightarrow> Err (HypercallFailed 0xFFFF))"

definition try_recv :: "ring_host \<Rightarrow> channel \<Rightarrow> bytes \<Rightarrow>
   (((vm_packet_descriptor \<times> nat) option, hv_error) result \<times> bytes \<times> channel) run" where
  "try_recv R ch buf = (let ch = ring_turn R ch in do {
     (r, buf, ring) \<leftarrow> recv_packet (ch_recv ch) buf;
     Ret (map_ring_err r, buf, ch\<lparr>ch_recv := ring\<rparr>) })"

definition try_recv_raw :: "ring_host \<Rightarrow> channel \<Rightarrow> bytes \<Rightarrow>
   (((vm_packet_descriptor \<times> nat) option, hv_error) result \<times> bytes \<times> channel) run" where
  "try_recv_raw R ch buf = (let ch = ring_turn R ch in do {
     (r, buf, ring) \<leftarrow> recv_packet_raw (ch_recv ch) buf;
     Ret (map_ring_err r, buf, ch\<lparr>ch_recv := ring\<rparr>) })"

text \<open>The \<open>WaitForPacket\<close> future and the blocking receive it implements.\<close>

definition wait_for_packet_poll :: "host \<Rightarrow> ring_host \<Rightarrow> u64 \<Rightarrow> channel \<times> bytes \<times> world \<Rightarrow>
   ((vm_packet_descriptor \<times> nat, hv_error) result poll \<times> channel \<times> bytes \<times> world) option" where
  "wait_for_packet_poll H R deadline s = (case s of (ch, buf, w) \<Rightarrow> do {
     (r, buf, ch) \<leftarrow> try_recv R ch buf;
     case r of Ok (Some x) \<Rightarrow> Some (Ready (Ok x), ch, buf, w)
     | Err e \<Rightarrow> Some (Ready (Err e), ch, buf, w)
     | Ok None \<Rightarrow> do {
         (r, buf, ch) \<leftarrow> try_recv R ch buf;
         case r of Ok (Some x) \<Rightarrow> Some (Ready (Ok x), ch, buf, w)
         | Err e \<Rightarrow> Some (Ready (Err e), ch, buf, w)
         | Ok None \<Rightarrow>
             let (t, w) = now H w in
             if t \<ge> deadline then Some (Ready (Err Timeout), ch, buf, w)
             else Some (Pending, ch, buf, w) } })"

definition recv_with_timeout :: "nat \<Rightarrow> host \<Rightarrow> ring_host \<Rightarrow> channel \<Rightarrow> bytes \<Rightarrow> u64 \<Rightarrow> world \<Rightarrow>
   ((vm_packet_descriptor \<times> nat, hv_error) result \<times> channel \<times> bytes \<times> world) option" where
  "recv_with_timeout fuel H R ch buf timeout_us w =
     (let (t, w) = now H w in do {
        deadline \<leftarrow> instant_add t timeout_us;
        block_on_with fuel (wait_for_packet_poll H R deadline) (\<lambda>s. s) (ch, buf, w) })"

section \<open>GPADL creation\<close>

definition gpadl_header :: "u32 \<Rightarrow> u32 \<Rightarrow> nat \<Rightarrow> u64 list \<Rightarrow> bytes" where
  "gpadl_header relid handle byte_count pfns =
     (let max_pfns_in_header = (240 - 28) div 8;
          pfns_in_header = min (length pfns) max_pfns_in_header;
          range_buflen = 8 + length pfns * 8 in
      le32 CHANNELMSG_GPADL_HEADER @ le32 0 @ le32 relid @ le32 handle @
      le16 (of_nat range_buflen) @ le16 1 @ le32 (of_nat byte_count) @ le32 0 @
      concat (map le64 (take pfns_in_header pfns)))"

definition gpadl_body :: "u32 \<Rightarrow> u32 \<Rightarrow> u64 list \<Rightarrow> bytes" where
  "gpadl_body handle msg_number pfns =
     le32 CHANNELMSG_GPADL_BODY @ le32 0 @ le32 msg_number @ le32 handle @ concat (map le64 pfns)"

fun gpadl_bodies :: "u32 \<Rightarrow> u32 \<Rightarrow> u64 list \<Rightarrow> bytes list" where
  "gpadl_bodies handle msg_number [] = []"
| "gpadl_bodies handle msg_number (p # ps) =
     (let remaining = p # ps; count = min (length remaining) ((240 - 16) div 8) in
      gpadl_body handle msg_number (take count remaining) #
      gpadl_bodies handle (msg_number + 1) (drop count remaining))"

definition gpadl_messages :: "u32 \<Rightarrow> u32 \<Rightarrow> nat \<Rightarrow> u64 list \<Rightarrow> bytes list" where
  "gpadl_messages relid handle byte_count pfns =
     gpadl_header relid handle byte_count pfns # gpadl_bodies handle 0 (drop (min (length pfns) 26) pfns)"

primrec post_all :: "host \<Rightarrow> hypercall_page \<Rightarrow> bytes list \<Rightarrow> world \<Rightarrow> ((unit, hv_error) result \<times> world) run" where
  "post_all H hp [] w = Ret (Ok (), w)"
| "post_all H hp (m # ms) w = do {
     (r, w) \<leftarrow> post_message H hp VMBUS_MESSAGE_CONNECTION_ID VMBUS_MESSAGE_TYPE_CHANNEL m w;
     case r of Ok u \<Rightarrow> post_all H hp ms w | Err e \<Rightarrow> Ret (Err e, w) }"

text \<open>Both handshakes wait for a message of a given type and take the status at offset 16.\<close>

definition status_matcher :: "u32 \<Rightarrow> (unit, u32) matcher" where
  "status_matcher ty s payload =
     (if length payload < 20 then (None, s)
      else if get32 0 payload \<noteq> ty then (None, s)
      else (Some (get32 16 payload), s))"

definition await_status :: "nat \<Rightarrow> host \<Rightarrow> u32 \<Rightarrow> world \<Rightarrow> ((unit, hv_error) result \<times> world) option" where
  "await_status fuel H ty w =
     (let (t, w) = now H w in do {
        deadline \<leftarrow> instant_add t 5000000;
        (r, w, s) \<leftarrow> wait_for_match fuel H deadline (status_matcher ty) (w, ());
        case r of Err e \<Rightarrow> Some (Err e, w)
        | Ok st \<Rightarrow> if st = 0 then Some (Ok (), w) else Some (Err (HypercallFailed (ucast st)), w) })"

definition create_gpadl :: "nat \<Rightarrow> host \<Rightarrow> hypercall_page \<Rightarrow> u32 \<Rightarrow> u32 \<Rightarrow> nat \<Rightarrow> u64 list \<Rightarrow> world \<Rightarrow>
   ((unit, hv_error) result \<times> world) option" where
  "create_gpadl fuel H hp relid handle byte_count pfns w = do {
     (r, w) \<leftarrow> post_all H hp (gpadl_messages relid handle byte_count pfns) w;
     case r of Err e \<Rightarrow> Some (Err e, w)
     | Ok u \<Rightarrow> await_status fuel H CHANNELMSG_GPADL_CREATED w }"

section \<open>Opening a channel\<close>

definition open_channel_bytes :: "u32 \<Rightarrow> u32 \<Rightarrow> u32 \<Rightarrow> bytes" where
  "open_channel_bytes relid handle downstream_page_offset =
     le32 CHANNELMSG_OPENCHANNEL @ le32 0 @ le32 relid @ le32 relid @ le32 handle @ le32 0 @
     le32 downstream_page_offset @ [1] @ zeros 119"

definition open_channel_msg :: "nat \<Rightarrow> host \<Rightarrow> hypercall_page \<Rightarrow> u32 \<Rightarrow> u32 \<Rightarrow> u32 \<Rightarrow> world \<Rightarrow>
   ((unit, hv_error) result \<times> world) option" where
  "open_channel_msg fuel H hp relid handle off w = do {
     (r, w) \<leftarrow> post_message H hp VMBUS_MESSAGE_CONNECTION_ID VMBUS_MESSAGE_TYPE_CHANNEL
        (open_channel_bytes relid handle off) w;
     case r of Err e \<Rightarrow> Some (Err e, w)
     | Ok u \<Rightarrow> await_status fuel H CHANNELMSG_OPENCHANNEL_RESULT w }"

definition build_pfn_list :: "dma_region \<Rightarrow> nat \<Rightarrow> u64 list" where
  "build_pfn_list region num_pages =
     map (\<lambda>i. drop_bit 12 (paddr region + of_nat (i * 4096))) [0..<num_pages]"

text \<open>\<open>next_gpadl\<close> is the static counter; DMA memory is handed out zeroed.\<close>

definition open_channel :: "nat \<Rightarrow> host \<Rightarrow> u32 \<Rightarrow> channel_offer \<Rightarrow> nat \<Rightarrow> hypercall_page \<Rightarrow> u32 \<Rightarrow> world \<Rightarrow>
   ((channel, hv_error) result \<times> u32 \<times> world) option" where
  "open_channel fuel H crash offer ring_size hp next_gpadl w = do {
     assert_run (ring_size \<ge> 8192 \<and> ring_size mod 4096 = 0);
     let half_size = ring_size div 2;
         (ring_buf, w) = alloc_coherent H ring_size 4096 w;
         pfns = build_pfn_list ring_buf (ring_size div 4096);
         handle = next_gpadl; next_gpadl = next_gpadl + 1 in do {
     (r, w) \<leftarrow> create_gpadl fuel H hp (child_relid offer) handle ring_size pfns w;
     case r of Err e \<Rightarrow> Some (Err e, next_gpadl, w)
     | Ok u \<Rightarrow> do {
         (r, w) \<leftarrow> open_channel_msg fuel H hp (child_relid offer) handle (of_nat (half_size div 4096)) w;
         case r of Err e \<Rightarrow> Some (Err e, next_gpadl, w)
         | Ok u \<Rightarrow> do {
             send \<leftarrow> ring_new 0 0 (zeros (half_size - 4096)) half_size;
             recv \<leftarrow> ring_new 0 0 (zeros (half_size - 4096)) half_size;
             checkpoint crash 7;
             Some (Ok \<lparr>ch_child_relid = child_relid offer, ch_connection_id = connection_id offer,
               ch_ring_buf = ring_buf, ch_gpadl_handle = handle, ch_send = send, ch_recv = recv,
               ch_hcall = hp, ch_turns = 0\<rparr>, next_gpadl, w) } } } }"

section \<open>Lemmas: GPADL messages\<close>

text \<open>The page frame numbers a host reads off a message, eight bytes at a time.\<close>

fun pfns_of :: "bytes \<Rightarrow> u64 list" where
  "pfns_of bs = (if length bs < 8 then [] else get64 0 bs # pfns_of (drop 8 bs))"

declare pfns_of.simps [simp del]

lemma pfns_of_le64: "pfns_of (le64 p @ bs) = p # pfns_of bs"
  by (subst pfns_of.simps) (simp add: slice_simps)

lemma pfns_of_Nil: "pfns_of [] = []"
  by (subst pfns_of.simps) simp

lemma pfns_of_concat: "pfns_of (concat (map le64 ps)) = ps"
  by (induction ps) (simp_all add: pfns_of_le64 pfns_of_Nil)

lemma length_concat_le64: "length (concat (map le64 ps)) = 8 * length ps"
  by (induction ps) simp_all

lemma gpadl_bodies_step:
  "ps \<noteq> [] \<Longrightarrow> gpadl_bodies h n ps =
     gpadl_body h n (take 28 ps) # gpadl_bodies h (n + 1) (drop 28 ps)"
  by (cases ps) (simp_all add: Let_def min_def)

lemma gpadl_body_fields:
  "get32 8 (gpadl_body h n ps) = n" "get32 12 (gpadl_body h n ps) = h"
  "pfns_of (drop 16 (gpadl_body h n ps)) = ps"
  "length (gpadl_body h n ps) = 16 + 8 * length ps"
  by (simp_all add: gpadl_body_def slice_simps length_concat_le64 pfns_of_concat)

lemma gpadl_bodies_spec:
  "concat (map (\<lambda>m. pfns_of (drop 16 m)) (gpadl_bodies h n ps)) = ps \<and>
   (\<forall>m \<in> set (gpadl_bodies h n ps). length m \<le> 240) \<and>
   (\<forall>i < length (gpadl_bodies h n ps). get32 8 (gpadl_bodies h n ps ! i) = n + of_nat i \<and>
      get32 12 (gpadl_bodies h n ps ! i) = h)"
proof (induction "length ps" arbitrary: n ps rule: less_induct)
  case less
  show ?case
  proof (cases "ps = []")
    case False
    then have "length (drop 28 ps) < length ps" by (cases ps) simp_all
    note ih = less [OF this, of "n + 1"]
    show ?thesis
      unfolding gpadl_bodies_step [OF False] using ih
      by (auto simp: gpadl_body_fields nth_Cons' less_Suc_eq_0_disj algebra_simps split: nat.splits)
  qed simp
qed

lemma gpadl_header_fields:
  "pfns_of (drop 28 (gpadl_header relid h bc ps)) = take 26 ps"
  "length (gpadl_header relid h bc ps) \<le> 240"
  "get16 16 (gpadl_header relid h bc ps) = of_nat (8 + length ps * 8)"
  by (simp_all add: gpadl_header_def Let_def slice_simps length_concat_le64 pfns_of_concat min_def)

lemma gpadl_messages_short: "m \<in> set (gpadl_messages relid h bc ps) \<Longrightarrow> length m \<le> 240"
  using gpadl_header_fields(2) gpadl_bodies_spec by (auto simp: gpadl_messages_def)

lemma post_all_Some:
  assumes "\<And>m. m \<in> set ms \<Longrightarrow> length m \<le> 240"
  shows "\<exists>r w'. post_all H hp ms w = Ret (r, w')"
  using assms
proof (induction ms arbitrary: w)
  case (Cons m ms)
  obtain r w1 where "post_message H hp VMBUS_MESSAGE_CONNECTION_ID VMBUS_MESSAGE_TYPE_CHANNEL m w = Ret (r, w1)"
    using Cons.prems by (fastforce simp: post_message_def)
  with Cons show ?case by (cases r) auto
qed simp

lemma post_message_accepted:
  assumes "\<And>n. status H n = 0" "length dat \<le> 240"
  shows "post_message H hp c t dat w = Ret (Ok (), w\<lparr>calls := calls w @
     [\<lparr>hc_code = HV_POST_MESSAGE, hc_input = paddr (msg_buffer hp), hc_page = post_message_input c t dat\<rparr>]\<rparr>)"
  using assms post_attempts.simps(2) [of 9 H] by (simp add: post_message_def raw_call_def)

lemma post_all_accepted:
  assumes "\<And>n. status H n = 0" "\<And>m. m \<in> set ms \<Longrightarrow> length m \<le> 240"
  shows "post_all H hp ms w = Ret (Ok (), w\<lparr>calls := calls w @
     map (\<lambda>m. \<lparr>hc_code = HV_POST_MESSAGE, hc_input = paddr (msg_buffer hp),
       hc_page = post_message_input VMBUS_MESSAGE_CONNECTION_ID VMBUS_MESSAGE_TYPE_CHANNEL m\<rparr>) ms\<rparr>)"
  using assms(2)
  by (induction ms arbitrary: w) (simp_all add: post_message_accepted [OF assms(1)])

lemma await_status_calls: "await_status fuel H ty w = Some (r, w') \<Longrightarrow> calls w' = calls w"
proof -
  assume a: "await_status fuel H ty w = Some (r, w')"
  then obtain d r0 w1 s0 where wm:
    "wait_for_match fuel H d (status_matcher ty) (snd (now H w), ()) = Some (r0, w1, s0)"
    and r0: "(case r0 of Err e \<Rightarrow> Some (Err e, w1)
        | Ok st \<Rightarrow> if st = 0 then Some (Ok (), w1) else Some (Err (HypercallFailed (ucast st)), w1)) =
      Some (r, w')"
    by (auto simp: await_status_def now_def Let_def bind_eq_Some_conv)
  have "w1 = w'" using r0 by (cases r0) (auto split: if_splits)
  with wait_for_match_calls [OF wm] show ?thesis by simp
qed

section \<open>Lemmas: an open channel\<close>

text \<open>Hosts that keep ring indices inside the rings, and the channel invariant every operation keeps.\<close>

definition ring_host_ok :: "ring_host \<Rightarrow> bool" where
  "ring_host_ok R \<longleftrightarrow> (\<forall>n s r. ring_inv s \<longrightarrow> ring_inv r \<longrightarrow>
     ring_inv (fst (R n (s, r))) \<and> ring_inv (snd (R n (s, r))))"

definition chan_inv :: "channel \<Rightarrow> bool" where
  "chan_inv ch \<longleftrightarrow> ring_inv (ch_send ch) \<and> ring_inv (ch_recv ch)"

lemma ring_turn_inv: "ring_host_ok R \<Longrightarrow> chan_inv ch \<Longrightarrow> chan_inv (ring_turn R ch)"
  by (auto simp: ring_host_ok_def chan_inv_def ring_turn_def split: prod.split)
    (metis fst_conv snd_conv)+

lemma ring_turn_simps [simp]:
  "ch_child_relid (ring_turn R ch) = ch_child_relid ch" "ch_turns (ring_turn R ch) = Suc (ch_turns ch)"
  by (simp_all add: ring_turn_def split: prod.split)

lemma finish_send_total:
  assumes "chan_inv ch" "sent = Ret (res, ring)" "ring_inv ring"
  shows "\<exists>r ch' w'. finish_send H ch w sent = Ret (r, ch', w') \<and> chan_inv ch'"
  using assms by (cases res) (simp_all add: finish_send_def chan_inv_def)

lemma sends_total:
  assumes "ring_host_ok R" "chan_inv ch"
  shows chan_send_total: "\<exists>r ch' w'. chan_send H R ch payload tid w = Ret (r, ch', w') \<and> chan_inv ch'"
    and chan_send_raw_total: "\<exists>r ch' w'. chan_send_raw H R ch payload tid w = Ret (r, ch', w') \<and> chan_inv ch'"
    and send_completion_total: "\<exists>r ch' w'. send_completion H R ch payload tid w = Ret (r, ch', w') \<and> chan_inv ch'"
proof -
  have c: "chan_inv (ring_turn R ch)" using assms by (rule ring_turn_inv)
  then have "ring_inv (ch_send (ring_turn R ch))" by (simp add: chan_inv_def)
  from send_frame_safe [OF this, of "[]" 16] have
    "\<exists>res ring. send_frame (ch_send (ring_turn R ch)) 16 ty fl tid [] payload = Ret (res, ring) \<and> ring_inv ring"
    for ty fl by simp
  then show "\<exists>r ch' w'. chan_send H R ch payload tid w = Ret (r, ch', w') \<and> chan_inv ch'"
    "\<exists>r ch' w'. chan_send_raw H R ch payload tid w = Ret (r, ch', w') \<and> chan_inv ch'"
    "\<exists>r ch' w'. send_completion H R ch payload tid w = Ret (r, ch', w') \<and> chan_inv ch'"
    unfolding chan_send_def chan_send_raw_def send_completion_def send_packet_def send_comp_def Let_def
    using finish_send_total [OF c] by metis+
qed

lemma try_recv_raw_total:
  assumes "ring_host_ok R" "chan_inv ch"
  shows "\<exists>r buf' ch'. try_recv_raw R ch buf = Ret (r, buf', ch') \<and> chan_inv ch' \<and>
    length buf' = length buf \<and> ch_turns ch' = Suc (ch_turns ch) \<and>
    (case r of Ok (Some (d, n)) \<Rightarrow> n \<le> length buf | _ \<Rightarrow> True)"
proof -
  have c: "chan_inv (ring_turn R ch)" using assms by (rule ring_turn_inv)
  then have "ring_inv (ch_recv (ring_turn R ch))" by (simp add: chan_inv_def)
  from recv_packet_raw_inv [OF this, of buf] obtain res buf' r' where
    "recv_packet_raw (ch_recv (ring_turn R ch)) buf = Ret (res, buf', r')" "length buf' = length buf"
    "ring_inv r'" and n: "case res of Ok (Some (d, n)) \<Rightarrow> n \<le> length buf \<and> n + 16 \<le> unat (len8 d) * 8 \<and>
         fill r' + unat (len8 d) * 8 + 8 = fill (ch_recv (ring_turn R ch)) | _ \<Rightarrow> r' = ch_recv (ring_turn R ch) \<and> buf' = buf"
    by blast
  moreover have "case map_ring_err res of Ok (Some (d, n)) \<Rightarrow> n \<le> length buf | _ \<Rightarrow> True"
    using n by (auto simp: map_ring_err_def split: result.splits option.splits)
  ultimately show ?thesis
    using c by (simp add: try_recv_raw_def Let_def chan_inv_def)
qed

section \<open>Properties\<close>

text \<open>
  C28.  Announcing a buffer of any number of pages loses and reorders none: every message fits the
  240-byte hypercall payload, so that posting them cannot abort; the page frame numbers of the
  header message followed by those of the body messages are the given list; body messages carry
  consecutive numbers from 0 and the handle.  The length field of the header is exact below 8191
  pages (it is a 16-bit field).
\<close>

theorem gpadl_messages_roundtrip:
  assumes "ms = gpadl_messages relid h bc pfns"
  shows "pfns_of (drop 28 (hd ms)) @ concat (map (\<lambda>m. pfns_of (drop 16 m)) (tl ms)) = pfns \<and>
    (\<forall>m \<in> set ms. length m \<le> 240) \<and> (\<exists>r w'. post_all H hp ms w = Ret (r, w')) \<and>
    (\<forall>i < length (tl ms). get32 8 (tl ms ! i) = of_nat i \<and> get32 12 (tl ms ! i) = h) \<and>
    (length pfns < 8191 \<longrightarrow> unat (get16 16 (hd ms)) = 8 + 8 * length pfns)"
proof -
  let ?tl = "gpadl_bodies h 0 (drop (min (length pfns) 26) pfns)"
  note b = gpadl_bodies_spec [of h 0 "drop (min (length pfns) 26) pfns"]
  have "take 26 pfns @ drop (min (length pfns) 26) pfns = pfns" by (simp add: min_def)
  then have "pfns_of (drop 28 (hd ms)) @ concat (map (\<lambda>m. pfns_of (drop 16 m)) (tl ms)) = pfns"
    using b assms by (simp add: gpadl_messages_def gpadl_header_fields)
  moreover have "unat (get16 16 (hd ms)) = 8 + 8 * length pfns" if "length pfns < 8191"
    using that assms by (simp add: gpadl_messages_def gpadl_header_fields unat_of_nat del: of_nat_add)
  ultimately show ?thesis
    using b assms gpadl_messages_short post_all_Some [of ms]
    by (auto simp: gpadl_messages_def)
qed

theorem gpadl_messages_roundtrip_witness:
  "pfns_of (drop 28 (hd (gpadl_messages 3 1 8192 [7, 8]))) @
     concat (map (\<lambda>m. pfns_of (drop 16 m)) (tl (gpadl_messages 3 1 8192 [7, 8]))) = [7, 8] \<and>
   unat (get16 16 (hd (gpadl_messages 3 1 8192 [7, 8]))) = 24"
  using gpadl_messages_roundtrip [OF refl, of 3 1 8192 "[7, 8]"] by simp

text \<open>
  \<open>create_gpadl\<close> on a host that accepts every post issues exactly the hypercalls carrying the
  header and body messages, in order, and no others.
\<close>

lemma create_gpadl_posts:
  assumes "\<And>n. status H n = 0" "create_gpadl fuel H hp relid h bc pfns w = Some (res, w')"
  shows "calls w' = calls w @ map (\<lambda>m. \<lparr>hc_code = HV_POST_MESSAGE,
      hc_input = paddr (msg_buffer hp),
      hc_page = post_message_input VMBUS_MESSAGE_CONNECTION_ID VMBUS_MESSAGE_TYPE_CHANNEL m\<rparr>)
      (gpadl_messages relid h bc pfns)"
proof -
  let ?w1 = "w\<lparr>calls := calls w @ map (\<lambda>m. \<lparr>hc_code = HV_POST_MESSAGE,
      hc_input = paddr (msg_buffer hp),
      hc_page = post_message_input VMBUS_MESSAGE_CONNECTION_ID VMBUS_MESSAGE_TYPE_CHANNEL m\<rparr>)
      (gpadl_messages relid h bc pfns)\<rparr>"
  have "await_status fuel H CHANNELMSG_GPADL_CREATED ?w1 = Some (res, w')"
    using assms(2) post_all_accepted [OF assms(1), of "gpadl_messages relid h bc pfns" hp w]
      gpadl_messages_short by (simp add: create_gpadl_def)
  from await_status_calls [OF this] show ?thesis by simp
qed

lemma create_gpadl_posts_witness:
  "\<exists>res w'. create_gpadl (Suc 0) (offers_host\<lparr>deliver := (\<lambda>n. None), clock := (\<lambda>n. if n = 0 then 0 else 5000000)\<rparr>)
       \<lparr>hp_page = dma_at demo_host 0, msg_buffer = dma_at demo_host 1\<rparr> 2 1 4096 [9] demo_world =
       Some (res, w') \<and> length (calls w') = 1"
proof -
  let ?H = "offers_host\<lparr>deliver := (\<lambda>n. None), clock := (\<lambda>n. if n = 0 then 0 else 5000000)\<rparr>"
  let ?hp = "\<lparr>hp_page = dma_at demo_host 0, msg_buffer = dma_at demo_host 1\<rparr>"
  have st: "\<And>n. status ?H n = 0" by (simp add: offers_host_def)
  have gm: "gpadl_messages 2 1 4096 [9] = [gpadl_header 2 1 4096 [9]]"
    by (simp add: gpadl_messages_def)
  let ?w1 = "demo_world\<lparr>calls := calls demo_world @ map (\<lambda>m. \<lparr>hc_code = HV_POST_MESSAGE,
      hc_input = paddr (msg_buffer ?hp),
      hc_page = post_message_input VMBUS_MESSAGE_CONNECTION_ID VMBUS_MESSAGE_TYPE_CHANNEL m\<rparr>)
      (gpadl_messages 2 1 4096 [9])\<rparr>"
  have pa: "post_all ?H ?hp (gpadl_messages 2 1 4096 [9]) demo_world = Ret (Ok (), ?w1)"
    by (rule post_all_accepted [OF st gpadl_messages_short])
  obtain res w' where r: "create_gpadl (Suc 0) ?H ?hp 2 1 4096 [9] demo_world = Some (res, w')"
    unfolding create_gpadl_def pa
    by (simp add: await_status_def now_def instant_add_def wait_for_match_def poll_message_def
        host_turn_def demo_world_def Let_def)
  from r create_gpadl_posts [OF st r] show ?thesis
    by (simp add: gm) (simp add: demo_world_def)
qed



end
