(* ===== verification/Try_Run.thy ===== *)
theory Try_Run
  imports Prelude
begin

text \<open>
  Sequencing of operations that take a state and return a \<open>Result\<close> with the new state (None is an
  abort): the question mark operator, the discarded result of \<open>let _ = ...\<close>, and a \<open>for\<close> loop
  whose body may leave early.  Effects made before an early return stay, as in the source.
\<close>

type_synonym ('s, 'a, 'e) try_run = "'s \<Rightarrow> (('a, 'e) result \<times> 's) run"

definition done_with :: "'a \<Rightarrow> ('s, 'a, 'e) try_run" where
  "done_with x s = Ret (Ok x, s)"

definition fail_with :: "'e \<Rightarrow> ('s, 'a, 'e) try_run" where
  "fail_with e s = Ret (Err e, s)"

definition try_op :: "('s, 'a, 'e) try_run \<Rightarrow> ('a \<Rightarrow> ('s, 'b, 'e) try_run) \<Rightarrow> ('s, 'b, 'e) try_run" where
  "try_op m f s = (case m s of None \<Rightarrow> Panic
     | Some (Err e, s) \<Rightarrow> Ret (Err e, s)
     | Some (Ok x, s) \<Rightarrow> f x s)"

definition ignore_result :: "('s, 'a, 'e) try_run \<Rightarrow> ('s, unit, 'e) try_run" where
  "ignore_result m s = (case m s of None \<Rightarrow> Panic | Some (r, s) \<Rightarrow> Ret (Ok (), s))"

text \<open>At most \<open>n\<close> rounds of a body that says whether to go on.\<close>

primrec repeat_while :: "nat \<Rightarrow> ('s, bool, 'e) try_run \<Rightarrow> ('s, unit, 'e) try_run" where
  "repeat_while 0 m = done_with ()"
| "repeat_while (Suc n) m = try_op m (\<lambda>more. if more then repeat_while n m else done_with ())"

lemma try_op_Ok: "m s = Ret (Ok x, s') \<Longrightarrow> try_op m f s = f x s'"
  by (simp add: try_op_def)

lemma try_op_Err: "m s = Ret (Err e, s') \<Longrightarrow> try_op m f s = Ret (Err e, s')"
  by (simp add: try_op_def)

lemma try_op_OkE:
  assumes "try_op m f s = Ret (Ok y, s')"
  obtains x s1 where "m s = Ret (Ok x, s1)" "f x s1 = Ret (Ok y, s')"
  using assms unfolding try_op_def
  by (cases "m s") (auto split: result.split_asm prod.split_asm)

lemma try_op_RetE:
  assumes "try_op m f s = Ret (r, s')"
  obtains (ok) x s1 where "m s = Ret (Ok x, s1)" "f x s1 = Ret (r, s')"
  | (err) e where "m s = Ret (Err e, s')" "r = Err e"
  using assms unfolding try_op_def
  by (cases "m s") (auto split: result.split_asm prod.split_asm)

text \<open>A property of states kept by both parts of a sequence is kept by the sequence.\<close>

definition keeps :: "('s \<Rightarrow> bool) \<Rightarrow> ('s, 'a, 'e) try_run \<Rightarrow> bool" where
  "keeps I m \<longleftrightarrow> (\<forall>s r s'. I s \<longrightarrow> m s = Ret (r, s') \<longrightarrow> I s')"

lemma keeps_D: "keeps I m \<Longrightarrow> m s = Ret (r, s') \<Longrightarrow> I s \<Longrightarrow> I s'"
  by (auto simp: keeps_def)

lemma keeps_done [intro]: "keeps I (done_with x)" and keeps_fail [intro]: "keeps I (fail_with e)"
  by (auto simp: keeps_def done_with_def fail_with_def)

lemma keeps_try_op [intro]: "keeps I m \<Longrightarrow> (\<And>x. keeps I (f x)) \<Longrightarrow> keeps I (try_op m f)"
  unfolding keeps_def by (blast elim: try_op_RetE)

lemma keeps_ignore [intro]: "keeps I m \<Longrightarrow> keeps I (ignore_result m)"
  unfolding keeps_def ignore_result_def by (simp split: option.split prod.split)

lemma keeps_repeat [intro]: "keeps I m \<Longrightarrow> keeps I (repeat_while n m)"
  by (induction n) (simp_all add: keeps_done keeps_try_op)

text \<open>Operations that always return, and then keep the property.\<close>

definition safe :: "('s \<Rightarrow> bool) \<Rightarrow> ('s, 'a, 'e) try_run \<Rightarrow> bool" where
  "safe I m \<longleftrightarrow> (\<forall>s. I s \<longrightarrow> (\<exists>r s'. m s = Ret (r, s') \<and> I s'))"

lemma safeE:
  assumes "safe I m" "I s"
  obtains r s' where "m s = Ret (r, s')" "I s'"
  using assms unfolding safe_def by blast

lemma safe_keeps: "safe I m \<Longrightarrow> keeps I m"
  unfolding safe_def keeps_def by force

lemma safe_done [intro]: "safe I (done_with x)" and safe_fail [intro]: "safe I (fail_with e)"
  by (auto simp: safe_def done_with_def fail_with_def)

lemma safe_try_op [intro]:
  assumes "safe I m" "\<And>x. safe I (f x)"
  shows "safe I (try_op m f)"
  unfolding safe_def
proof (intro allI impI)
  fix s assume "I s"
  with assms(1) obtain r s1 where m: "m s = Ret (r, s1)" "I s1" by (rule safeE)
  show "\<exists>r s'. try_op m f s = Ret (r, s') \<and> I s'"
  proof (cases r)
    case (Ok x)
    from assms(2) m(2) obtain r' s2 where "f x s1 = Ret (r', s2)" "I s2" by (rule safeE)
    then show ?thesis using m Ok by (simp add: try_op_def)
  next
    case (Err e)
    then show ?thesis using m by (simp add: try_op_def)
  qed
qed

lemma safe_ignore [intro]: "safe I m \<Longrightarrow> safe I (ignore_result m)"
  unfolding safe_def ignore_result_def by force

text \<open>Errors an operation never reports.\<close>

definition never :: "'e \<Rightarrow> ('s, 'a, 'e) try_run \<Rightarrow> bool" where
  "never e m \<longleftrightarrow> (\<forall>s s'. m s \<noteq> Ret (Err e, s'))"

lemma never_try_op: "never e m \<Longrightarrow> (\<And>x. never e (f x)) \<Longrightarrow> never e (try_op m f)"
  unfolding never_def try_op_def by (auto split: option.split result.split)

lemma never_done: "never e (done_with x)"
  by (simp add: never_def done_with_def)

text \<open>From every state of \<open>P\<close> an operation succeeds and leaves a state of \<open>Q\<close>.\<close>

definition reaches :: "('s \<Rightarrow> bool) \<Rightarrow> ('s, 'a, 'e) try_run \<Rightarrow> ('a \<Rightarrow> 's \<Rightarrow> bool) \<Rightarrow> bool" where
  "reaches P m Q \<longleftrightarrow> (\<forall>s. P s \<longrightarrow> (\<exists>x s'. m s = Ret (Ok x, s') \<and> Q x s'))"

lemma reaches_try_op:
  assumes "reaches P m Q" "\<And>x. reaches (Q x) (f x) T"
  shows "reaches P (try_op m f) T"
  using assms unfolding reaches_def by (metis try_op_Ok)

lemma reaches_keeps: "reaches P m Q \<Longrightarrow> keeps I m \<Longrightarrow> reaches (\<lambda>s. P s \<and> I s) m (\<lambda>x s. Q x s \<and> I s)"
  unfolding reaches_def keeps_def by blast

end
