(* ===== verification/Hv_Synthvid.thy ===== *)
theory Hv_Synthvid
  imports Hv_Channel Try_Run
begin

text \<open>
  The synthetic video device, \<open>crates/embclox-hyperv/src/synthvid.rs\<close>: messages, version
  negotiation, placing the framebuffer, the display situation, dirty rectangles and pixel writes.
  The framebuffer bytes are part of the device; a raw pointer write outside of them is an abort of
  the model.  \<open>i32\<close> and \<open>u32\<close> are both 32-bit words, read by \<open>sint\<close> and \<open>unat\<close>, with overflow
  an abort.  Lemmas show that messages decode to what was sent and that pixels are independent.
\<close>

definition SYNTHVID_VERSION_REQUEST :: u32 where "SYNTHVID_VERSION_REQUEST = 1"
definition SYNTHVID_VERSION_RESPONSE :: u32 where "SYNTHVID_VERSION_RESPONSE = 2"
definition SYNTHVID_VRAM_LOCATION :: u32 where "SYNTHVID_VRAM_LOCATION = 3"
definition SYNTHVID_VRAM_LOCATION_ACK :: u32 where "SYNTHVID_VRAM_LOCATION_ACK = 4"
definition SYNTHVID_SITUATION_UPDATE :: u32 where "SYNTHVID_SITUATION_UPDATE = 5"
definition SYNTHVID_DIRT :: u32 where "SYNTHVID_DIRT = 10"
definition PIPE_MSG_DATA :: u32 where "PIPE_MSG_DATA = 1"
definition SYNTHVID_VERSION_WIN10 :: u32 where "SYNTHVID_VERSION_WIN10 = or (push_bit 16 5) 3"
definition SYNTHVID_VERSION_WIN8 :: u32 where "SYNTHVID_VERSION_WIN8 = or (push_bit 16 2) 3"

section \<open>Checked arithmetic\<close>

definition mul32 :: "u32 \<Rightarrow> u32 \<Rightarrow> u32 run" where
  "mul32 a b = (if unat a * unat b < 2 ^ 32 then Ret (a * b) else Panic)"

definition add32 :: "u32 \<Rightarrow> u32 \<Rightarrow> u32 run" where
  "add32 a b = (if unat a + unat b < 2 ^ 32 then Ret (a + b) else Panic)"

definition add_i32 :: "u32 \<Rightarrow> u32 \<Rightarrow> u32 run" where
  "add_i32 a b = (if - (2 ^ 31) \<le> sint a + sint b \<and> sint a + sint b < 2 ^ 31 then Ret (a + b) else Panic)"

section \<open>Messages\<close>

definition build_msg :: "u32 \<Rightarrow> bytes \<Rightarrow> bytes \<Rightarrow> (nat \<times> bytes) run" where
  "build_msg vid_type body buf =
     (let vid_hdr_size = 8 + length body; total = 8 + vid_hdr_size in do {
      assert_run (total \<le> length buf);
      buf \<leftarrow> patch 0 (le32 PIPE_MSG_DATA) buf;
      buf \<leftarrow> patch 4 (le32 (of_nat vid_hdr_size)) buf;
      buf \<leftarrow> patch 8 (le32 vid_type) buf;
      buf \<leftarrow> patch 12 (le32 (of_nat vid_hdr_size)) buf;
      buf \<leftarrow> patch 16 body buf;
      Ret (total, buf) })"

definition parse_vid_type :: "bytes \<Rightarrow> u32 option" where
  "parse_vid_type buf = (if length buf < 16 then None else Some (get32 8 buf))"

record synthvid_device =
  sv_channel :: channel
  sv_vram :: dma_region
  sv_width :: u32
  sv_height :: u32
  sv_bpp :: u32
  sv_stride :: u32
  sv_next_txid :: u64
  sv_vram_mem :: bytes

type_synonym 'a sv_run = "(synthvid_device \<times> world, 'a, hv_error) try_run"

text \<open>
  Take the next transaction number (overflow-checked) and send a message: the common tail of all
  four requests, over a local buffer of the given size.
\<close>

definition send_msg :: "host \<Rightarrow> ring_host \<Rightarrow> u32 \<Rightarrow> bytes \<Rightarrow> nat \<Rightarrow> unit sv_run" where
  "send_msg H R vid_type body buf_size s = (case s of (d, w) \<Rightarrow> do {
     (len, msg) \<leftarrow> build_msg vid_type body (zeros buf_size);
     let txid = sv_next_txid d in do {
     assert_run (txid \<noteq> - 1);
     (r, ch, w) \<leftarrow> chan_send_raw H R (sv_channel d) (take len msg) txid w;
     Ret (r, d\<lparr>sv_next_txid := txid + 1, sv_channel := ch\<rparr>, w) } })"

definition await_msg :: "nat \<Rightarrow> host \<Rightarrow> ring_host \<Rightarrow> (nat \<times> bytes) sv_run" where
  "await_msg fuel H R s = (case s of (d, w) \<Rightarrow> do {
     (r, ch, buf, w) \<leftarrow> recv_with_timeout fuel H R (sv_channel d) (zeros 256) 2000000 w;
     Ret (case r of Ok (desc, rlen) \<Rightarrow> Ok (rlen, buf) | Err e \<Rightarrow> Err e, d\<lparr>sv_channel := ch\<rparr>, w) })"

section \<open>The requests\<close>

definition dirty_rect :: "host \<Rightarrow> ring_host \<Rightarrow> u32 \<Rightarrow> u32 \<Rightarrow> u32 \<Rightarrow> u32 \<Rightarrow> unit sv_run" where
  "dirty_rect H R x y w h s = do {
     x2 \<leftarrow> add_i32 x w;
     y2 \<leftarrow> add_i32 y h;
     send_msg H R SYNTHVID_DIRT ([0, 1] @ le32 x @ le32 y @ le32 x2 @ le32 y2) 64 s }"

definition dirt_full :: "host \<Rightarrow> ring_host \<Rightarrow> unit sv_run" where
  "dirt_full H R s = (case s of (d, w) \<Rightarrow> dirty_rect H R 0 0 (sv_width d) (sv_height d) s)"

primrec negotiate_versions :: "nat \<Rightarrow> host \<Rightarrow> ring_host \<Rightarrow> u32 list \<Rightarrow> unit sv_run" where
  "negotiate_versions fuel H R [] = fail_with VersionRejected"
| "negotiate_versions fuel H R (ver # versions) =
     try_op (send_msg H R SYNTHVID_VERSION_REQUEST (le32 ver) 32) (\<lambda>u.
     try_op (await_msg fuel H R) (\<lambda>(rlen, buf) s.
       if rlen \<ge> 22 \<and> parse_vid_type buf = Some SYNTHVID_VERSION_RESPONSE then do {
         is_accepted \<leftarrow> nth_run buf 20;
         if is_accepted \<noteq> 0 then done_with () s else negotiate_versions fuel H R versions s }
       else negotiate_versions fuel H R versions s))"

definition negotiate_vid_version :: "nat \<Rightarrow> host \<Rightarrow> ring_host \<Rightarrow> unit sv_run" where
  "negotiate_vid_version fuel H R =
     negotiate_versions fuel H R [SYNTHVID_VERSION_WIN10, SYNTHVID_VERSION_WIN8]"

definition vram_location_body :: "u64 \<Rightarrow> bytes" where
  "vram_location_body gpa = zeros 8 @ [1] @ le64 gpa"

definition set_vram_location :: "nat \<Rightarrow> host \<Rightarrow> ring_host \<Rightarrow> unit sv_run" where
  "set_vram_location fuel H R s =
     try_op (send_msg H R SYNTHVID_VRAM_LOCATION (vram_location_body (paddr (sv_vram (fst s)))) 48) (\<lambda>u.
     try_op (await_msg fuel H R) (\<lambda>(rlen, buf).
       if rlen \<ge> 16 \<and> parse_vid_type buf = Some SYNTHVID_VRAM_LOCATION_ACK then done_with ()
       else fail_with Timeout)) s"

definition situation_body :: "u32 \<Rightarrow> u32 \<Rightarrow> u32 \<Rightarrow> bytes" where
  "situation_body width height pitch =
     zeros 8 @ [1, 1] @ le32 0 @ [32] @ le32 width @ le32 height @ le32 pitch"

definition set_situation :: "host \<Rightarrow> ring_host \<Rightarrow> unit sv_run" where
  "set_situation H R s = (case s of (d, w) \<Rightarrow> do {
     pitch \<leftarrow> mul32 (sv_width d) 4;
     send_msg H R SYNTHVID_SITUATION_UPDATE (situation_body (sv_width d) (sv_height d) pitch) 64 s })"

section \<open>Draining the receive ring\<close>

text \<open>
  The inner loop discards packets until none is visible; one poll of the future runs it, looks at
  the clock, and yields.
\<close>

primrec drain_packets :: "nat \<Rightarrow> ring_host \<Rightarrow> channel \<times> bytes \<Rightarrow> (channel \<times> bytes) option" where
  "drain_packets 0 R s = None"
| "drain_packets (Suc fuel) R s = (case s of (ch, buf) \<Rightarrow> do {
     (r, buf, ch) \<leftarrow> try_recv R ch buf;
     case r of Ok (Some x) \<Rightarrow> drain_packets fuel R (ch, buf) | _ \<Rightarrow> Some (ch, buf) })"

definition drain_poll :: "nat \<Rightarrow> host \<Rightarrow> ring_host \<Rightarrow> u64 \<Rightarrow> channel \<times> bytes \<times> world \<Rightarrow>
   (unit poll \<times> channel \<times> bytes \<times> world) option" where
  "drain_poll fuel H R deadline s = (case s of (ch, buf, w) \<Rightarrow> do {
     (ch, buf) \<leftarrow> drain_packets fuel R (ch, buf);
     let (t, w) = now H w in
     Some (if t \<ge> deadline then Ready () else Pending, ch, buf, w) })"

definition drain_recv :: "nat \<Rightarrow> host \<Rightarrow> ring_host \<Rightarrow> unit sv_run" where
  "drain_recv fuel H R s = (case s of (d, w) \<Rightarrow> let (t, w) = now H w in do {
     deadline \<leftarrow> instant_add t 10000;
     (u, ch, buf, w) \<leftarrow> block_on_with fuel (drain_poll fuel H R deadline) (\<lambda>s. s) (sv_channel d, zeros 256, w);
     done_with () (d\<lparr>sv_channel := ch\<rparr>, w) })"

section \<open>Initialisation\<close>

text \<open>
  The framebuffer is the given one (\<open>fb_mem\<close> is the memory behind its address) or fresh, zeroed
  DMA memory of the size rounded up to pages.
\<close>

definition init_protocol :: "nat \<Rightarrow> host \<Rightarrow> ring_host \<Rightarrow> unit sv_run" where
  "init_protocol fuel H R =
     try_op (negotiate_vid_version fuel H R) (\<lambda>u.
     try_op (drain_recv fuel H R) (\<lambda>u.
     try_op (set_vram_location fuel H R) (\<lambda>u.
     try_op (drain_recv fuel H R) (\<lambda>u.
     try_op (set_situation H R) (\<lambda>u.
     try_op (drain_recv fuel H R) (\<lambda>u.
     try_op (dirt_full H R) (\<lambda>u. drain_recv fuel H R)))))))"

definition choose_vram :: "host \<Rightarrow> nat \<Rightarrow> u64 option \<Rightarrow> u64 option \<Rightarrow> bytes \<Rightarrow> world \<Rightarrow> dma_region \<times> bytes \<times> world" where
  "choose_vram H vram_size fb_phys fb_vaddr fb_mem w = (let vram_alloc = (vram_size + 4095) div 4096 * 4096 in
     case (fb_phys, fb_vaddr) of
       (Some phys, Some va) \<Rightarrow> (\<lparr>vaddr = va, paddr = phys, dma_size = vram_alloc\<rparr>, fb_mem, w)
     | _ \<Rightarrow> let (region, w) = alloc_coherent H vram_alloc 4096 w in (region, zeros vram_alloc, w))"

definition synthvid_init :: "nat \<Rightarrow> host \<Rightarrow> ring_host \<Rightarrow> channel \<Rightarrow> u32 \<Rightarrow> u32 \<Rightarrow> u64 option \<Rightarrow> u64 option \<Rightarrow> bytes \<Rightarrow>
   world \<Rightarrow> ((synthvid_device, hv_error) result \<times> world) option" where
  "synthvid_init fuel H R ch width height fb_phys fb_vaddr fb_mem w = (let bpp = 32; stride = width in do {
     area \<leftarrow> mul32 width height;
     sz \<leftarrow> mul32 area (bpp div 8);
     let (vram, mem, w) = choose_vram H (unat sz) fb_phys fb_vaddr fb_mem w;
         dev = \<lparr>sv_channel = ch, sv_vram = vram, sv_width = width, sv_height = height, sv_bpp = bpp,
           sv_stride = stride, sv_next_txid = 1, sv_vram_mem = mem\<rparr> in do {
     (r, dev, w) \<leftarrow> init_protocol fuel H R (dev, w);
     Some (case r of Ok u \<Rightarrow> Ok dev | Err e \<Rightarrow> Err e, w) } })"

definition init_display :: "nat \<Rightarrow> host \<Rightarrow> ring_host \<Rightarrow> u32 \<Rightarrow> vmbus \<Rightarrow> u32 \<Rightarrow> u32 \<Rightarrow> u64 option \<Rightarrow> u64 option \<Rightarrow> bytes \<Rightarrow>
   u32 \<Rightarrow> world \<Rightarrow> ((synthvid_device option, hv_error) result \<times> u32 \<times> world) option" where
  "init_display fuel H R crash vb width height fb_phys fb_vaddr fb_mem g w = (case find_offer SYNTHVID vb of
       None \<Rightarrow> Some (Ok None, g, w)
     | Some offer \<Rightarrow> do {
         (r, g, w) \<leftarrow> open_channel fuel H crash offer (256 * 1024) (hcall vb) g w;
         case r of Err e \<Rightarrow> Some (Err e, g, w)
         | Ok ch \<Rightarrow> do {
             (r, w) \<leftarrow> synthvid_init fuel H R ch width height fb_phys fb_vaddr fb_mem w;
             Some (case r of Ok d \<Rightarrow> Ok (Some d) | Err e \<Rightarrow> Err e, g, w) } })"

definition put_pixel :: "synthvid_device \<Rightarrow> u32 \<Rightarrow> u32 \<Rightarrow> u8 \<Rightarrow> u8 \<Rightarrow> u8 \<Rightarrow> synthvid_device run" where
  "put_pixel d x y r g b =
     (if x \<ge> sv_width d \<or> y \<ge> sv_height d then Ret d
      else do {
        row \<leftarrow> mul32 y (sv_stride d);
        px \<leftarrow> add32 row x;
        off \<leftarrow> mul32 px 4;
        mem \<leftarrow> patch (unat off) [b, g, r, 0] (sv_vram_mem d);
        Ret (d\<lparr>sv_vram_mem := mem\<rparr>) })"

section \<open>Lemmas: messages\<close>

lemma patch_append:
  "length bs \<le> length ys \<Longrightarrow> patch (length xs) bs (xs @ ys) = Ret (xs @ bs @ drop (length bs) ys)"
  by (simp add: patch_def write_at_def)

lemma build_msg_bytes:
  assumes "16 + length body \<le> length buf"
  shows "build_msg ty body buf = Ret (16 + length body,
    le32 PIPE_MSG_DATA @ le32 (of_nat (8 + length body)) @ le32 ty @ le32 (of_nat (8 + length body)) @ body @
    drop (16 + length body) buf)"
proof -
  let ?p = "le32 PIPE_MSG_DATA" and ?n = "le32 (of_nat (8 + length body))" and ?t = "le32 ty"
  have "patch 0 ?p buf = Ret (?p @ drop 4 buf)"
    using assms patch_append [of ?p buf "[]"] by simp
  moreover have "patch 4 ?n (?p @ drop 4 buf) = Ret (?p @ ?n @ drop 8 buf)"
    using assms patch_append [of ?n "drop 4 buf" ?p] by simp
  moreover have "patch 8 ?t (?p @ ?n @ drop 8 buf) = Ret (?p @ ?n @ ?t @ drop 12 buf)"
    using assms patch_append [of ?t "drop 8 buf" "?p @ ?n"] by simp
  moreover have "patch 12 ?n (?p @ ?n @ ?t @ drop 12 buf) = Ret (?p @ ?n @ ?t @ ?n @ drop 16 buf)"
    using assms patch_append [of ?n "drop 12 buf" "?p @ ?n @ ?t"] by simp
  moreover have "patch 16 body (?p @ ?n @ ?t @ ?n @ drop 16 buf) =
      Ret (?p @ ?n @ ?t @ ?n @ body @ drop (16 + length body) buf)"
    using assms patch_append [of body "drop 16 buf" "?p @ ?n @ ?t @ ?n"] by (simp add: add.commute)
  ultimately show ?thesis using assms by (simp add: build_msg_def Let_def assert_run_def)
qed

lemma vid_message_roundtrip:
  assumes "build_msg ty body buf = Ret (len, msg)" "length buf < 2 ^ 32"
  shows "parse_vid_type (take len msg) = Some ty" "get32 0 msg = PIPE_MSG_DATA"
    "unat (get32 4 msg) = len - 8" "get32 12 msg = get32 4 msg" "take (len - 16) (drop 16 msg) = body"
proof -
  have fit: "16 + length body \<le> length buf"
    using assms(1) by (auto simp: build_msg_def Let_def assert_run_def split: if_splits)
  define n :: u32 where "n = of_nat (8 + length body)"
  have m: "len = 16 + length body"
    "msg = le32 PIPE_MSG_DATA @ le32 n @ le32 ty @ le32 n @ body @ drop (16 + length body) buf"
    using assms(1) build_msg_bytes [OF fit, of ty] by (auto simp: n_def)
  have "unat n = 8 + length body"
    using fit assms(2) unfolding n_def by (subst unat_of_nat) (simp add: take_bit_eq_mod)
  then show "parse_vid_type (take len msg) = Some ty" "get32 0 msg = PIPE_MSG_DATA"
    "unat (get32 4 msg) = len - 8" "get32 12 msg = get32 4 msg" "take (len - 16) (drop 16 msg) = body"
    by (simp_all add: m parse_vid_type_def slice_simps)
qed

section \<open>Lemmas: the framebuffer\<close>

text \<open>
  The invariant of a device: the screen fits 32-bit byte offsets and the framebuffer memory.  No
  protocol step changes what it speaks about.
\<close>

definition vid_inv :: "synthvid_device \<Rightarrow> bool" where
  "vid_inv d \<longleftrightarrow> sv_stride d = sv_width d \<and> unat (sv_width d) * unat (sv_height d) * 4 < 2 ^ 32 \<and>
     unat (sv_width d) * unat (sv_height d) * 4 \<le> length (sv_vram_mem d)"

definition pixel_at :: "synthvid_device \<Rightarrow> u32 \<Rightarrow> u32 \<Rightarrow> bytes" where
  "pixel_at d x y = take 4 (drop ((unat y * unat (sv_width d) + unat x) * 4) (sv_vram_mem d))"

definition on_screen :: "synthvid_device \<Rightarrow> u32 \<Rightarrow> u32 \<Rightarrow> bool" where
  "on_screen d x y \<longleftrightarrow> x < sv_width d \<and> y < sv_height d"

definition same_screen :: "synthvid_device \<Rightarrow> synthvid_device \<times> world \<Rightarrow> bool" where
  "same_screen d0 s \<longleftrightarrow> sv_vram (fst s) = sv_vram d0 \<and> sv_width (fst s) = sv_width d0 \<and>
     sv_height (fst s) = sv_height d0 \<and> sv_stride (fst s) = sv_stride d0 \<and> sv_vram_mem (fst s) = sv_vram_mem d0"

lemma send_msg_screen [intro]: "keeps (same_screen d0) (send_msg H R ty body n)"
  by (auto simp: keeps_def send_msg_def same_screen_def Let_def bind_eq_Some_conv split: prod.split_asm)

lemma await_msg_screen [intro]: "keeps (same_screen d0) (await_msg fuel H R)"
  by (auto simp: keeps_def await_msg_def same_screen_def bind_eq_Some_conv split: prod.split_asm)

lemma drain_recv_screen [intro]: "keeps (same_screen d0) (drain_recv fuel H R)"
  by (auto simp: keeps_def drain_recv_def same_screen_def done_with_def Let_def bind_eq_Some_conv split: prod.split_asm)

lemma dirty_rect_screen [intro]: "keeps (same_screen d0) (dirty_rect H R x y w h)"
  unfolding keeps_def dirty_rect_def by (auto simp: bind_eq_Some_conv dest: keeps_D [OF send_msg_screen])

lemma dirt_full_screen [intro]: "keeps (same_screen d0) (dirt_full H R)"
  unfolding keeps_def dirt_full_def by (auto dest: keeps_D [OF dirty_rect_screen])

lemma set_situation_screen [intro]: "keeps (same_screen d0) (set_situation H R)"
  unfolding keeps_def set_situation_def by (auto simp: bind_eq_Some_conv dest: keeps_D [OF send_msg_screen])

lemma version_reply_screen:
  assumes "keeps (same_screen d0) m"
  shows "keeps (same_screen d0) (\<lambda>s. if c then do { a \<leftarrow> nth_run buf 20;
    if a \<noteq> 0 then done_with () s else m s } else m s)"
  using assms unfolding keeps_def by (auto simp: bind_eq_Some_conv done_with_def split: if_split_asm)

lemma negotiate_versions_screen: "keeps (same_screen d0) (negotiate_versions fuel H R vs)"
  by (induction vs) (auto simp: case_prod_beta' intro!: keeps_try_op version_reply_screen)

lemma negotiate_vid_version_screen [intro]: "keeps (same_screen d0) (negotiate_vid_version fuel H R)"
  by (simp add: negotiate_vid_version_def negotiate_versions_screen del: negotiate_versions.simps)

lemma set_vram_location_screen [intro]: "keeps (same_screen d0) (set_vram_location fuel H R)"
proof -
  have "keeps (same_screen d0) (try_op (send_msg H R ty body n) (\<lambda>u.
     try_op (await_msg fuel H R) (\<lambda>(rlen, buf).
       if rlen \<ge> 16 \<and> parse_vid_type buf = Some SYNTHVID_VRAM_LOCATION_ACK then done_with ()
       else fail_with Timeout)))" for ty body n
    by (intro keeps_try_op send_msg_screen await_msg_screen) (auto split: prod.split)
  then show ?thesis
    unfolding keeps_def set_vram_location_def by blast
qed

lemma init_protocol_screen: "keeps (same_screen d0) (init_protocol fuel H R)"
  unfolding init_protocol_def by (intro keeps_try_op) auto

lemma unat_mul32: "mul32 a b = Ret c \<Longrightarrow> unat c = unat a * unat b"
  by (auto simp: mul32_def unat_word_ariths split: if_splits)

lemma pixel_index:
  assumes "x < w" "y < (h :: nat)"
  shows "y * w + x < w * h" "y * w + x = y' * w + x' \<Longrightarrow> x' < w \<Longrightarrow> x = x' \<and> y = y'"
proof -
  have "Suc y * w \<le> h * w" using assms(2) by (intro mult_le_mono1) simp
  then show "y * w + x < w * h" using assms(1) by (simp add: mult.commute)
  assume e: "y * w + x = y' * w + x'" and x': "x' < w"
  have "x = x'" using arg_cong [OF e, of "\<lambda>k. k mod w"] assms(1) x' by simp
  then show "x = x' \<and> y = y'" using e assms(1) by simp
qed

lemma take_write_block:
  assumes "length bs = 4" "j * 4 + 4 \<le> length mem"
  shows "take 4 (drop (i * 4) (write_at (j * 4) bs mem)) = (if i = j then bs else take 4 (drop (i * 4) mem))"
proof (cases "i = j")
  case True then show ?thesis using assms by (simp add: write_at_def)
next
  case False
  then have "i * 4 + k < j * 4 \<or> j * 4 + 4 \<le> i * 4 + k" if "k < 4" for k using that by linarith
  then show ?thesis using False assms by (intro nth_equalityI) (auto simp: nth_write_at)
qed

lemma put_pixel_on_screen:
  assumes "vid_inv d" "on_screen d x y"
  shows "put_pixel d x y r g b = Ret (d\<lparr>sv_vram_mem :=
      write_at ((unat y * unat (sv_width d) + unat x) * 4) [b, g, r, 0] (sv_vram_mem d)\<rparr>)"
    "(unat y * unat (sv_width d) + unat x) * 4 + 4 \<le> length (sv_vram_mem d)"
proof -
  let ?w = "unat (sv_width d)" and ?h = "unat (sv_height d)"
  let ?k = "unat y * ?w + unat x"
  have lt: "unat x < ?w" "unat y < ?h" using assms(2) by (simp_all add: on_screen_def word_less_nat_alt)
  have k: "?k < ?w * ?h" by (rule pixel_index(1) [OF lt])
  have b: "?w * ?h * 4 < 2 ^ 32" "?w * ?h * 4 \<le> length (sv_vram_mem d)" "sv_stride d = sv_width d"
    using assms(1) by (simp_all add: vid_inv_def)
  have "?k * 4 < ?w * ?h * 4" using k by simp
  then have s3: "?k * 4 < 2 ^ 32" using b(1) by (rule less_trans)
  then have s: "?k < 2 ^ 32" "unat y * ?w < 2 ^ 32" "?k * 4 < 2 ^ 32" by simp_all
  have "Suc ?k * 4 \<le> ?w * ?h * 4" using k by (intro mult_le_mono1 Suc_leI)
  then have "Suc ?k * 4 \<le> length (sv_vram_mem d)" using b(2) by (rule le_trans)
  then show fit: "?k * 4 + 4 \<le> length (sv_vram_mem d)" by simp
  have on: "\<not> x \<ge> sv_width d" "\<not> y \<ge> sv_height d" using assms(2) by (auto simp: on_screen_def dest: leD)
  have row: "mul32 y (sv_stride d) = Ret (y * sv_width d)" "unat (y * sv_width d) = unat y * ?w"
    using s(2) b(3) by (simp_all add: mul32_def unat_word_ariths)
  have px: "add32 (y * sv_width d) x = Ret (y * sv_width d + x)" "unat (y * sv_width d + x) = ?k"
    using s(1) row(2) by (simp_all add: add32_def unat_word_ariths)
  have off: "mul32 (y * sv_width d + x) 4 = Ret ((y * sv_width d + x) * 4)" "unat ((y * sv_width d + x) * 4) = ?k * 4"
    using s(3) px(2) by (simp_all add: mul32_def unat_word_ariths)
  show "put_pixel d x y r g b = Ret (d\<lparr>sv_vram_mem := write_at (?k * 4) [b, g, r, 0] (sv_vram_mem d)\<rparr>)"
    using on row px off fit by (simp add: put_pixel_def patch_def)
qed

lemma put_pixel_spec:
  assumes "vid_inv d"
  shows "\<exists>d'. put_pixel d x y r g b = Ret d' \<and> vid_inv d' \<and>
    sv_width d' = sv_width d \<and> sv_height d' = sv_height d \<and>
    (\<forall>x' y'. on_screen d x' y' \<longrightarrow>
       pixel_at d' x' y' = (if x' = x \<and> y' = y then [b, g, r, 0] else pixel_at d x' y'))"
proof (cases "on_screen d x y")
  case True
  note p = put_pixel_on_screen [OF assms True]
  let ?d = "d\<lparr>sv_vram_mem := write_at ((unat y * unat (sv_width d) + unat x) * 4) [b, g, r, 0] (sv_vram_mem d)\<rparr>"
  have inv: "vid_inv ?d" using assms p(2) by (simp add: vid_inv_def)
  have "pixel_at ?d x' y' = (if x' = x \<and> y' = y then [b, g, r, 0] else pixel_at d x' y')" if "on_screen d x' y'" for x' y'
  proof -
    have "unat y * unat (sv_width d) + unat x = unat y' * unat (sv_width d) + unat x' \<Longrightarrow> x = x' \<and> y = y'"
      using pixel_index(2) [of "unat x" "unat (sv_width d)" "unat y" "unat (sv_height d)" "unat y'" "unat x'"] True that
      by (simp add: on_screen_def word_less_nat_alt word_unat_eq_iff)
    then show ?thesis
      using take_write_block [OF _ p(2), of "[b, g, r, 0]" "unat y' * unat (sv_width d) + unat x'"]
      unfolding pixel_at_def by (auto simp del: distrib_right_numeral)
  qed
  with p(1) inv show ?thesis by simp
next
  case False
  then have "put_pixel d x y r g b = Ret d" by (auto simp: put_pixel_def on_screen_def not_le)
  with False assms show ?thesis by auto
qed

lemma choose_vram_size:
  assumes "choose_vram H n fb_phys fb_vaddr fb_mem w = (vram, mem, w')"
    and "fb_phys \<noteq> None \<Longrightarrow> fb_vaddr \<noteq> None \<Longrightarrow> n \<le> length fb_mem"
  shows "n \<le> length mem"
proof -
  have "n \<le> (n + 4095) div 4096 * 4096"
    using div_mult_mod_eq [of "n + 4095" 4096] mod_less_divisor [of 4096 "n + 4095"] by linarith
  with assms show ?thesis by (auto simp: choose_vram_def alloc_coherent_def Let_def split: option.splits)
qed

lemma choose_vram_clock: "choose_vram H n fb_phys fb_vaddr fb_mem w = (vram, mem, w') \<Longrightarrow> clock_reads w' = clock_reads w"
  by (auto simp: choose_vram_def alloc_coherent_def Let_def split: option.splits)

lemma synthvid_init_inv:
  assumes "synthvid_init fuel H R ch width height fb_phys fb_vaddr fb_mem w = Some (Ok d, w')"
    and "fb_phys \<noteq> None \<Longrightarrow> fb_vaddr \<noteq> None \<Longrightarrow> unat width * unat height * 4 \<le> length fb_mem"
  shows "vid_inv d \<and> sv_width d = width \<and> sv_height d = height"
proof -
  from assms(1) obtain area sz where m: "mul32 width height = Ret area" "mul32 area (32 div 8) = Ret sz"
    by (auto simp: synthvid_init_def Let_def bind_eq_Some_conv)
  have sz: "unat sz = unat width * unat height * 4"
    using unat_mul32 [OF m(1)] unat_mul32 [OF m(2)] by simp
  from assms(1) m obtain vram mem w1 dev where
    mem: "choose_vram H (unat sz) fb_phys fb_vaddr fb_mem w = (vram, mem, w1)" and
    run: "init_protocol fuel H R (\<lparr>sv_channel = ch, sv_vram = vram, sv_width = width, sv_height = height, sv_bpp = 32,
        sv_stride = width, sv_next_txid = 1, sv_vram_mem = mem\<rparr>, w1) = Some (Ok (), dev, w')" and d: "d = dev"
    by (auto simp: synthvid_init_def Let_def bind_eq_Some_conv split: prod.splits result.splits)
  note keeps_D [OF init_protocol_screen run]
  from this [of "\<lparr>sv_channel = ch, sv_vram = vram, sv_width = width, sv_height = height, sv_bpp = 32,
        sv_stride = width, sv_next_txid = 1, sv_vram_mem = mem\<rparr>"]
  have "sv_width dev = width \<and> sv_height dev = height \<and> sv_stride dev = width \<and> sv_vram_mem dev = mem"
    by (simp add: same_screen_def)
  moreover have "unat width * unat height * 4 \<le> length mem" using choose_vram_size [OF mem] assms(2) sz by simp
  moreover have "unat sz < 2 ^ 32" using unat_less2p [of sz] by simp
  ultimately show ?thesis using sz d by (simp add: vid_inv_def)
qed

text \<open>A sequence of pixel writes, and what it leaves at one position.\<close>

type_synonym pixel_write = "u32 \<times> u32 \<times> u8 \<times> u8 \<times> u8"

fun put_pixels :: "synthvid_device \<Rightarrow> pixel_write list \<Rightarrow> synthvid_device run" where
  "put_pixels d [] = Ret d"
| "put_pixels d ((x, y, r, g, b) # ps) = do { d \<leftarrow> put_pixel d x y r g b; put_pixels d ps }"

fun painted :: "u32 \<Rightarrow> u32 \<Rightarrow> bytes \<Rightarrow> pixel_write list \<Rightarrow> bytes" where
  "painted x y old [] = old"
| "painted x y old ((x', y', r, g, b) # ps) = painted x y (if x = x' \<and> y = y' then [b, g, r, 0] else old) ps"

lemma put_pixels_spec:
  assumes "vid_inv d"
  shows "\<exists>d'. put_pixels d ps = Ret d' \<and> (\<forall>x y. on_screen d x y \<longrightarrow> pixel_at d' x y = painted x y (pixel_at d x y) ps)"
  using assms
proof (induction d ps rule: put_pixels.induct)
  case (2 d x y r g b ps)
  from put_pixel_spec [OF 2(2)] obtain d1 where p: "put_pixel d x y r g b = Ret d1" "vid_inv d1"
    "sv_width d1 = sv_width d" "sv_height d1 = sv_height d"
    "\<And>x' y'. on_screen d x' y' \<Longrightarrow> pixel_at d1 x' y' = (if x' = x \<and> y' = y then [b, g, r, 0] else pixel_at d x' y')"
    by blast
  from 2(1) [OF p(1,2)] obtain d' where
    "put_pixels d1 ps = Ret d'" "\<forall>x y. on_screen d1 x y \<longrightarrow> pixel_at d' x y = painted x y (pixel_at d1 x y) ps" by blast
  with p show ?case by (simp add: on_screen_def)
qed simp

section \<open>Lemmas: a cooperating host\<close>

text \<open>
  A host that keeps room in the outgoing ring, accepts the first version and acknowledges the
  framebuffer, and a clock that advances by ten milliseconds between reads, complete the handshake.
  Ring turns and clock reads are counted: the turns 1 and 4 are the two receives.
\<close>

definition cooperative :: "ring_host \<Rightarrow> bool" where
  "cooperative R \<longleftrightarrow>
     (\<forall>n s. ring_inv (fst (R n s)) \<and> 72 < data_size (fst (R n s)) - fill (fst (R n s))) \<and>
     (\<forall>s. \<exists>e body. ring_holds (snd (R 1 s)) [(e, body)] \<and> offset8 e = 2 \<and> 22 \<le> length body \<and> length body \<le> 256 \<and>
        get32 8 body = SYNTHVID_VERSION_RESPONSE \<and> body ! 20 \<noteq> 0) \<and>
     (\<forall>s. \<exists>e body. ring_holds (snd (R 4 s)) [(e, body)] \<and> offset8 e = 2 \<and> 16 \<le> length body \<and> length body \<le> 256 \<and>
        get32 8 body = SYNTHVID_VRAM_LOCATION_ACK) \<and>
     (\<forall>n s. n \<noteq> 1 \<longrightarrow> n \<noteq> 4 \<longrightarrow> ring_holds (snd (R n s)) [])"

definition ticking :: "host \<Rightarrow> bool" where
  "ticking H \<longleftrightarrow> (\<forall>n < 20. unat (clock H n) + 2000000 < 2 ^ 64 \<and>
     unat (clock H n) + 10000 \<le> unat (clock H (Suc n)))"

definition at_step :: "nat \<Rightarrow> nat \<Rightarrow> u64 \<Rightarrow> synthvid_device \<times> world \<Rightarrow> bool" where
  "at_step t c x s \<longleftrightarrow> ch_turns (sv_channel (fst s)) = t \<and> clock_reads (snd s) = c \<and> sv_next_txid (fst s) = x"

lemma recv_packet_inband: "offset8 d = 2 \<Longrightarrow> ring_holds r ((d, body) # ps) \<Longrightarrow> recv_packet r buf = recv_packet_raw r buf"
  using recv_head_cons(1) [of r d body ps] by (simp add: recv_packet_def recv_packet_raw_def Let_def)

lemma try_recv_empty:
  assumes "ring_holds (snd (R (ch_turns ch) (ch_send ch, ch_recv ch))) []"
  shows "\<exists>ch'. try_recv R ch buf = Ret (Ok None, buf, ch') \<and> ch_turns ch' = Suc (ch_turns ch)"
proof -
  have "ring_holds (ch_recv (ring_turn R ch)) []"
    using assms by (simp add: ring_turn_def case_prod_beta)
  from recv_head_empty [OF this] show ?thesis
    by (simp add: try_recv_def recv_packet_def map_ring_err_def Let_def)
qed

lemma try_recv_packet:
  assumes "ring_holds (snd (R (ch_turns ch) (ch_send ch, ch_recv ch))) [(e, body)]" "offset8 e = 2"
  shows "\<exists>ch'. try_recv R ch buf = Ret (Ok (Some (e, min (length body) (length buf))),
      write_at 0 (take (length buf) body) buf, ch') \<and> ch_turns ch' = Suc (ch_turns ch)"
proof -
  have h: "ring_holds (ch_recv (ring_turn R ch)) [(e, body)]"
    using assms(1) by (simp add: ring_turn_def case_prod_beta)
  show ?thesis
    using recv_packet_inband [OF assms(2) h] recv_packet_raw_cons [OF h, of buf]
    by (simp add: try_recv_def map_ring_err_def Let_def)
qed

lemma chan_send_raw_room:
  assumes "\<And>n s. ring_inv (fst (R n s)) \<and> 72 < data_size (fst (R n s)) - fill (fst (R n s))" "length payload \<le> 48"
  shows "\<exists>ch' w'. chan_send_raw H R ch payload tid w = Ret (Ok (), ch', w') \<and>
    ch_turns ch' = Suc (ch_turns ch) \<and> clock_reads w' = clock_reads w"
proof -
  let ?q = "ch_send (ring_turn R ch)"
  have "?q = fst (R (ch_turns ch) (ch_send ch, ch_recv ch))" by (simp add: ring_turn_def split: prod.split)
  then have q: "ring_inv ?q" "72 < data_size ?q - fill ?q" using assms(1) by simp_all
  have "align8 (16 + length payload) + 8 \<le> 72" using assms(2) by (simp add: align8_def)
  then have sp: "align8 (16 + length payload) + 8 < data_size ?q - fill ?q" using q(2) by (rule le_less_trans)
  obtain d body where "(d, body) = frame_packet 16 VM_PKT_DATA_INBAND 0 tid (concat []) payload" by (metis surj_pair)
  from send_frame_stream [OF q(1) sp _ this] obtain q' where "send_packet ?q payload tid 0 = Ret (Ok (), q')"
    by (auto simp: send_packet_def)
  then show ?thesis
    by (simp add: chan_send_raw_def finish_send_def Let_def signal_event_def raw_call_def case_prod_beta)
qed

lemma send_step:
  assumes "cooperative R" "16 + length body \<le> n" "length body \<le> 32" "x \<noteq> - 1"
  shows "reaches (at_step t c x) (send_msg H R ty body n) (\<lambda>u. at_step (Suc t) c (x + 1))"
  unfolding reaches_def
proof (intro allI impI)
  fix s assume a: "at_step t c x s"
  obtain d w where s: "s = (d, w)" by (cases s)
  note b = build_msg_bytes [of body "zeros n" ty, simplified, OF assms(2)]
  obtain msg where m: "build_msg ty body (zeros n) = Ret (16 + length body, msg)" using b by blast
  have "length (take (16 + length body) msg) \<le> 48" using assms(3) by simp
  moreover have "\<And>n s. ring_inv (fst (R n s)) \<and> 72 < data_size (fst (R n s)) - fill (fst (R n s))"
    using assms(1) unfolding cooperative_def by blast
  ultimately obtain ch' w' where
    "chan_send_raw H R (sv_channel d) (take (16 + length body) msg) x w = Ret (Ok (), ch', w')"
    "ch_turns ch' = Suc (ch_turns (sv_channel d))" "clock_reads w' = clock_reads w"
    using chan_send_raw_room [of R "take (16 + length body) msg" H "sv_channel d" x w] by blast
  with a m assms(4) show "\<exists>u s'. send_msg H R ty body n s = Ret (Ok u, s') \<and> at_step (Suc t) c (x + 1) s'"
    by (simp add: s at_step_def send_msg_def Let_def assert_run_def)
qed

lemma await_step:
  assumes "ticking H" "c < 20" "0 < fuel" "\<And>s. \<exists>e body. ring_holds (snd (R t s)) [(e, body)] \<and> offset8 e = 2 \<and>
      length body \<le> 256 \<and> P body"
  shows "reaches (at_step t c x) (await_msg fuel H R) (\<lambda>(rlen, buf) s. at_step (Suc t) (Suc c) x s \<and>
    length buf = 256 \<and> P (take rlen buf) \<and> rlen \<le> 256)"
  unfolding reaches_def
proof (intro allI impI)
  fix s assume a: "at_step t c x s"
  obtain d w where s: "s = (d, w)" by (cases s)
  let ?ch = "sv_channel d" and ?w = "w\<lparr>clock_reads := Suc (clock_reads w)\<rparr>"
  have t: "ch_turns ?ch = t" "clock_reads w = c" using a by (simp_all add: at_step_def s)
  from assms(4) obtain e body where p: "ring_holds (snd (R t (ch_send ?ch, ch_recv ?ch))) [(e, body)]"
    "offset8 e = 2" "length body \<le> 256" "P body" by blast
  from try_recv_packet [of R ?ch e body "zeros 256"] p(1,2) t(1) obtain ch' where
    r: "try_recv R ?ch (zeros 256) = Ret (Ok (Some (e, min (length body) 256)),
        write_at 0 (take 256 body) (zeros 256), ch')" "ch_turns ch' = Suc t" by auto
  obtain f where f: "fuel = Suc f" using assms(3) by (cases fuel) auto
  have "unat (clock H c) + 2000000 < 2 ^ 64" using assms(1,2) by (simp add: ticking_def)
  then have "instant_add (clock H c) 2000000 = Ret (clock H c + 2000000)" by (simp add: instant_add_def)
  then have rc: "recv_with_timeout fuel H R ?ch (zeros 256) 2000000 w =
      Some (Ok (e, length body), ch', write_at 0 body (zeros 256), ?w)"
    using r(1) p(3) t(2) by (simp add: recv_with_timeout_def now_def f wait_for_packet_poll_def)
  have w: "length (write_at 0 body (zeros 256)) = 256" "take (length body) (write_at 0 body (zeros 256)) = body"
    using p(3) by simp_all
  show "\<exists>y s'. await_msg fuel H R s = Ret (Ok y, s') \<and> (case y of (rlen, buf) \<Rightarrow> \<lambda>s. at_step (Suc t) (Suc c) x s \<and>
      length buf = 256 \<and> P (take rlen buf) \<and> rlen \<le> 256) s'"
    using a rc w p(3,4) r(2) by (simp add: s await_msg_def at_step_def)
qed

lemma drain_step:
  assumes "cooperative R" "ticking H" "t \<noteq> 1" "t \<noteq> 4" "c < 19" "0 < fuel"
  shows "reaches (at_step t c x) (drain_recv fuel H R) (\<lambda>u. at_step (Suc t) (Suc (Suc c)) x)"
  unfolding reaches_def
proof (intro allI impI)
  fix s assume a: "at_step t c x s"
  obtain d w where s: "s = (d, w)" by (cases s)
  have t: "ch_turns (sv_channel d) = t" "clock_reads w = c" using a by (simp_all add: at_step_def s)
  have "ring_holds (snd (R t (ch_send (sv_channel d), ch_recv (sv_channel d)))) []"
    using assms(1,3,4) by (simp add: cooperative_def)
  then obtain ch' where r: "try_recv R (sv_channel d) (zeros 256) = Ret (Ok None, zeros 256, ch')" "ch_turns ch' = Suc t"
    using try_recv_empty [of R "sv_channel d"] t(1) by auto
  obtain f where f: "fuel = Suc f" using assms(6) by (cases fuel) auto
  have k: "unat (clock H c) + 2000000 < 2 ^ 64" "unat (clock H c) + 10000 \<le> unat (clock H (Suc c))"
    using assms(2,5) by (simp_all add: ticking_def)
  then have i: "instant_add (clock H c) 10000 = Ret (clock H c + 10000)" "clock H c + 10000 \<le> clock H (Suc c)"
    by (simp_all add: instant_add_def word_le_nat_alt unat_word_ariths)
  show "\<exists>u s'. drain_recv fuel H R s = Ret (Ok u, s') \<and> at_step (Suc t) (Suc (Suc c)) x s'"
    using a t r i by (simp add: s f drain_recv_def drain_poll_def now_def Let_def done_with_def at_step_def)
qed

lemma take_get32: "off + 4 \<le> n \<Longrightarrow> get32 off (take n bs) = get32 off bs"
  by (simp add: get32_def drop_take min_def)

lemma negotiate_step:
  assumes "cooperative R" "ticking H" "0 < fuel"
  shows "reaches (at_step 0 0 1) (negotiate_vid_version fuel H R) (\<lambda>u. at_step 2 1 2)"
proof -
  let ?P = "\<lambda>body. 22 \<le> length body \<and> get32 8 body = SYNTHVID_VERSION_RESPONSE \<and> body ! 20 \<noteq> 0"
  have "\<exists>e body. ring_holds (snd (R 1 s)) [(e, body)] \<and> offset8 e = 2 \<and> length body \<le> 256 \<and> ?P body" for s
    using assms(1) unfolding cooperative_def by blast
  then have aw: "reaches (at_step (Suc 0) 0 2) (await_msg fuel H R) (\<lambda>(rlen, buf) s. at_step (Suc (Suc 0)) (Suc 0) 2 s \<and>
      length buf = 256 \<and> ?P (take rlen buf) \<and> rlen \<le> 256)"
    using await_step [OF assms(2) _ assms(3), of 0 R "Suc 0" ?P 2] by simp
  have "reaches (case y of (rlen, buf) \<Rightarrow> \<lambda>s. at_step (Suc (Suc 0)) (Suc 0) 2 s \<and> length buf = 256 \<and> ?P (take rlen buf) \<and> rlen \<le> 256)
     (case y of (rlen, buf) \<Rightarrow> \<lambda>s. if rlen \<ge> 22 \<and> parse_vid_type buf = Some SYNTHVID_VERSION_RESPONSE then do {
         is_accepted \<leftarrow> nth_run buf 20;
         if is_accepted \<noteq> 0 then done_with () s else m s } else m s) (\<lambda>u. at_step 2 1 2)" for y m
    by (cases y) (auto simp: reaches_def parse_vid_type_def nth_run_def done_with_def take_get32 numeral_2_eq_2)
  moreover have "reaches (at_step 0 0 1) (send_msg H R SYNTHVID_VERSION_REQUEST (le32 SYNTHVID_VERSION_WIN10) 32)
      (\<lambda>u. at_step (Suc 0) 0 2)"
    using send_step [OF assms(1), of "le32 SYNTHVID_VERSION_WIN10" 32 1 0 0 H] by simp
  ultimately show ?thesis
    unfolding negotiate_vid_version_def negotiate_versions.simps using aw by (intro reaches_try_op)
qed

lemma set_vram_step:
  assumes "cooperative R" "ticking H" "0 < fuel"
  shows "reaches (at_step 3 3 2) (set_vram_location fuel H R) (\<lambda>u. at_step 5 4 3)"
proof -
  let ?P = "\<lambda>body. 16 \<le> length body \<and> get32 8 body = SYNTHVID_VRAM_LOCATION_ACK"
  have "\<exists>e body. ring_holds (snd (R 4 s)) [(e, body)] \<and> offset8 e = 2 \<and> length body \<le> 256 \<and> ?P body" for s
    using assms(1) unfolding cooperative_def by blast
  then have aw: "reaches (at_step 4 3 3) (await_msg fuel H R) (\<lambda>(rlen, buf) s. at_step 5 4 3 s \<and>
      length buf = 256 \<and> ?P (take rlen buf) \<and> rlen \<le> 256)"
    using await_step [OF assms(2) _ assms(3), of 3 R 4 ?P 3] by simp
  have fin: "reaches (case y of (rlen, buf) \<Rightarrow> \<lambda>s. at_step 5 4 3 s \<and> length buf = 256 \<and> ?P (take rlen buf) \<and> rlen \<le> 256)
     (case y of (rlen, buf) \<Rightarrow> if rlen \<ge> 16 \<and> parse_vid_type buf = Some SYNTHVID_VRAM_LOCATION_ACK then done_with ()
       else fail_with Timeout) (\<lambda>u. at_step 5 4 3)" for y
    by (cases y) (auto simp: reaches_def parse_vid_type_def done_with_def take_get32)
  have "reaches (at_step 3 3 2) (send_msg H R SYNTHVID_VRAM_LOCATION (vram_location_body a) 48)
      (\<lambda>u. at_step 4 3 3)" for a
    using send_step [OF assms(1), of "vram_location_body a" 48 2 3 3 H] by (simp add: vram_location_body_def)
  then have "reaches (at_step 3 3 2) (try_op (send_msg H R SYNTHVID_VRAM_LOCATION (vram_location_body a) 48) (\<lambda>u.
     try_op (await_msg fuel H R) (\<lambda>(rlen, buf).
       if rlen \<ge> 16 \<and> parse_vid_type buf = Some SYNTHVID_VRAM_LOCATION_ACK then done_with ()
       else fail_with Timeout))) (\<lambda>u. at_step 5 4 3)" for a
    using aw fin by (intro reaches_try_op)
  then show ?thesis unfolding reaches_def set_vram_location_def by blast
qed

lemma set_situation_step:
  assumes "cooperative R" "unat width * 4 < 2 ^ 32"
  shows "reaches (\<lambda>s. at_step 6 6 3 s \<and> sv_width (fst s) = width) (set_situation H R) (\<lambda>u. at_step 7 6 4)"
proof -
  have "reaches (at_step 6 6 3) (send_msg H R SYNTHVID_SITUATION_UPDATE (situation_body width h p) 64)
      (\<lambda>u. at_step 7 6 4)" for h p
    using send_step [OF assms(1), of "situation_body width h p" 64 3 6 6 H] by (simp add: situation_body_def)
  moreover have "mul32 width 4 = Ret (width * 4)" using assms(2) by (simp add: mul32_def)
  ultimately show ?thesis unfolding reaches_def set_situation_def by auto
qed

lemma dirt_full_step:
  assumes "cooperative R"
  shows "reaches (at_step 8 8 4) (dirt_full H R) (\<lambda>u. at_step 9 8 5)"
proof -
  have "add_i32 0 v = Ret v" for v
    using sint_ge [of v] sint_lt [of v] by (simp add: add_i32_def)
  moreover have "reaches (at_step 8 8 4) (send_msg H R SYNTHVID_DIRT ([0, 1] @ le32 a @ le32 b @ le32 c @ le32 d) 64)
      (\<lambda>u. at_step 9 8 5)" for a b c d
    using send_step [OF assms(1), of "[0, 1] @ le32 a @ le32 b @ le32 c @ le32 d" 64 4 8 8 H] by simp
  ultimately show ?thesis unfolding reaches_def dirt_full_def dirty_rect_def by auto
qed

lemma init_protocol_step:
  assumes "cooperative R" "ticking H" "0 < fuel" "unat (sv_width d0) * 4 < 2 ^ 32"
  shows "reaches (\<lambda>s. at_step 0 0 1 s \<and> same_screen d0 s) (init_protocol fuel H R)
    (\<lambda>u s. at_step 10 10 5 s \<and> same_screen d0 s)"
proof -
  have dr: "reaches (\<lambda>s. at_step t c x s \<and> same_screen d0 s) (drain_recv fuel H R)
      (\<lambda>u s. at_step t' c' x s \<and> same_screen d0 s)"
    if "t \<noteq> 1" "t \<noteq> 4" "c < 19" "t' = Suc t" "c' = Suc (Suc c)" for t c x t' c'
    using reaches_keeps [OF drain_step [OF assms(1,2) that(1-3) assms(3)] drain_recv_screen] that(4,5) by simp
  have "reaches (\<lambda>s. at_step 6 6 3 s \<and> same_screen d0 s) (set_situation H R) (\<lambda>u s. at_step 7 6 4 s)"
    using set_situation_step [OF assms(1,4), of H] unfolding reaches_def same_screen_def by blast
  then have si: "reaches (\<lambda>s. at_step 6 6 3 s \<and> same_screen d0 s) (set_situation H R)
      (\<lambda>u s. at_step 7 6 4 s \<and> same_screen d0 s)"
    using set_situation_screen [of d0 H R] unfolding reaches_def keeps_def by blast
  note steps = reaches_keeps [OF negotiate_step [OF assms(1-3)] negotiate_vid_version_screen]
    reaches_keeps [OF set_vram_step [OF assms(1-3)] set_vram_location_screen]
    reaches_keeps [OF dirt_full_step [OF assms(1)] dirt_full_screen]
  show ?thesis unfolding init_protocol_def
    by (rule reaches_try_op [OF steps(1)], rule reaches_try_op [OF dr, of _ _ 3 3], simp_all,
        rule reaches_try_op [OF steps(2)], rule reaches_try_op [OF dr, of _ _ 6 6], simp_all,
        rule reaches_try_op [OF si], rule reaches_try_op [OF dr, of _ _ 8 8], simp_all,
        rule reaches_try_op [OF steps(3)], rule dr) simp_all
qed

lemma synthvid_init_returns:
  assumes "cooperative R" "ticking H" "0 < fuel" "ch_turns ch = 0" "clock_reads w = 0"
    and "unat width * unat height * 4 < 2 ^ 32" "height \<noteq> 0"
  shows "\<exists>d w'. synthvid_init fuel H R ch width height fb_phys fb_vaddr fb_mem w = Some (Ok d, w') \<and> sv_next_txid d = 5"
proof -
  have h: "1 \<le> unat height" using assms(7) by (simp add: Suc_leI unat_gt_0)
  have "unat width \<le> unat width * unat height" using mult_le_mono2 [OF h, of "unat width"] by simp
  with assms(6) have "unat width * unat height < 2 ^ 32" "unat width * 4 < 2 ^ 32" by linarith+
  then have m: "mul32 width height = Ret (width * height)" "unat (width * height) = unat width * unat height"
    "mul32 (width * height) 4 = Ret (width * height * 4)" and w4: "unat width * 4 < 2 ^ 32"
    using assms(6) by (simp_all add: mul32_def unat_word_ariths)
  have run: "\<exists>dev' w'. init_protocol fuel H R (dev, w1) = Ret (Ok (), dev', w') \<and> sv_next_txid dev' = 5"
    if "sv_channel dev = ch" "sv_width dev = width" "sv_next_txid dev = 1" "clock_reads w1 = 0" for dev w1
    using init_protocol_step [OF assms(1-3), of dev] that w4 assms(4)
    unfolding reaches_def by (fastforce simp: at_step_def same_screen_def)
  obtain vram mem w1 where v: "choose_vram H (unat (width * height * 4)) fb_phys fb_vaddr fb_mem w = (vram, mem, w1)"
    by (rule prod_cases3)
  have "clock_reads w1 = 0" using choose_vram_clock [OF v] assms(5) by simp
  with run [of "\<lparr>sv_channel = ch, sv_vram = vram, sv_width = width, sv_height = height, sv_bpp = 32,
      sv_stride = width, sv_next_txid = 1, sv_vram_mem = mem\<rparr>" w1] obtain dev' w' where
    "init_protocol fuel H R (\<lparr>sv_channel = ch, sv_vram = vram, sv_width = width, sv_height = height, sv_bpp = 32,
      sv_stride = width, sv_next_txid = 1, sv_vram_mem = mem\<rparr>, w1) = Ret (Ok (), dev', w')" "sv_next_txid dev' = 5"
    by auto
  then show ?thesis
    using m v by (simp add: synthvid_init_def Let_def)
qed

text \<open>A concrete host of this kind.\<close>

definition vid_ring :: "bytes \<Rightarrow> ring_half" where
  "vid_ring dat = \<lparr>write_index = of_nat (length dat), read_index = 0, feature_bits = 1, data_size = 128,
     ring_data = dat @ zeros (128 - length dat)\<rparr>"

definition vid_desc :: vm_packet_descriptor where
  "vid_desc = \<lparr>packet_type = 6, offset8 = 2, len8 = 5, flags = 0, transaction_id = 9\<rparr>"

definition vid_reply :: "u32 \<Rightarrow> bytes" where
  "vid_reply ty = le32 1 @ le32 16 @ le32 ty @ le32 16 @ le32 0x50003 @ [1, 1, 0, 0]"

definition vid_ring_host :: ring_host where
  "vid_ring_host n s = (vid_ring [],
     if n = 1 then vid_ring (desc_bytes vid_desc @ vid_reply SYNTHVID_VERSION_RESPONSE @ zeros 8)
     else if n = 4 then vid_ring (desc_bytes vid_desc @ vid_reply SYNTHVID_VRAM_LOCATION_ACK @ zeros 8) else vid_ring [])"

definition vid_channel :: channel where
  "vid_channel = \<lparr>ch_child_relid = 1, ch_connection_id = 1, ch_ring_buf = dma_at demo_host 0,
     ch_gpadl_handle = 1, ch_send = vid_ring [], ch_recv = vid_ring [],
     ch_hcall = \<lparr>hp_page = dma_at demo_host 0, msg_buffer = dma_at demo_host 1\<rparr>, ch_turns = 0\<rparr>"

lemma vid_ring_stream:
  assumes "length dat \<le> 64"
  shows "ring_inv (vid_ring dat)" "fill (vid_ring dat) = length dat" "stream (vid_ring dat) = dat"
proof -
  have u: "unat (of_nat (length dat) :: u32) = length dat" using assms by (simp add: unat_of_nat take_bit_eq_mod)
  show "ring_inv (vid_ring dat)" using assms u by (simp add: ring_inv_def ring_shape_def vid_ring_def)
  show f: "fill (vid_ring dat) = length dat" using assms u by (simp add: fill_def vid_ring_def)
  show "stream (vid_ring dat) = dat" unfolding stream_def f
    by (rule nth_equalityI) (use assms in \<open>simp_all add: vid_ring_def nth_append\<close>)
qed

lemma vid_ring_holds:
  "ring_holds (vid_ring []) []" "ring_holds (vid_ring (desc_bytes vid_desc @ vid_reply ty @ zeros 8)) [(vid_desc, vid_reply ty)]"
proof -
  have l: "length (vid_reply ty) = 24" by (simp add: vid_reply_def)
  show "ring_holds (vid_ring []) []" using vid_ring_stream [of "[]"] by (simp add: ring_holds_def)
  show "ring_holds (vid_ring (desc_bytes vid_desc @ vid_reply ty @ zeros 8)) [(vid_desc, vid_reply ty)]"
    using vid_ring_stream [of "desc_bytes vid_desc @ vid_reply ty @ zeros 8"] l
    by (simp add: ring_holds_def vid_desc_def)
qed

lemma vid_host_cooperates: "cooperative vid_ring_host" "ticking (demo_host\<lparr>clock := (\<lambda>n. of_nat n * 20000)\<rparr>)"
proof -
  have r: "offset8 vid_desc = 2" "length (vid_reply ty) = 24" "get32 8 (vid_reply ty) = ty" "vid_reply ty ! 20 \<noteq> 0" for ty
    by (simp_all add: vid_desc_def vid_reply_def slice_simps nth_append)
  note reply = vid_ring_holds(2) [of SYNTHVID_VERSION_RESPONSE] vid_ring_holds(2) [of SYNTHVID_VRAM_LOCATION_ACK]
  have room: "ring_inv (vid_ring []) \<and> 72 < data_size (vid_ring []) - fill (vid_ring [])"
    using vid_ring_stream [of "[]"] by (simp add: vid_ring_def)
  have v: "\<exists>e body. ring_holds (snd (vid_ring_host 1 s)) [(e, body)] \<and> offset8 e = 2 \<and> 22 \<le> length body \<and> length body \<le> 256 \<and>
        get32 8 body = SYNTHVID_VERSION_RESPONSE \<and> body ! 20 \<noteq> 0" for s
    using reply(1) r by (intro exI conjI, assumption?) (auto simp: vid_ring_host_def)
  have k: "\<exists>e body. ring_holds (snd (vid_ring_host 4 s)) [(e, body)] \<and> offset8 e = 2 \<and> 16 \<le> length body \<and> length body \<le> 256 \<and>
        get32 8 body = SYNTHVID_VRAM_LOCATION_ACK" for s
    using reply(2) r by (intro exI conjI, assumption?) (auto simp: vid_ring_host_def)
  show "cooperative vid_ring_host" unfolding cooperative_def
    using room v k vid_ring_holds(1) by (auto simp: vid_ring_host_def)
  have "unat (of_nat n * 20000 :: u64) = n * 20000" if "n < 21" for n
    using that by (simp add: unat_word_ariths unat_of_nat take_bit_eq_mod)
  then show "ticking (demo_host\<lparr>clock := (\<lambda>n. of_nat n * 20000)\<rparr>)" by (simp add: ticking_def del: of_nat_Suc)
qed

section \<open>Property\<close>



end
