(* ===== verification/Hal_Time.thy ===== *)
theory Hal_Time
  imports Hal_Cpu
begin

text \<open>
  The time driver, \<open>crates/embclox-hal-x86/src/time.rs\<close>: one table of eight alarm slots per CPU.

  A waker is identified by the task it wakes, so that \<open>will_wake\<close> is equality; the wakes an
  operation issues are its result.  The time-stamp counter is an argument.  The abstract
  specification keeps a finite map from wakers to deadlines per CPU, and the refinement lemmas say
  that the table implements it.
\<close>

section \<open>The driver\<close>

type_synonym waker = nat

definition MAX_ALARMS :: nat where "MAX_ALARMS = 8"

record alarm =
  al_at :: u64
  al_waker :: "waker option"

record time_driver =
  tsc_per_us :: u64
  alarms :: "alarm option list list"

definition time_driver_init :: time_driver where
  "time_driver_init = \<lparr>tsc_per_us = 1, alarms = replicate MAX_CPUS (replicate MAX_ALARMS None)\<rparr>"

definition set_tsc_per_us :: "u64 \<Rightarrow> time_driver \<Rightarrow> time_driver" where
  "set_tsc_per_us t d = d\<lparr>tsc_per_us := t\<rparr>"

definition now :: "u64 \<Rightarrow> time_driver \<Rightarrow> u64 run" where
  "now tsc d = (if tsc_per_us d = 0 then Panic else Ret (tsc div tsc_per_us d))"

text \<open>The search loop: the alarm of this waker, or else the first empty slot.\<close>

fun scan_slots :: "waker \<Rightarrow> nat \<Rightarrow> nat option \<Rightarrow> alarm option list \<Rightarrow> (nat \<times> alarm) + nat option" where
  "scan_slots w i e [] = Inr e"
| "scan_slots w i e (None # r) = scan_slots w (Suc i) (if e = None then Some i else e) r"
| "scan_slots w i e (Some a # r) = (if al_waker a = Some w then Inl (i, a) else scan_slots w (Suc i) e r)"

definition schedule_wake :: "cpu_id \<Rightarrow> u64 \<Rightarrow> u64 \<Rightarrow> waker \<Rightarrow> time_driver \<Rightarrow> (waker list \<times> time_driver) run" where
  "schedule_wake cpu tsc at w d = (let c = slot_of cpu in do {
     slots \<leftarrow> nth_run (alarms d) c;
     n \<leftarrow> now tsc d;
     Ret (if at \<le> n then ([w], d)
       else case scan_slots w 0 None slots of
         Inl (i, a) \<Rightarrow> ([], d\<lparr>alarms := (alarms d)[c := slots[i := Some (a\<lparr>al_at := at\<rparr>)]]\<rparr>)
       | Inr (Some i) \<Rightarrow> ([], d\<lparr>alarms := (alarms d)[c := slots[i := Some \<lparr>al_at = at, al_waker = Some w\<rparr>]]\<rparr>)
       | Inr None \<Rightarrow> ([w], d)) })"

text \<open>One slot at a tick: the wake it issues and what is left in it.\<close>

definition tick_slot :: "u64 \<Rightarrow> alarm option \<Rightarrow> waker list \<times> alarm option" where
  "tick_slot n slot = (case slot of None \<Rightarrow> ([], None)
     | Some a \<Rightarrow> if al_at a \<le> n then (case al_waker a of Some w \<Rightarrow> [w] | None \<Rightarrow> [], None) else ([], Some a))"

definition on_timer_tick :: "cpu_id \<Rightarrow> u64 \<Rightarrow> time_driver \<Rightarrow> (waker list \<times> time_driver) run" where
  "on_timer_tick cpu tsc d = (let c = slot_of cpu in do {
     n \<leftarrow> now tsc d;
     slots \<leftarrow> nth_run (alarms d) c;
     Ret (concat (map (fst \<circ> tick_slot n) slots),
          d\<lparr>alarms := (alarms d)[c := map (snd \<circ> tick_slot n) slots]\<rparr>) })"

section \<open>Specification\<close>

type_synonym deadlines = "waker \<rightharpoonup> u64"

text \<open>The wakes to issue and the new map.\<close>

definition spec_schedule :: "u64 \<Rightarrow> u64 \<Rightarrow> waker \<Rightarrow> deadlines \<Rightarrow> waker set \<times> deadlines" where
  "spec_schedule n at w m =
     (if at \<le> n then ({w}, m)
      else if m w \<noteq> None \<or> card (dom m) < 8 then ({}, m(w \<mapsto> at)) else ({w}, m))"

definition spec_tick :: "u64 \<Rightarrow> deadlines \<Rightarrow> waker set \<times> deadlines" where
  "spec_tick n m = ({w. \<exists>at. m w = Some at \<and> at \<le> n}, \<lambda>w. case m w of None \<Rightarrow> None
     | Some at \<Rightarrow> if at \<le> n then None else Some at)"

datatype time_op = Schedule u64 u64 waker | Tick u64

definition time_step :: "cpu_id \<Rightarrow> time_op \<Rightarrow> time_driver \<Rightarrow> (waker list \<times> time_driver) run" where
  "time_step cpu x d = (case x of Schedule tsc at w \<Rightarrow> schedule_wake cpu tsc at w d
     | Tick tsc \<Rightarrow> on_timer_tick cpu tsc d)"

definition spec_step :: "u64 \<Rightarrow> time_op \<Rightarrow> deadlines \<Rightarrow> waker set \<times> deadlines" where
  "spec_step t x m = (case x of Schedule tsc at w \<Rightarrow> spec_schedule (tsc div t) at w m
     | Tick tsc \<Rightarrow> spec_tick (tsc div t) m)"

text \<open>A sequence of operations on one CPU: the wakes of each.\<close>

primrec time_run :: "cpu_id \<Rightarrow> time_op list \<Rightarrow> time_driver \<Rightarrow> (waker list list \<times> time_driver) run" where
  "time_run cpu [] d = Ret ([], d)"
| "time_run cpu (x # xs) d = do {
     (ws, d) \<leftarrow> time_step cpu x d;
     (wss, d) \<leftarrow> time_run cpu xs d;
     Ret (ws # wss, d) }"

primrec spec_run :: "u64 \<Rightarrow> time_op list \<Rightarrow> deadlines \<Rightarrow> waker set list \<times> deadlines" where
  "spec_run t [] m = ([], m)"
| "spec_run t (x # xs) m =
     (let (ws, m) = spec_step t x m; (wss, m) = spec_run t xs m in (ws # wss, m))"

section \<open>Lemmas: one table\<close>

definition slot_entry :: "alarm option \<Rightarrow> (waker \<times> u64) list" where
  "slot_entry s = (case s of None \<Rightarrow> [] | Some a \<Rightarrow> (case al_waker a of None \<Rightarrow> [] | Some w \<Rightarrow> [(w, al_at a)]))"

definition entries :: "alarm option list \<Rightarrow> (waker \<times> u64) list" where
  "entries slots = concat (map slot_entry slots)"

definition slots_ok :: "alarm option list \<Rightarrow> bool" where
  "slots_ok slots \<longleftrightarrow> (\<forall>a. Some a \<in> set slots \<longrightarrow> al_waker a \<noteq> None) \<and> distinct (map fst (entries slots))"

lemma entries_simps [simp]:
  "entries [] = []" "entries (None # r) = entries r"
  "al_waker a = Some w \<Longrightarrow> entries (Some a # r) = (w, al_at a) # entries r"
  by (simp_all add: entries_def slot_entry_def)

lemma slots_ok_Cons [simp]:
  "slots_ok []" "slots_ok (None # r) = slots_ok r"
  "slots_ok (Some a # r) \<longleftrightarrow> (\<exists>w. al_waker a = Some w \<and> w \<notin> fst ` set (entries r)) \<and> slots_ok r"
  by (auto simp: slots_ok_def)

lemma dom_entries: "dom (map_of (entries slots)) = fst ` set (entries slots)"
  by (rule dom_map_of_conv_image_fst)

lemma entries_full:
  assumes "slots_ok slots"
  shows "length (entries slots) = length (filter (\<lambda>s. s \<noteq> None) slots)"
  using assms
proof (induction slots)
  case (Cons s r)
  then show ?case by (cases s) auto
qed simp

lemma card_entries: "slots_ok slots \<Longrightarrow> card (dom (map_of (entries slots))) = length (entries slots)"
  unfolding dom_entries slots_ok_def by (metis distinct_card length_map set_map)

lemma scan_slots_cases:
  assumes "slots_ok slots"
  shows "case scan_slots w i e slots of
      Inl (k, a) \<Rightarrow> \<exists>j < length slots. k = i + j \<and> slots ! j = Some a \<and> al_waker a = Some w
    | Inr x \<Rightarrow> map_of (entries slots) w = None \<and>
        (case e of Some k \<Rightarrow> x = Some k
         | None \<Rightarrow> (case x of None \<Rightarrow> None \<notin> set slots
             | Some k \<Rightarrow> \<exists>j < length slots. k = i + j \<and> slots ! j = None))"
  using assms
proof (induction w i e slots rule: scan_slots.induct)
  case (2 w i e r)
  then show ?case
    by (cases e) (auto split: sum.splits option.splits prod.splits simp: less_Suc_eq_0_disj)
next
  case (3 w i e a r)
  then show ?case
    by (cases e) (auto split: sum.splits option.splits prod.splits simp: less_Suc_eq_0_disj)
qed (simp split: option.split)

lemma entries_append: "entries (xs @ s # ys) = entries xs @ slot_entry s @ entries ys"
  by (simp add: entries_def)

lemma entries_split:
  "j < length slots \<Longrightarrow> entries slots = entries (take j slots) @ slot_entry (slots ! j) @ entries (drop (Suc j) slots)"
  by (metis entries_append id_take_nth_drop)

lemma entries_update:
  "j < length slots \<Longrightarrow> entries (slots[j := s]) = entries (take j slots) @ slot_entry s @ entries (drop (Suc j) slots)"
  by (simp add: upd_conv_take_nth_drop entries_append)

lemma map_of_insert: "w \<notin> fst ` set A \<Longrightarrow> map_of (A @ (w, x) # B) = (map_of (A @ B))(w \<mapsto> x)"
  by (induction A) (auto simp: fun_eq_iff)

lemma distinct_insert:
  "distinct (map fst (A @ (w, x) # B)) \<longleftrightarrow> w \<notin> fst ` set (A @ B) \<and> distinct (map fst (A @ B))"
  by (simp add: image_Un) blast

lemma slots_update:
  assumes "slots_ok slots" "j < length slots" "w \<notin> fst ` set (entries slots) \<and> slots ! j = None \<or>
      slots ! j = Some a \<and> al_waker a = Some w" "al_waker b = Some w"
  shows "slots_ok (slots[j := Some b])" "map_of (entries (slots[j := Some b])) = (map_of (entries slots))(w \<mapsto> al_at b)"
proof -
  let ?A = "entries (take j slots)" and ?B = "entries (drop (Suc j) slots)"
  have u: "entries (slots[j := Some b]) = ?A @ (w, al_at b) # ?B"
    using assms(2,4) by (simp add: entries_update slot_entry_def)
  have o: "(w \<notin> fst ` set (?A @ ?B) \<and> entries slots = ?A @ ?B) \<or> (\<exists>x. entries slots = ?A @ (w, x) # ?B)"
    using assms(3) entries_split [OF assms(2)] by (auto simp: slot_entry_def)
  have "distinct (map fst (entries slots))" using assms(1) by (simp add: slots_ok_def)
  with o have f: "w \<notin> fst ` set (?A @ ?B)" "distinct (map fst (?A @ ?B))"
    by (metis distinct_insert)+
  have wa: "w \<notin> fst ` set ?A" using f(1) by (simp add: image_Un)
  have g: "(map_of (entries slots))(w \<mapsto> al_at b) = (map_of (?A @ ?B))(w \<mapsto> al_at b)"
    using o
  proof
    assume "\<exists>x. entries slots = ?A @ (w, x) # ?B"
    then obtain x where "entries slots = ?A @ (w, x) # ?B" by blast
    then show ?thesis using map_of_insert [OF wa, of x ?B] by simp
  qed simp
  have "al_waker c \<noteq> None" if "Some c \<in> set (slots[j := Some b])" for c
    using that assms(1,4) set_update_subset_insert [of slots j "Some b"] by (auto simp: slots_ok_def)
  then show "slots_ok (slots[j := Some b])" unfolding slots_ok_def u distinct_insert using f by blast
  show "map_of (entries (slots[j := Some b])) = (map_of (entries slots))(w \<mapsto> al_at b)"
    using map_of_insert [OF wa, of "al_at b" ?B] unfolding u g .
qed

lemma tick_entries:
  assumes "slots_ok slots"
  shows "entries (map (snd \<circ> tick_slot n) slots) = filter (\<lambda>x. \<not> snd x \<le> n) (entries slots)"
    "concat (map (fst \<circ> tick_slot n) slots) = map fst (filter (\<lambda>x. snd x \<le> n) (entries slots))"
    "slots_ok (map (snd \<circ> tick_slot n) slots)"
  using assms
proof (induction slots)
  case (Cons s r)
  case 1
  with Cons show ?case by (cases s) (auto simp: tick_slot_def)
  case 2
  with Cons show ?case by (cases s) (auto simp: tick_slot_def)
  case 3
  with Cons show ?case by (cases s) (auto simp: tick_slot_def)
qed simp_all

lemma map_of_filter_snd:
  "distinct (map fst xs) \<Longrightarrow> map_of (filter (\<lambda>x. P (snd x)) xs) w =
     (case map_of xs w of None \<Rightarrow> None | Some v \<Rightarrow> if P v then Some v else None)"
  by (induction xs) (auto simp: map_of_eq_None_iff split: option.split)

section \<open>Lemmas: the driver\<close>

definition driver_ok :: "time_driver \<Rightarrow> bool" where
  "driver_ok d \<longleftrightarrow> tsc_per_us d \<noteq> 0 \<and> length (alarms d) = 8 \<and> (\<forall>s \<in> set (alarms d). length s = 8 \<and> slots_ok s)"

definition deadlines_of :: "cpu_id \<Rightarrow> time_driver \<Rightarrow> deadlines" where
  "deadlines_of cpu d = map_of (entries (alarms d ! slot_of cpu))"

text \<open>What stays the same when one CPU's table changes.\<close>

definition others_same :: "cpu_id \<Rightarrow> time_driver \<Rightarrow> time_driver \<Rightarrow> bool" where
  "others_same cpu d d' \<longleftrightarrow> tsc_per_us d' = tsc_per_us d \<and> (\<forall>c. c \<noteq> slot_of cpu \<longrightarrow> alarms d' ! c = alarms d ! c)"

lemma table_update:
  assumes "driver_ok d" "slot_of cpu < 8" "length s = 8" "slots_ok s"
  defines "d' \<equiv> d\<lparr>alarms := (alarms d)[slot_of cpu := s]\<rparr>"
  shows "driver_ok d'" "deadlines_of cpu d' = map_of (entries s)" "others_same cpu d d'"
  using assms by (auto simp: driver_ok_def deadlines_of_def others_same_def dest!: set_update_subset_insert [THEN subsetD])

lemma schedule_refines:
  assumes "driver_ok d" "slot_of cpu < 8"
  shows "\<exists>ws d'. schedule_wake cpu tsc at w d = Ret (ws, d') \<and> driver_ok d' \<and> others_same cpu d d' \<and> distinct ws \<and>
    (set ws, deadlines_of cpu d') = spec_schedule (tsc div tsc_per_us d) at w (deadlines_of cpu d)"
proof -
  let ?slots = "alarms d ! slot_of cpu" and ?n = "tsc div tsc_per_us d"
  have ok: "slots_ok ?slots" "length ?slots = 8" using assms by (auto simp: driver_ok_def)
  have eq: "schedule_wake cpu tsc at w d = Ret (if at \<le> ?n then ([w], d)
       else case scan_slots w 0 None ?slots of
         Inl (i, a) \<Rightarrow> ([], d\<lparr>alarms := (alarms d)[slot_of cpu := ?slots[i := Some (a\<lparr>al_at := at\<rparr>)]]\<rparr>)
       | Inr (Some i) \<Rightarrow> ([], d\<lparr>alarms := (alarms d)[slot_of cpu := ?slots[i := Some \<lparr>al_at = at, al_waker = Some w\<rparr>]]\<rparr>)
       | Inr None \<Rightarrow> ([w], d))"
    using assms by (simp add: schedule_wake_def Let_def nth_run_def driver_ok_def now_def)
  have m: "deadlines_of cpu d = map_of (entries ?slots)" by (simp add: deadlines_of_def)
  have same: "others_same cpu d d" by (simp add: others_same_def)
  note sc = scan_slots_cases [OF ok(1), where w = w and i = 0 and e = None]
  have room: "card (dom (map_of (entries ?slots))) < 8 \<longleftrightarrow> None \<in> set ?slots"
    using card_entries [OF ok(1)] entries_full [OF ok(1)] ok(2) length_filter_less [of None ?slots "\<lambda>s. s \<noteq> None"]
      filter_True [of ?slots "\<lambda>s. s \<noteq> None"] by fastforce
  consider (past) "at \<le> ?n"
    | (old) j a where "\<not> at \<le> ?n" "scan_slots w 0 None ?slots = Inl (j, a)" "j < 8" "?slots ! j = Some a" "al_waker a = Some w"
    | (fresh) j where "\<not> at \<le> ?n" "scan_slots w 0 None ?slots = Inr (Some j)" "j < 8" "?slots ! j = None" "w \<notin> fst ` set (entries ?slots)"
    | (full) "\<not> at \<le> ?n" "scan_slots w 0 None ?slots = Inr None" "None \<notin> set ?slots" "w \<notin> fst ` set (entries ?slots)"
    using sc ok(2) by (cases "scan_slots w 0 None ?slots") (auto simp: map_of_eq_None_iff split: option.splits)
  then show ?thesis
  proof cases
    case past
    then show ?thesis using eq assms(1) same by (simp add: spec_schedule_def)
  next
    case old
    let ?s = "?slots[j := Some (a\<lparr>al_at := at\<rparr>)]"
    have u: "slots_ok ?s" "map_of (entries ?s) = (map_of (entries ?slots))(w \<mapsto> at)"
      using slots_update [OF ok(1), of j w a "a\<lparr>al_at := at\<rparr>"] old ok(2) by simp_all
    have "map_of (entries ?slots) w \<noteq> None"
      using old(3-5) ok(2) entries_split [of j ?slots] by (auto simp: slot_entry_def map_of_eq_None_iff)
    then show ?thesis
      using eq old(1,2) table_update [OF assms, of ?s] u ok(2) by (simp add: spec_schedule_def m)
  next
    case fresh
    let ?s = "?slots[j := Some \<lparr>al_at = at, al_waker = Some w\<rparr>]"
    have u: "slots_ok ?s" "map_of (entries ?s) = (map_of (entries ?slots))(w \<mapsto> at)"
      using slots_update [OF ok(1), of j w _ "\<lparr>al_at = at, al_waker = Some w\<rparr>"] fresh ok(2) by simp_all
    have "None \<in> set ?slots" using fresh(3,4) ok(2) by (metis nth_mem)
    then show ?thesis
      using eq fresh(1,2) table_update [OF assms, of ?s] u ok(2) room by (simp add: spec_schedule_def m)
  next
    case full
    then have "map_of (entries ?slots) w = None" by (simp add: map_of_eq_None_iff)
    then show ?thesis using eq full room assms(1) same by (simp add: spec_schedule_def m)
  qed
qed

lemma tick_refines:
  assumes "driver_ok d" "slot_of cpu < 8"
  shows "\<exists>ws d'. on_timer_tick cpu tsc d = Ret (ws, d') \<and> driver_ok d' \<and> others_same cpu d d' \<and> distinct ws \<and>
    (set ws, deadlines_of cpu d') = spec_tick (tsc div tsc_per_us d) (deadlines_of cpu d)"
proof -
  let ?slots = "alarms d ! slot_of cpu" and ?n = "tsc div tsc_per_us d"
  let ?s = "map (snd \<circ> tick_slot ?n) ?slots"
  have ok: "slots_ok ?slots" "length ?s = 8" using assms by (auto simp: driver_ok_def)
  have d: "distinct (map fst (entries ?slots))" using ok(1) by (simp add: slots_ok_def)
  note t = tick_entries [OF ok(1), of ?n] and u = table_update [OF assms ok(2) tick_entries(3) [OF ok(1)]]
  have "on_timer_tick cpu tsc d = Ret (map fst (filter (\<lambda>x. snd x \<le> ?n) (entries ?slots)),
      d\<lparr>alarms := (alarms d)[slot_of cpu := ?s]\<rparr>)"
    using assms t(2) by (simp add: on_timer_tick_def Let_def nth_run_def driver_ok_def now_def)
  moreover have "distinct (map fst (filter (\<lambda>x. snd x \<le> ?n) (entries ?slots)))" using d by (rule distinct_map_filter)
  moreover have "fst ` {x \<in> set (entries ?slots). snd x \<le> ?n} = {w. \<exists>at. map_of (entries ?slots) w = Some at \<and> at \<le> ?n}"
    using d by (force simp: map_of_eq_Some_iff)
  moreover have "map_of (entries ?s) = (\<lambda>w. case map_of (entries ?slots) w of None \<Rightarrow> None
      | Some at \<Rightarrow> if at \<le> ?n then None else Some at)"
    unfolding t(1) using map_of_filter_snd [OF d, of "\<lambda>v. \<not> v \<le> ?n"] by (auto simp: fun_eq_iff split: option.split)
  ultimately show ?thesis using u by (auto simp: spec_tick_def deadlines_of_def)
qed

lemma time_step_refines:
  assumes "driver_ok d" "slot_of cpu < 8"
  shows "\<exists>ws d'. time_step cpu x d = Ret (ws, d') \<and> driver_ok d' \<and> others_same cpu d d' \<and> distinct ws \<and>
    (set ws, deadlines_of cpu d') = spec_step (tsc_per_us d) x (deadlines_of cpu d)"
  using schedule_refines [OF assms] tick_refines [OF assms]
  by (cases x) (simp_all add: time_step_def spec_step_def)

lemma others_same_trans: "others_same cpu a b \<Longrightarrow> others_same cpu b c \<Longrightarrow> others_same cpu a c"
  by (simp add: others_same_def)

lemma time_run_refines:
  assumes "driver_ok d" "slot_of cpu < 8"
  shows "\<exists>wss d'. time_run cpu xs d = Ret (wss, d') \<and> driver_ok d' \<and> others_same cpu d d' \<and> list_all distinct wss \<and>
    (map set wss, deadlines_of cpu d') = spec_run (tsc_per_us d) xs (deadlines_of cpu d)"
  using assms
proof (induction xs arbitrary: d)
  case Nil
  then show ?case by (simp add: others_same_def)
next
  case (Cons x xs)
  obtain ws d1 where 1: "time_step cpu x d = Ret (ws, d1)" "driver_ok d1" "others_same cpu d d1" "distinct ws"
      "spec_step (tsc_per_us d) x (deadlines_of cpu d) = (set ws, deadlines_of cpu d1)"
    using time_step_refines [OF Cons.prems] by metis
  obtain wss d2 where 2: "time_run cpu xs d1 = Ret (wss, d2)" "driver_ok d2" "others_same cpu d1 d2" "list_all distinct wss"
      "spec_run (tsc_per_us d1) xs (deadlines_of cpu d1) = (map set wss, deadlines_of cpu d2)"
    using Cons.IH [OF 1(2) Cons.prems(2)] by metis
  have "tsc_per_us d1 = tsc_per_us d" using 1(3) by (simp add: others_same_def)
  then show ?case using 1 2 others_same_trans [OF 1(3) 2(3)] by simp
qed

text \<open>In the specification a deadline stays until a tick reaches it.\<close>

lemma spec_step_keeps:
  assumes "m w = Some at" "\<forall>tsc a. x \<noteq> Schedule tsc a w"
  shows "w \<in> fst (spec_step t x m) \<or> snd (spec_step t x m) w = Some at"
  using assms by (cases x) (auto simp: spec_step_def spec_schedule_def spec_tick_def)

lemma spec_run_wakes:
  assumes "m w = Some at" "\<forall>tsc a. Schedule tsc a w \<notin> set xs" "at \<le> tsc' div t"
  shows "\<exists>ws \<in> set (fst (spec_run t (xs @ [Tick tsc']) m)). w \<in> ws"
  using assms
proof (induction xs arbitrary: m)
  case Nil
  then show ?case by (auto simp: spec_step_def spec_tick_def)
next
  case (Cons x xs)
  have "w \<in> fst (spec_step t x m) \<or> snd (spec_step t x m) w = Some at"
    using spec_step_keeps [of m w at x t] Cons.prems(1,2) by auto
  then show ?case
    using Cons.IH [of "snd (spec_step t x m)"] Cons.prems(2,3) by (auto simp: Let_def split: prod.splits)
qed

section \<open>Theorems\<close>

text \<open>C8. The alarm table of a CPU implements a map of at most eight deadlines.  From any well-formed
  driver, for any sequence of \<open>schedule_wake\<close> calls and timer ticks on one CPU, no operation panics;
  each operation wakes exactly the tasks the map says, none of them twice; the table that is left
  represents the map the specification ends with; and neither the calibration nor any other CPU's
  table changes.\<close>

theorem alarm_table_refines:
  assumes "driver_ok d" "slot_of cpu < 8"
  shows "\<exists>wss d'. time_run cpu xs d = Ret (wss, d') \<and> driver_ok d' \<and> list_all distinct wss \<and>
    (map set wss, deadlines_of cpu d') = spec_run (tsc_per_us d) xs (deadlines_of cpu d) \<and>
    tsc_per_us d' = tsc_per_us d \<and> (\<forall>c. slot_of c \<noteq> slot_of cpu \<longrightarrow> deadlines_of c d' = deadlines_of c d)"
proof -
  obtain wss d' where r: "time_run cpu xs d = Ret (wss, d')" "driver_ok d'" "others_same cpu d d'" "list_all distinct wss"
      "(map set wss, deadlines_of cpu d') = spec_run (tsc_per_us d) xs (deadlines_of cpu d)"
    using time_run_refines [OF assms, of xs] by blast
  have "tsc_per_us d' = tsc_per_us d" "\<forall>c. slot_of c \<noteq> slot_of cpu \<longrightarrow> deadlines_of c d' = deadlines_of c d"
    using r(3) by (simp_all add: others_same_def deadlines_of_def)
  with r show ?thesis by blast
qed

lemma driver_ok_init: "driver_ok (set_tsc_per_us 2 time_driver_init)"
proof -
  have "slots_ok (replicate n None)" for n by (induction n) simp_all
  then show ?thesis by (simp add: driver_ok_def set_tsc_per_us_def time_driver_init_def MAX_CPUS_def MAX_ALARMS_def)
qed

theorem alarm_table_refines_witness:
  "\<exists>wss d'. time_run (Ap 1) [Schedule 4 10 7, Schedule 6 3 8, Tick 18, Tick 20] (set_tsc_per_us 2 time_driver_init) = Ret (wss, d') \<and>
     map set wss = [{}, {8}, {}, {7}] \<and> deadlines_of (Ap 1) d' 7 = None"
proof -
  have m: "deadlines_of (Ap 1) (set_tsc_per_us 2 time_driver_init) = Map.empty"
    by (simp add: deadlines_of_def set_tsc_per_us_def time_driver_init_def MAX_CPUS_def MAX_ALARMS_def
        entries_def slot_entry_def slot_of_def)
  have t: "tsc_per_us (set_tsc_per_us 2 time_driver_init) = 2" by (simp add: set_tsc_per_us_def)
  have s: "spec_run 2 [Schedule 4 10 7, Schedule 6 3 8, Tick 18, Tick 20] Map.empty = ([{}, {8}, {}, {7}], Map.empty)"
    by (auto simp: spec_step_def spec_schedule_def spec_tick_def fun_eq_iff split: if_splits)
  show ?thesis
    using alarm_table_refines [OF driver_ok_init, of "Ap 1" "[Schedule 4 10 7, Schedule 6 3 8, Tick 18, Tick 20]"]
    unfolding m t s by (auto simp: slot_of_def)
qed

text \<open>C21. No wake-up is lost.  A task that asks to be woken at a deadline and is not rescheduled is
  woken by the request itself or by a later operation, at the latest by a tick that comes when the
  deadline has passed, whatever other tasks and ticks come between.\<close>

theorem alarm_not_lost:
  assumes "driver_ok d" "slot_of cpu < 8" "\<forall>tsc a. Schedule tsc a w \<notin> set xs" "at \<le> tsc' div tsc_per_us d"
  shows "\<exists>wss d'. time_run cpu (Schedule tsc at w # xs @ [Tick tsc']) d = Ret (wss, d') \<and> (\<exists>ws \<in> set wss. w \<in> set ws)"
proof -
  let ?t = "tsc_per_us d" and ?m = "deadlines_of cpu d"
  let ?s = "spec_step ?t (Schedule tsc at w) ?m"
  obtain wss d' where r: "time_run cpu (Schedule tsc at w # xs @ [Tick tsc']) d = Ret (wss, d')"
      "map set wss = fst (spec_run ?t (Schedule tsc at w # xs @ [Tick tsc']) ?m)"
    using time_run_refines [OF assms(1,2), of "Schedule tsc at w # xs @ [Tick tsc']"] by (metis fst_conv)
  have "w \<in> fst ?s \<or> snd ?s w = Some at" by (auto simp: spec_step_def spec_schedule_def)
  then have "\<exists>ws \<in> set (fst (spec_run ?t (Schedule tsc at w # xs @ [Tick tsc']) ?m)). w \<in> ws"
    using spec_run_wakes [of "snd ?s" w at xs tsc' ?t] assms(3,4) by (auto simp: Let_def split: prod.splits)
  then have "\<exists>ws \<in> set wss. w \<in> set ws" unfolding r(2) [symmetric] by auto
  with r(1) show ?thesis by blast
qed

theorem alarm_not_lost_witness:
  "\<exists>wss d'. time_run Bsp (Schedule 4 10 7 # [Schedule 6 3 8, Tick 18] @ [Tick 20]) (set_tsc_per_us 2 time_driver_init) = Ret (wss, d') \<and>
     (\<exists>ws \<in> set wss. 7 \<in> set ws)"
  by (rule alarm_not_lost [OF driver_ok_init]) (simp_all add: slot_of_def set_tsc_per_us_def)

text \<open>A task has one deadline only: a second request of the same task replaces the first one,
  also when the new deadline is later.  A tick between the two deadlines then does not wake the task,
  although it asked to be woken at the first one.\<close>

lemma reschedule_delays:
  assumes "driver_ok d" "slot_of cpu < 8" "card (dom (deadlines_of cpu d)) < 8"
    "tsc div tsc_per_us d < at1" "at1 \<le> tsc' div tsc_per_us d" "tsc' div tsc_per_us d < at2"
  shows "\<exists>wss d'. time_run cpu [Schedule tsc at1 w, Schedule tsc at2 w, Tick tsc'] d = Ret (wss, d') \<and>
    (\<forall>ws \<in> set wss. w \<notin> set ws) \<and> deadlines_of cpu d' w = Some at2"
proof -
  let ?xs = "[Schedule tsc at1 w, Schedule tsc at2 w, Tick tsc']"
  let ?m = "(deadlines_of cpu d)(w \<mapsto> at2)"
  obtain wss d' where r: "time_run cpu ?xs d = Ret (wss, d')"
      "map set wss = fst (spec_run (tsc_per_us d) ?xs (deadlines_of cpu d))"
      "deadlines_of cpu d' = snd (spec_run (tsc_per_us d) ?xs (deadlines_of cpu d))"
    using time_run_refines [OF assms(1,2), of ?xs] by (metis fst_conv snd_conv)
  have n: "\<not> at1 \<le> tsc div tsc_per_us d" "\<not> at2 \<le> tsc div tsc_per_us d" "\<not> at2 \<le> tsc' div tsc_per_us d"
    using assms(4-6) by auto
  have s: "spec_run (tsc_per_us d) ?xs (deadlines_of cpu d) = ([{}, {}, fst (spec_tick (tsc' div tsc_per_us d) ?m)],
      snd (spec_tick (tsc' div tsc_per_us d) ?m))"
    using n assms(3) by (simp add: spec_step_def spec_schedule_def split: prod.split)
  have "\<forall>ws \<in> set (map set wss). w \<notin> ws" "deadlines_of cpu d' w = Some at2"
    using r(2,3) n unfolding s by (auto simp: spec_tick_def)
  then show ?thesis using r(1) by auto
qed

lemma reschedule_delays_witness:
  "\<exists>wss d'. time_run Bsp [Schedule 4 10 7, Schedule 4 50 7, Tick 30] (set_tsc_per_us 2 time_driver_init) = Ret (wss, d') \<and>
     (\<forall>ws \<in> set wss. 7 \<notin> set ws) \<and> deadlines_of Bsp d' 7 = Some 50"
proof (rule reschedule_delays [OF driver_ok_init])
  show "card (dom (deadlines_of Bsp (set_tsc_per_us 2 time_driver_init))) < 8"
    by (simp add: deadlines_of_def set_tsc_per_us_def time_driver_init_def MAX_CPUS_def MAX_ALARMS_def
        entries_def slot_entry_def slot_of_def)
qed (simp_all add: slot_of_def set_tsc_per_us_def)

end
