(* ===== verification/Hal_Irq.thy ===== *)
theory Hal_Irq
  imports Hal_Cpu
begin

text \<open>
  Interrupt routing: the I/O APIC of \<open>crates/embclox-hal-x86/src/ioapic.rs\<close>, the handler table of
  \<open>idt.rs\<close> and \<open>ProbeCtx::install_pci_isr_on\<close> of \<open>crates/embclox-driver/src/driver.rs\<close>, which takes a
  vector, installs a handler and routes a PCI interrupt line to it.

  The I/O APIC is its select register and the registers behind the window; the read-only bits of a
  redirection entry are not modelled.  A handler is a value of any type.
\<close>

section \<open>I/O APIC\<close>

record ioapic =
  io_regsel :: u32
  io_regs :: "nat \<Rightarrow> u32"

definition IOAPICVER :: u8 where "IOAPICVER = 0x01"
definition IOREDTBL_BASE :: u8 where "IOREDTBL_BASE = 0x10"

definition io_read :: "u8 \<Rightarrow> ioapic \<Rightarrow> u32 \<times> ioapic" where
  "io_read reg a = (let a = a\<lparr>io_regsel := ucast reg\<rparr> in (io_regs a (unat (io_regsel a)), a))"

definition io_write :: "u8 \<Rightarrow> u32 \<Rightarrow> ioapic \<Rightarrow> ioapic" where
  "io_write reg v a = (let a = a\<lparr>io_regsel := ucast reg\<rparr> in a\<lparr>io_regs := (io_regs a)(unat (io_regsel a) := v)\<rparr>)"

definition add8 :: "u8 \<Rightarrow> u8 \<Rightarrow> u8 run" where
  "add8 a b = (if unat a + unat b < 256 then Ret (a + b) else Panic)"

definition mul8 :: "u8 \<Rightarrow> u8 \<Rightarrow> u8 run" where
  "mul8 a b = (if unat a * unat b < 256 then Ret (a * b) else Panic)"

definition max_entries :: "ioapic \<Rightarrow> (u8 \<times> ioapic) run" where
  "max_entries a = (case io_read IOAPICVER a of (v, a) \<Rightarrow> do {
     n \<leftarrow> add8 (ucast (drop_bit 16 v AND 0xFF)) 1;
     Ret (n, a) })"

definition enable_irq :: "u8 \<Rightarrow> u8 \<Rightarrow> u8 \<Rightarrow> ioapic \<Rightarrow> ioapic run" where
  "enable_irq irq vector lapic a = do {
     d \<leftarrow> mul8 irq 2;
     reg_low \<leftarrow> add8 IOREDTBL_BASE d;
     reg_high \<leftarrow> add8 reg_low 1;
     let low = ucast vector;
     let high = push_bit 24 (ucast lapic);
     Ret (io_write reg_low low (io_write reg_high high a)) }"

definition disable_irq :: "u8 \<Rightarrow> ioapic \<Rightarrow> ioapic run" where
  "disable_irq irq a = do {
     d \<leftarrow> mul8 irq 2;
     reg_low \<leftarrow> add8 IOREDTBL_BASE d;
     let (low, a) = io_read reg_low a;
     Ret (io_write reg_low (low OR push_bit 16 1) a) }"

section \<open>Handlers and routing\<close>

type_synonym 'h idt = "u8 \<rightharpoonup> 'h"

definition idt_init :: "'h \<Rightarrow> 'h idt" where
  "idt_init default_handler v = (if 32 \<le> v \<and> v < 48 then Some default_handler else None)"

definition set_handler :: "u8 \<Rightarrow> 'h \<Rightarrow> 'h idt \<Rightarrow> 'h idt run" where
  "set_handler vector handler t = do { assert_run (vector \<ge> 32); Ret (t(vector \<mapsto> handler)) }"

datatype probe_error = InvalidIrqLine u8 | NoFreeVector | MmioMap | DmaAlloc | Driver string

record 'h irq_ctx =
  ic_ioapic :: ioapic
  ic_vectors :: vector_allocator
  ic_idt :: "'h idt"

definition install_pci_isr_on :: "cpu_table \<Rightarrow> u8 \<Rightarrow> 'h \<Rightarrow> cpu_id \<Rightarrow> 'h irq_ctx \<Rightarrow> ((installed_isr, probe_error) result \<times> 'h irq_ctx) run" where
  "install_pci_isr_on cpus line handler cpu c =
     (if line = 0xFF then Ret (Err (InvalidIrqLine line), c)
      else do {
        (n, io) \<leftarrow> max_entries (ic_ioapic c);
        let c = c\<lparr>ic_ioapic := io\<rparr>;
        if unat line \<ge> unat n then Ret (Err (InvalidIrqLine line), c)
        else case allocate (ic_vectors c) of
          None \<Rightarrow> Ret (Err NoFreeVector, c)
        | Some (vector, va) \<Rightarrow> do {
            t \<leftarrow> set_handler vector handler (ic_idt c);
            io \<leftarrow> enable_irq line vector (cpu_apic_id cpu cpus) (ic_ioapic c);
            Ret (Ok \<lparr>isr_vector = vector, isr_cpu = cpu\<rparr>, c\<lparr>ic_vectors := va, ic_idt := t, ic_ioapic := io\<rparr>) } })"

definition install_pci_isr :: "cpu_table \<Rightarrow> u8 \<Rightarrow> 'h \<Rightarrow> 'h irq_ctx \<Rightarrow> ((installed_isr, probe_error) result \<times> 'h irq_ctx) run" where
  "install_pci_isr cpus line handler c = install_pci_isr_on cpus line handler Bsp c"

text \<open>The vectors the kernel keeps from the allocator, \<open>examples-kernel/src/main.rs\<close>.\<close>

definition boot_vectors :: "bool \<Rightarrow> vector_allocator run" where
  "boot_vectors is_hyperv = vectors_new 32 47 (if is_hyperv then [32, 34, 39] else [32, 39])"

section \<open>Sequences of requests\<close>

primrec install_all :: "cpu_table \<Rightarrow> (u8 \<times> 'h \<times> cpu_id) list \<Rightarrow> 'h irq_ctx \<Rightarrow> ((installed_isr, probe_error) result list \<times> 'h irq_ctx) run" where
  "install_all cpus [] c = Ret ([], c)"
| "install_all cpus (q # qs) c = do {
     (r, c) \<leftarrow> install_pci_isr_on cpus (fst q) (fst (snd q)) (snd (snd q)) c;
     (rs, c) \<leftarrow> install_all cpus qs c;
     Ret (r # rs, c) }"

text \<open>The lines and vectors granted.\<close>

fun grants :: "(u8 \<times> 'h \<times> cpu_id) list \<Rightarrow> (installed_isr, probe_error) result list \<Rightarrow> (u8 \<times> u8) list" where
  "grants (q # qs) (Ok i # rs) = (fst q, isr_vector i) # grants qs rs"
| "grants (q # qs) (Err e # rs) = grants qs rs"
| "grants _ _ = []"

text \<open>What the redirection entry of a line says: the two registers.\<close>

definition redirection :: "'h irq_ctx \<Rightarrow> u8 \<Rightarrow> u32 \<times> u32" where
  "redirection c l = (io_regs (ic_ioapic c) (16 + 2 * unat l), io_regs (ic_ioapic c) (17 + 2 * unat l))"

definition entries_ok :: "nat \<Rightarrow> 'h irq_ctx \<Rightarrow> bool" where
  "entries_ok n c \<longleftrightarrow> 1 \<le> n \<and> n \<le> 120 \<and> unat (drop_bit 16 (io_regs (ic_ioapic c) 1) AND 0xFF) + 1 = n \<and>
     vectors_inv (ic_vectors c) \<and> 32 \<le> start (ic_vectors c)"

section \<open>Lemmas\<close>

lemma unat_reg: "unat (ucast (r :: u8) :: u32) = unat r"
  using unat_less2p [of r] by (simp add: unsigned_ucast_eq take_bit_nat_eq_self)

lemma max_entries_eq:
  assumes "entries_ok n c"
  shows "\<exists>m. max_entries (ic_ioapic c) = Ret (m, (ic_ioapic c)\<lparr>io_regsel := 1\<rparr>) \<and> unat m = n"
proof -
  let ?v = "drop_bit 16 (io_regs (ic_ioapic c) 1) AND (0xFF :: u32)"
  have v: "unat ?v + 1 = n" "n \<le> 120" using assms by (simp_all add: entries_ok_def)
  then have u: "unat (ucast ?v :: u8) = unat ?v" by (simp add: unsigned_ucast_eq take_bit_nat_eq_self)
  then have "unat (ucast ?v + 1 :: u8) = n" using v by (simp add: unat_word_ariths)
  then show ?thesis using v u by (simp add: max_entries_def io_read_def IOAPICVER_def add8_def)
qed

lemma enable_irq_eq:
  assumes "unat irq < 120"
  shows "\<exists>s. enable_irq irq v l a = Ret (a\<lparr>io_regsel := s,
     io_regs := (io_regs a)(17 + 2 * unat irq := push_bit 24 (ucast l), 16 + 2 * unat irq := ucast v)\<rparr>)"
proof -
  have m: "mul8 irq 2 = Ret (irq * 2)" "unat (irq * 2) = 2 * unat irq"
    using assms by (simp_all add: mul8_def unat_word_ariths)
  then have "add8 IOREDTBL_BASE (irq * 2) = Ret (0x10 + irq * 2)" "unat (0x10 + irq * 2) = 16 + 2 * unat irq"
    using assms by (simp_all add: add8_def IOREDTBL_BASE_def unat_word_ariths)
  moreover from this have "add8 (0x10 + irq * 2) 1 = Ret (0x10 + irq * 2 + 1)" "unat ((0x10 + irq * 2) + 1) = 17 + 2 * unat irq"
    using assms unat_word_ariths(1) [of "0x10 + irq * 2" 1] by (simp_all add: add8_def)
  ultimately show ?thesis
    using m(1) by (intro exI [of _ "ucast (0x10 + irq * 2)"]) (simp add: enable_irq_def io_write_def Let_def unat_reg)
qed

text \<open>One request: refused for a line outside the table or when no vector is left, and otherwise granted.\<close>

lemma install_cases:
  assumes "entries_ok n c"
  obtains (line) c' where "\<not> unat line < n" "install_pci_isr_on cpus line h cpu c = Ret (Err (InvalidIrqLine line), c')"
      "ic_vectors c' = ic_vectors c" "ic_idt c' = ic_idt c" "io_regs (ic_ioapic c') = io_regs (ic_ioapic c)"
  | (none) c' where "unat line < n" "allocate (ic_vectors c) = None"
      "install_pci_isr_on cpus line h cpu c = Ret (Err NoFreeVector, c')"
      "ic_vectors c' = ic_vectors c" "ic_idt c' = ic_idt c" "io_regs (ic_ioapic c') = io_regs (ic_ioapic c)"
  | (ok) v va c' where "unat line < n" "allocate (ic_vectors c) = Some (v, va)"
      "install_pci_isr_on cpus line h cpu c = Ret (Ok \<lparr>isr_vector = v, isr_cpu = cpu\<rparr>, c')"
      "ic_vectors c' = va" "ic_idt c' = (ic_idt c)(v \<mapsto> h)"
      "io_regs (ic_ioapic c') = (io_regs (ic_ioapic c))(17 + 2 * unat line := push_bit 24 (ucast (cpu_apic_id cpu cpus)),
         16 + 2 * unat line := ucast v)"
proof -
  let ?io = "(ic_ioapic c)\<lparr>io_regsel := 1\<rparr>"
  have n: "n \<le> 120" using assms by (simp add: entries_ok_def)
  obtain m where m: "max_entries (ic_ioapic c) = Ret (m, ?io)" "unat m = n"
    using max_entries_eq [OF assms] by blast
  show ?thesis
  proof (cases "unat line < n")
    case False
    define c' where "c' = (if line = 0xFF then c else c\<lparr>ic_ioapic := ?io\<rparr>)"
    have "install_pci_isr_on cpus line h cpu c = Ret (Err (InvalidIrqLine line), c')"
      using False m by (simp add: install_pci_isr_on_def c'_def Let_def)
    then show ?thesis using line [of c'] False by (simp add: c'_def)
  next
    case True
    then have l: "line \<noteq> 0xFF" using n by auto
    show ?thesis
    proof (cases "allocate (ic_vectors c)")
      case None
      then show ?thesis using none [of "c\<lparr>ic_ioapic := ?io\<rparr>"] True l m by (simp add: install_pci_isr_on_def Let_def)
    next
      case (Some x)
      obtain v va where x: "x = (v, va)" by (cases x)
      have "32 \<le> v" using allocate_Some(4) [of "ic_vectors c" v va] Some x assms by (auto simp: entries_ok_def)
      then have h: "set_handler v h (ic_idt c) = Ret ((ic_idt c)(v \<mapsto> h))" by (simp add: set_handler_def assert_run_def)
      obtain s where e: "enable_irq line v (cpu_apic_id cpu cpus) ?io = Ret (?io\<lparr>io_regsel := s,
          io_regs := (io_regs ?io)(17 + 2 * unat line := push_bit 24 (ucast (cpu_apic_id cpu cpus)), 16 + 2 * unat line := ucast v)\<rparr>)"
        using enable_irq_eq [of line v "cpu_apic_id cpu cpus" ?io] True n by auto
      show ?thesis
        using ok [of v va "c\<lparr>ic_vectors := va, ic_idt := (ic_idt c)(v \<mapsto> h), ic_ioapic := ?io\<lparr>io_regsel := s,
            io_regs := (io_regs ?io)(17 + 2 * unat line := push_bit 24 (ucast (cpu_apic_id cpu cpus)), 16 + 2 * unat line := ucast v)\<rparr>\<rparr>"]
          True l m Some x h e by (simp add: install_pci_isr_on_def Let_def)
    qed
  qed
qed

definition install_effect :: "nat \<Rightarrow> cpu_table \<Rightarrow> (u8 \<times> 'h \<times> cpu_id) \<Rightarrow> 'h irq_ctx \<Rightarrow> (installed_isr, probe_error) result \<Rightarrow> 'h irq_ctx \<Rightarrow> bool" where
  "install_effect n cpus q c r c' \<longleftrightarrow> (case q of (line, h, cpu) \<Rightarrow>
     entries_ok n c' \<and> vectors_taken (ic_vectors c) \<subseteq> vectors_taken (ic_vectors c') \<and>
     start (ic_vectors c') = start (ic_vectors c) \<and> last (ic_vectors c') = last (ic_vectors c) \<and>
     (\<forall>v \<in> vectors_taken (ic_vectors c). ic_idt c' v = ic_idt c v) \<and>
     (\<forall>l. (case r of Ok i \<Rightarrow> l \<noteq> line | Err e \<Rightarrow> True) \<longrightarrow> redirection c' l = redirection c l) \<and>
     (case r of
        Ok i \<Rightarrow> isr_vector i \<notin> vectors_taken (ic_vectors c) \<and> isr_vector i \<in> vectors_taken (ic_vectors c') \<and>
          unat line < n \<and> isr_cpu i = cpu \<and> ic_idt c' (isr_vector i) = Some h \<and>
          redirection c' line = (ucast (isr_vector i), push_bit 24 (ucast (cpu_apic_id cpu cpus)))
      | Err e \<Rightarrow> e = InvalidIrqLine line \<and> \<not> unat line < n \<or>
          e = NoFreeVector \<and> unat line < n \<and> vectors_taken (ic_vectors c) = {start (ic_vectors c)..last (ic_vectors c)}))"

lemma install_one:
  assumes "entries_ok n c"
  shows "\<exists>r c'. install_pci_isr_on cpus line h cpu c = Ret (r, c') \<and> install_effect n cpus (line, h, cpu) c r c'"
  using assms
proof (cases rule: install_cases [where cpus = cpus and line = line and h = h and cpu = cpu])
  case (line c1)
  then show ?thesis using assms by (simp add: install_effect_def entries_ok_def redirection_def)
next
  case (none c1)
  then show ?thesis
    using assms allocate_None [of "ic_vectors c"] by (simp add: install_effect_def entries_ok_def redirection_def)
next
  case (ok v va c1)
  have inv: "vectors_inv (ic_vectors c)" using assms by (simp add: entries_ok_def)
  note a = allocate_Some [OF inv ok(2)]
  have "redirection c1 l = redirection c l" if "l \<noteq> line" for l
  proof -
    have "unat l \<noteq> unat line" using that by (metis word_eq_iff_unsigned)
    then have "16 + 2 * unat l \<noteq> 17 + 2 * unat line" "17 + 2 * unat l \<noteq> 16 + 2 * unat line" "unat l \<noteq> unat line" by presburger+
    then show ?thesis using ok(6) by (simp add: redirection_def)
  qed
  moreover have "entries_ok n c1" using assms ok(4,6) a(1,6) by (simp add: entries_ok_def)
  ultimately show ?thesis using ok a(2,3,6,7) by (auto simp: install_effect_def redirection_def)
qed

text \<open>What the answer to a request says about the final state.\<close>

definition answered :: "nat \<Rightarrow> 'h irq_ctx \<Rightarrow> (u8 \<times> 'h \<times> cpu_id) \<Rightarrow> (installed_isr, probe_error) result \<Rightarrow> bool" where
  "answered n c q r \<longleftrightarrow> (case r of
     Ok i \<Rightarrow> unat (fst q) < n \<and> isr_cpu i = snd (snd q) \<and> ic_idt c (isr_vector i) = Some (fst (snd q))
   | Err e \<Rightarrow> e = InvalidIrqLine (fst q) \<and> \<not> unat (fst q) < n \<or> e = NoFreeVector \<and> unat (fst q) < n \<and>
       {start (ic_vectors c)..last (ic_vectors c)} \<subseteq> vectors_taken (ic_vectors c))"

definition routed :: "(u8 \<times> u8) list \<Rightarrow> 'h irq_ctx \<Rightarrow> 'h irq_ctx \<Rightarrow> bool" where
  "routed gs c c' \<longleftrightarrow> (\<forall>l. case map_of (rev gs) l of
     None \<Rightarrow> redirection c' l = redirection c l | Some v \<Rightarrow> fst (redirection c' l) = ucast v)"

definition vectors_grow :: "'h irq_ctx \<Rightarrow> 'h irq_ctx \<Rightarrow> bool" where
  "vectors_grow c c' \<longleftrightarrow> vectors_taken (ic_vectors c) \<subseteq> vectors_taken (ic_vectors c') \<and>
     start (ic_vectors c') = start (ic_vectors c) \<and> last (ic_vectors c') = last (ic_vectors c) \<and>
     (\<forall>v \<in> vectors_taken (ic_vectors c). ic_idt c' v = ic_idt c v)"

lemma install_all_spec:
  assumes "entries_ok n c"
  shows "\<exists>rs c'. install_all cpus qs c = Ret (rs, c') \<and> list_all2 (answered n c') qs rs \<and>
    distinct (map snd (grants qs rs)) \<and> set (map snd (grants qs rs)) \<inter> vectors_taken (ic_vectors c) = {} \<and>
    routed (grants qs rs) c c' \<and> vectors_grow c c'"
  using assms
proof (induction qs arbitrary: c)
  case Nil
  then show ?case by (simp add: routed_def vectors_grow_def)
next
  case (Cons q qs)
  obtain line h cpu where q: "q = (line, h, cpu)" by (cases q)
  obtain r c1 where 1: "install_pci_isr_on cpus line h cpu c = Ret (r, c1)" "install_effect n cpus (line, h, cpu) c r c1"
    using install_one [OF Cons.prems] by blast
  have "entries_ok n c1" using 1(2) by (simp add: install_effect_def)
  then obtain rs c' where 2: "install_all cpus qs c1 = Ret (rs, c')" "list_all2 (answered n c') qs rs"
      "distinct (map snd (grants qs rs))" "set (map snd (grants qs rs)) \<inter> vectors_taken (ic_vectors c1) = {}"
      "routed (grants qs rs) c1 c'" "vectors_grow c1 c'"
    using Cons.IH by blast
  have run: "install_all cpus (q # qs) c = Ret (r # rs, c')" using 1(1) 2(1) q by simp
  have g: "vectors_grow c c1" using 1(2) by (simp add: install_effect_def vectors_grow_def)
  then have g2: "vectors_grow c c'" using 2(6) by (auto simp: vectors_grow_def)
  show ?case
  proof (cases r)
    case (Err e)
    have "answered n c' q r" using 1(2) g2 by (auto simp: install_effect_def answered_def vectors_grow_def Err q)
    moreover have "redirection c1 = redirection c" using 1(2) by (simp add: install_effect_def Err fun_eq_iff)
    then have "routed (grants (q # qs) (r # rs)) c c'" using 2(5) by (simp add: routed_def Err cong: option.case_cong)
    ultimately show ?thesis
      using run g g2 2 by (intro exI [of _ "r # rs"] exI [of _ c']) (auto simp: vectors_grow_def Err)
  next
    case (Ok i)
    have "answered n c' q r" using 1(2) 2(6) by (auto simp: install_effect_def answered_def vectors_grow_def Ok q)
    moreover have "routed (grants (q # qs) (r # rs)) c c'"
      unfolding routed_def
    proof
      fix l
      show "case map_of (rev (grants (q # qs) (r # rs))) l of None \<Rightarrow> redirection c' l = redirection c l
          | Some v \<Rightarrow> fst (redirection c' l) = ucast v"
        using 2(5) [unfolded routed_def, rule_format, of l] 1(2)
        by (cases "map_of (rev (grants qs rs)) l"; cases "l = line") (auto simp: install_effect_def Ok q map_add_def)
    qed
    ultimately show ?thesis
      using run 1(2) g g2 2 by (intro exI [of _ "r # rs"] exI [of _ c']) (auto simp: install_effect_def vectors_grow_def Ok)
  qed
qed

text \<open>
  Without a VMBus the allocator hands out vector 34 as its second vector.  This is also so when the
  VMBus failed to start after SINT2 was pointed to it.
\<close>

lemma vector_34_free:
  "do { a \<leftarrow> boot_vectors False; (v1, a) \<leftarrow> allocate a; (v2, a) \<leftarrow> allocate a; Some (v1, v2) } = Some (33, 34)"
  by code_simp

section \<open>Theorems\<close>

text \<open>C16. Interrupt routing.  For every sequence of requests on an I/O APIC with \<open>n\<close> entries no request
  aborts.  A request fails exactly with an invalid line or with no vector left; the vectors granted
  are distinct and were free, and each of them holds the handler of its request in the end.  The
  redirection entry of a line points to the vector of the last request granted on it: when two
  devices share an interrupt line, the interrupts of both go to the handler installed last.\<close>

theorem pci_isr_routing:
  assumes "entries_ok n c"
  shows "\<exists>rs c'. install_all cpus qs c = Ret (rs, c') \<and> list_all2 (answered n c') qs rs \<and>
    distinct (map snd (grants qs rs)) \<and> set (map snd (grants qs rs)) \<inter> vectors_taken (ic_vectors c) = {} \<and>
    routed (grants qs rs) c c'"
  using install_all_spec [OF assms, of cpus qs] by blast

definition demo_irq :: "nat irq_ctx" where
  "demo_irq = \<lparr>ic_ioapic = \<lparr>io_regsel = 0, io_regs = (\<lambda>r. if r = 1 then 0x170020 else 0x10000)\<rparr>,
     ic_vectors = \<lparr>used = 0x81, start = 32, last = 47\<rparr>, ic_idt = idt_init 0\<rparr>"

theorem pci_isr_routing_witness:
  "\<exists>rs c'. install_all \<lparr>locals = [], gs_base = 0\<rparr> [(11, 1, Bsp), (11, 2, Bsp), (0xFF, 3, Bsp)] demo_irq = Ret (rs, c') \<and>
     grants [(11, 1, Bsp), (11, 2, Bsp), (0xFF, 3 :: nat, Bsp)] rs = [(11, 33), (11, 34)] \<and>
     fst (redirection c' 11) = 34 \<and> ic_idt c' 33 = Some 1"
proof -
  let ?qs = "[(11, 1, Bsp), (11, 2, Bsp), (0xFF, 3 :: nat, Bsp)]" and ?cpus = "\<lparr>locals = [], gs_base = 0\<rparr>"
  have ok: "entries_ok 24 demo_irq" by code_simp
  obtain rs c' where r: "install_all ?cpus ?qs demo_irq = Ret (rs, c')"
      "routed (grants ?qs rs) demo_irq c'"
    using pci_isr_routing [OF ok, of ?cpus ?qs] by blast
  have "map_option (grants ?qs \<circ> fst) (install_all ?cpus ?qs demo_irq) = Some [(11, 33), (11, 34)]" by code_simp
  then have g: "grants ?qs rs = [(11, 33), (11, 34)]" using r(1) by simp
  then have "fst (redirection c' 11) = ucast (34 :: u8)" using r(2) by (auto simp: routed_def dest: spec [of _ 11])
  moreover have "map_option (\<lambda>(rs, c). ic_idt c 33) (install_all ?cpus ?qs demo_irq) = Some (Some 1)" by code_simp
  then have "ic_idt c' 33 = Some 1" using r(1) by simp
  ultimately show ?thesis using r(1) g by auto
qed

end
