(* ===== verification/Hal_Memory.thy ===== *)
theory Hal_Memory
  imports Prelude
begin

text \<open>
  The memory mapper, \<open>crates/embclox-hal-x86/src/memory.rs\<close>.

  Addresses are 64-bit integers as natural numbers with the overflow checks written out.  The page
  tables belong to the \<open>x86_64\<close> crate and are a parameter: a record of its operations on a table
  state, and the predicate \<open>paging_laws\<close> that states the documented behaviour the mapper relies on.
  Flushing the TLB has no state here.
\<close>

section \<open>Page tables\<close>

datatype page_flag = PRESENT | WRITABLE | NO_CACHE

text \<open>
  \<open>VirtAddr::new\<close> and \<open>PhysAddr::new\<close> abort on addresses they do not accept.  \<open>map_to\<close> takes the frame
  allocator, the page, the frame and the flags; no result is an error.
\<close>

record 't paging =
  virt_ok :: "nat \<Rightarrow> bool"
  phys_ok :: "nat \<Rightarrow> bool"
  map_to :: "(nat \<Rightarrow> nat option run) \<Rightarrow> nat \<Rightarrow> nat \<Rightarrow> page_flag set \<Rightarrow> 't \<Rightarrow> 't option"
  unmap :: "nat \<Rightarrow> 't \<Rightarrow> 't option"
  translate :: "nat \<Rightarrow> 't \<Rightarrow> nat option"

definition containing_address :: "nat \<Rightarrow> nat" where
  "containing_address a = a - a mod 4096"

text \<open>
  Addresses below the limits are accepted; an unmapped page can be mapped and an address then
  translates through it at its offset, all others as before; a mapped page can be unmapped.
\<close>

definition page_set :: "'t paging \<Rightarrow> nat \<Rightarrow> nat option \<Rightarrow> 't \<Rightarrow> 't \<Rightarrow> bool" where
  "page_set pg page frame t t' \<longleftrightarrow> (\<forall>a. translate pg a t' =
     (if containing_address a = page then map_option (\<lambda>f. f + a mod 4096) frame else translate pg a t))"

definition paging_laws :: "'t paging \<Rightarrow> bool" where
  "paging_laws pg \<longleftrightarrow>
     (\<forall>a < 2 ^ 47. virt_ok pg a) \<and> (\<forall>a < 2 ^ 52. phys_ok pg a) \<and>
     (\<forall>al page frame fl t. page mod 4096 = 0 \<and> frame mod 4096 = 0 \<and> translate pg page t = None \<longrightarrow>
        (\<exists>t'. map_to pg al page frame fl t = Some t' \<and> page_set pg page (Some frame) t t')) \<and>
     (\<forall>page t. page mod 4096 = 0 \<and> translate pg page t \<noteq> None \<longrightarrow>
        (\<exists>t'. unmap pg page t = Some t' \<and> page_set pg page None t t'))"

section \<open>The mapper\<close>

definition MMIO_VIRT_BASE :: nat where "MMIO_VIRT_BASE = 0x400000000000"

record mmio_mapping =
  mm_vaddr :: nat
  mm_size :: nat

record memory_mapper =
  mm_phys_offset :: nat
  mm_kernel_offset :: nat
  next_vaddr :: nat

definition mapper_new :: "nat \<Rightarrow> nat \<Rightarrow> memory_mapper" where
  "mapper_new p k = \<lparr>mm_phys_offset = p, mm_kernel_offset = k, next_vaddr = MMIO_VIRT_BASE\<rparr>"

definition checked_add64 :: "nat \<Rightarrow> nat \<Rightarrow> nat run" where
  "checked_add64 a b = (if a + b < 2 ^ 64 then Ret (a + b) else Panic)"

text \<open>\<open>size.div_ceil(0x1000)\<close>.\<close>

definition num_pages :: "nat \<Rightarrow> nat" where
  "num_pages sz = (sz + 0xFFF) div 0x1000"

text \<open>\<open>HeapFrameAllocator::allocate_frame\<close>, given the pointer the heap returns.\<close>

definition allocate_frame :: "'t paging \<Rightarrow> nat \<Rightarrow> nat \<Rightarrow> nat option run" where
  "allocate_frame pg koff ptr = (if ptr = 0 then Ret None
     else do {
       paddr \<leftarrow> checked_sub ptr koff;
       assert_run (phys_ok pg paddr);
       Ret (Some (containing_address paddr)) })"

primrec map_pages :: "'t paging \<Rightarrow> (nat \<Rightarrow> nat option run) \<Rightarrow> page_flag set \<Rightarrow> nat \<Rightarrow> nat \<Rightarrow> nat list \<Rightarrow> 't \<Rightarrow> 't run" where
  "map_pages pg al flags virt_base phys_base [] t = Ret t"
| "map_pages pg al flags virt_base phys_base (i # is) t = do {
     v \<leftarrow> checked_add64 virt_base (i * 0x1000);
     assert_run (virt_ok pg v);
     p \<leftarrow> checked_add64 phys_base (i * 0x1000);
     assert_run (phys_ok pg p);
     t \<leftarrow> map_to pg al (containing_address v) (containing_address p) flags t;
     map_pages pg al flags virt_base phys_base is t }"

text \<open>The code of \<open>map_mmio\<close> and \<open>map_code\<close> is the same but for the flags and the message logged.\<close>

definition map_region :: "page_flag set \<Rightarrow> 't paging \<Rightarrow> nat \<Rightarrow> nat \<Rightarrow> memory_mapper \<Rightarrow> 't \<Rightarrow> (mmio_mapping \<times> memory_mapper \<times> 't) run" where
  "map_region flags pg phys_base sz m t = do {
     let virt_base = next_vaddr m;
     let n = num_pages sz;
     t \<leftarrow> map_pages pg (allocate_frame pg (mm_kernel_offset m)) flags virt_base phys_base [0..<n] t;
     assert_run ((n + 1) * 0x1000 < 2 ^ 64);
     nv \<leftarrow> checked_add64 virt_base ((n + 1) * 0x1000);
     Ret (\<lparr>mm_vaddr = virt_base, mm_size = sz\<rparr>, m\<lparr>next_vaddr := nv\<rparr>, t) }"

definition map_mmio :: "'t paging \<Rightarrow> nat \<Rightarrow> nat \<Rightarrow> memory_mapper \<Rightarrow> 't \<Rightarrow> (mmio_mapping \<times> memory_mapper \<times> 't) run" where
  "map_mmio pg phys_base sz m t = do {
     (h, m, t) \<leftarrow> map_region {PRESENT, WRITABLE, NO_CACHE} pg phys_base sz m t;
     checked_add64 phys_base sz;
     Ret (h, m, t) }"

definition map_code :: "'t paging \<Rightarrow> nat \<Rightarrow> nat \<Rightarrow> memory_mapper \<Rightarrow> 't \<Rightarrow> (mmio_mapping \<times> memory_mapper \<times> 't) run" where
  "map_code pg phys_base sz m t = map_region {PRESENT, WRITABLE} pg phys_base sz m t"

definition translate_addr :: "'t paging \<Rightarrow> nat \<Rightarrow> 't \<Rightarrow> nat option run" where
  "translate_addr pg vaddr t = do { assert_run (virt_ok pg vaddr); Ret (translate pg vaddr t) }"

primrec unmap_pages :: "'t paging \<Rightarrow> nat \<Rightarrow> nat list \<Rightarrow> 't \<Rightarrow> 't run" where
  "unmap_pages pg vaddr [] t = Ret t"
| "unmap_pages pg vaddr (i # is) t = do {
     v \<leftarrow> checked_add64 vaddr (i * 0x1000);
     assert_run (virt_ok pg v);
     t \<leftarrow> unmap pg (containing_address v) t;
     unmap_pages pg vaddr is t }"

definition unmap_mmio :: "'t paging \<Rightarrow> mmio_mapping \<Rightarrow> 't \<Rightarrow> 't run" where
  "unmap_mmio pg h t = unmap_pages pg (mm_vaddr h) [0..<num_pages (mm_size h)] t"

section \<open>Specification\<close>

text \<open>A sequence of requests, and what a live mapping is.\<close>

datatype map_request = MapMmio (req_phys: nat) (req_size: nat) | MapCode (req_phys: nat) (req_size: nat)

definition map_one :: "'t paging \<Rightarrow> map_request \<Rightarrow> memory_mapper \<Rightarrow> 't \<Rightarrow> (mmio_mapping \<times> memory_mapper \<times> 't) run" where
  "map_one pg r m t = (case r of MapMmio p sz \<Rightarrow> map_mmio pg p sz m t | MapCode p sz \<Rightarrow> map_code pg p sz m t)"

primrec map_all :: "'t paging \<Rightarrow> map_request list \<Rightarrow> memory_mapper \<Rightarrow> 't \<Rightarrow> (mmio_mapping list \<times> memory_mapper \<times> 't) run" where
  "map_all pg [] m t = Ret ([], m, t)"
| "map_all pg (r # rs) m t = do {
     (h, m, t) \<leftarrow> map_one pg r m t;
     (hs, m, t) \<leftarrow> map_all pg rs m t;
     Ret (h # hs, m, t) }"

text \<open>The length of a region in the address space.\<close>

definition extent :: "nat \<Rightarrow> nat" where "extent sz = num_pages sz * 4096"

definition in_region :: "mmio_mapping \<Rightarrow> nat \<Rightarrow> bool" where
  "in_region h a \<longleftrightarrow> mm_vaddr h \<le> a \<and> a < mm_vaddr h + extent (mm_size h)"

text \<open>
  A mapping of a request: its addresses translate to the physical region from the start of its
  first page on, and the page behind it is not mapped.
\<close>

definition live :: "'t paging \<Rightarrow> 't \<Rightarrow> map_request \<Rightarrow> mmio_mapping \<Rightarrow> bool" where
  "live pg t r h \<longleftrightarrow> mm_size h = req_size r \<and>
     (\<forall>a. in_region h a \<longrightarrow> translate pg a t = Some (containing_address (req_phys r) + (a - mm_vaddr h))) \<and>
     (\<forall>k < 4096. translate pg (mm_vaddr h + extent (mm_size h) + k) t = None)"

text \<open>Regions in increasing order with at least one page between them.\<close>

definition apart :: "mmio_mapping list \<Rightarrow> bool" where
  "apart hs \<longleftrightarrow> sorted_wrt (\<lambda>h h'. mm_vaddr h + extent (mm_size h) + 4096 \<le> mm_vaddr h') hs"

section \<open>Lemmas\<close>

lemma paging_lawsD:
  assumes "paging_laws pg"
  shows "a < 2 ^ 47 \<Longrightarrow> virt_ok pg a" "a < 2 ^ 52 \<Longrightarrow> phys_ok pg a"
    "page mod 4096 = 0 \<Longrightarrow> frame mod 4096 = 0 \<Longrightarrow> translate pg page t = None \<Longrightarrow>
      \<exists>t'. map_to pg al page frame fl t = Some t' \<and> page_set pg page (Some frame) t t'"
    "page mod 4096 = 0 \<Longrightarrow> translate pg page t \<noteq> None \<Longrightarrow> \<exists>t'. unmap pg page t = Some t' \<and> page_set pg page None t t'"
  using assms unfolding paging_laws_def by simp_all

lemma containing_mod [simp]: "containing_address a mod 4096 = 0"
  by (simp add: containing_address_def minus_mod_eq_mult_div)

lemma containing_le: "containing_address a \<le> a" "a < containing_address a + 4096"
  using mod_less_divisor [of 4096 a] mod_less_eq_dividend [of a 4096] unfolding containing_address_def by linarith+

lemma containing_eq_iff:
  assumes "q mod 4096 = 0"
  shows "containing_address a = q \<longleftrightarrow> q \<le> a \<and> a < q + 4096"
proof
  show "containing_address a = q \<Longrightarrow> q \<le> a \<and> a < q + 4096" using containing_le [of a] by simp
  assume a: "q \<le> a \<and> a < q + 4096"
  obtain c where c: "q = 4096 * c" using assms by auto
  have "a = 4096 * c + (a - q)" "a - q < 4096" using a c by linarith+
  then have "a mod 4096 = a - q" by (metis mod_less mod_mult_self4 mult.commute add.commute mod_mult_self2)
  then show "containing_address a = q" using a by (simp add: containing_address_def)
qed

lemma containing_page: "b mod 4096 = 0 \<Longrightarrow> containing_address b = b"
  by (simp add: containing_address_def)

lemma containing_shift: "containing_address (p + i * 4096) = containing_address p + i * 4096"
  using mod_less_eq_dividend [of p 4096] by (simp add: containing_address_def)

text \<open>Mapping the pages from index \<open>k\<close> on.\<close>

lemma map_pages_spec:
  assumes "paging_laws pg" "v mod 4096 = 0" "v + n * 4096 \<le> 2 ^ 47" "p + n * 4096 \<le> 2 ^ 52"
    "\<forall>a. v + k * 4096 \<le> a \<and> a < v + n * 4096 \<longrightarrow> translate pg a t = None" "k \<le> n"
  shows "\<exists>t'. map_pages pg al fl v p [k..<n] t = Ret t' \<and>
    (\<forall>a. translate pg a t' = (if v + k * 4096 \<le> a \<and> a < v + n * 4096 then Some (containing_address p + (a - v)) else translate pg a t))"
  using assms(5,6)
proof (induction "n - k" arbitrary: k t)
  case 0
  then show ?case by auto
next
  case (Suc j)
  let ?v = "v + k * 4096" and ?p = "containing_address p + k * 4096"
  have k: "k < n" "Suc k \<le> n" "j = n - Suc k" using Suc.hyps(2) by auto
  then have b: "?v + 4096 \<le> v + n * 4096" "p + k * 4096 < 2 ^ 52"
    using assms(4) by auto
  then have v: "?v < 2 ^ 47" "?v < 2 ^ 64" "p + k * 4096 < 2 ^ 64" using assms(3) by auto
  have u: "translate pg ?v t = None" using Suc.prems(1) b(1) by auto
  obtain t1 where t1: "map_to pg al ?v ?p fl t = Some t1"
      "\<And>a. translate pg a t1 = (if containing_address a = ?v then Some (?p + a mod 4096) else translate pg a t)"
    using paging_lawsD(3) [OF assms(1), of ?v ?p t al fl] u assms(2) by (auto simp: page_set_def)
  have "\<forall>a. v + Suc k * 4096 \<le> a \<and> a < v + n * 4096 \<longrightarrow> translate pg a t1 = None"
    using Suc.prems(1) t1(2) containing_eq_iff [of ?v] assms(2) by auto
  then obtain t' where t': "map_pages pg al fl v p [Suc k..<n] t1 = Ret t'"
      "\<And>a. translate pg a t' = (if v + Suc k * 4096 \<le> a \<and> a < v + n * 4096 then Some (containing_address p + (a - v)) else translate pg a t1)"
    using Suc.hyps(1) [OF k(3) _ k(2)] by blast
  have "map_pages pg al fl v p [k..<n] t = Ret t'"
    using k(1) v b(2) t1(1) t'(1) paging_lawsD(1,2) [OF assms(1)] assms(2)
    by (simp add: upt_rec [of k] checked_add64_def assert_run_def containing_shift containing_page [OF assms(2)])
  moreover have "translate pg a t' = (if ?v \<le> a \<and> a < v + n * 4096 then Some (containing_address p + (a - v)) else translate pg a t)" for a
  proof -
    have c: "containing_address a = ?v \<longleftrightarrow> ?v \<le> a \<and> a < ?v + 4096" using containing_eq_iff [of ?v a] assms(2) by simp
    have "?p + a mod 4096 = containing_address p + (a - v)" if "containing_address a = ?v"
      using that c mod_less_eq_dividend [of a 4096] by (simp add: containing_address_def)
    then show ?thesis unfolding t'(2) t1(2) using c b(1) by auto
  qed
  ultimately show ?case by blast
qed

lemma unmap_pages_spec:
  assumes "paging_laws pg" "v mod 4096 = 0" "v + n * 4096 \<le> 2 ^ 47"
    "\<forall>a. v + k * 4096 \<le> a \<and> a < v + n * 4096 \<longrightarrow> translate pg a t \<noteq> None" "k \<le> n"
  shows "\<exists>t'. unmap_pages pg v [k..<n] t = Ret t' \<and>
    (\<forall>a. translate pg a t' = (if v + k * 4096 \<le> a \<and> a < v + n * 4096 then None else translate pg a t))"
  using assms(4,5)
proof (induction "n - k" arbitrary: k t)
  case 0
  then show ?case by auto
next
  case (Suc j)
  let ?v = "v + k * 4096"
  have k: "k < n" "Suc k \<le> n" "j = n - Suc k" using Suc.hyps(2) by auto
  then have b: "?v + 4096 \<le> v + n * 4096" by auto
  then have v: "?v < 2 ^ 47" "?v < 2 ^ 64" using assms(3) by auto
  have u: "translate pg ?v t \<noteq> None" using Suc.prems(1) b by auto
  have c: "containing_address a = ?v \<longleftrightarrow> ?v \<le> a \<and> a < ?v + 4096" for a using containing_eq_iff [of ?v a] assms(2) by simp
  obtain t1 where t1: "unmap pg ?v t = Some t1"
      "\<And>a. translate pg a t1 = (if containing_address a = ?v then None else translate pg a t)"
    using paging_lawsD(4) [OF assms(1), of ?v t] u assms(2) by (auto simp: page_set_def)
  have "\<forall>a. v + Suc k * 4096 \<le> a \<and> a < v + n * 4096 \<longrightarrow> translate pg a t1 \<noteq> None"
    using Suc.prems(1) t1(2) c by auto
  then obtain t' where t': "unmap_pages pg v [Suc k..<n] t1 = Ret t'"
      "\<And>a. translate pg a t' = (if v + Suc k * 4096 \<le> a \<and> a < v + n * 4096 then None else translate pg a t1)"
    using Suc.hyps(1) [OF k(3) _ k(2)] by blast
  have "unmap_pages pg v [k..<n] t = Ret t'"
    using k(1) v t1(1) t'(1) paging_lawsD(1) [OF assms(1)]
    by (simp add: upt_rec [of k] checked_add64_def assert_run_def containing_shift containing_page [OF assms(2)])
  moreover have "translate pg a t' = (if ?v \<le> a \<and> a < v + n * 4096 then None else translate pg a t)" for a
    unfolding t'(2) t1(2) using c [of a] b by auto
  ultimately show ?case by blast
qed

text \<open>The part of the address space from the next address on is unmapped.\<close>

definition window_free :: "'t paging \<Rightarrow> memory_mapper \<Rightarrow> 't \<Rightarrow> bool" where
  "window_free pg m t \<longleftrightarrow> next_vaddr m mod 4096 = 0 \<and> (\<forall>a. next_vaddr m \<le> a \<and> a < 2 ^ 47 \<longrightarrow> translate pg a t = None)"

lemma size_le_extent: "sz \<le> extent sz"
  by (simp add: extent_def num_pages_def)

lemma map_region_spec:
  assumes "paging_laws pg" "window_free pg m t" "next_vaddr m + extent sz + 4096 \<le> 2 ^ 47" "p + extent sz \<le> 2 ^ 52"
  shows "\<exists>t'. map_region fl pg p sz m t =
      Ret (\<lparr>mm_vaddr = next_vaddr m, mm_size = sz\<rparr>, m\<lparr>next_vaddr := next_vaddr m + extent sz + 4096\<rparr>, t') \<and>
    (\<forall>a. translate pg a t' = (if next_vaddr m \<le> a \<and> a < next_vaddr m + extent sz
       then Some (containing_address p + (a - next_vaddr m)) else translate pg a t)) \<and>
    window_free pg (m\<lparr>next_vaddr := next_vaddr m + extent sz + 4096\<rparr>) t'"
proof -
  let ?v = "next_vaddr m" and ?n = "num_pages sz"
  have v: "?v mod 4096 = 0" "\<forall>a. ?v + 0 * 4096 \<le> a \<and> a < ?v + ?n * 4096 \<longrightarrow> translate pg a t = None"
    using assms(2,3) by (auto simp: window_free_def extent_def)
  have b: "?v + ?n * 4096 \<le> 2 ^ 47" "p + ?n * 4096 \<le> 2 ^ 52" using assms(3,4) by (simp_all add: extent_def)
  obtain t' where t': "map_pages pg (allocate_frame pg (mm_kernel_offset m)) fl ?v p [0..<?n] t = Ret t'"
      "\<forall>a. translate pg a t' = (if ?v \<le> a \<and> a < ?v + ?n * 4096 then Some (containing_address p + (a - ?v)) else translate pg a t)"
    using map_pages_spec [OF assms(1) v(1) b v(2), of "allocate_frame pg (mm_kernel_offset m)" fl] by auto
  have s: "(?n + 1) * 4096 < 2 ^ 64" "?v + (?n + 1) * 4096 < 2 ^ 64" "?v + (?n + 1) * 4096 = ?v + extent sz + 4096"
    using assms(3) by (simp_all add: extent_def)
  have "map_region fl pg p sz m t =
      Ret (\<lparr>mm_vaddr = ?v, mm_size = sz\<rparr>, m\<lparr>next_vaddr := ?v + extent sz + 4096\<rparr>, t')"
    using t'(1) s unfolding map_region_def Let_def by (simp add: checked_add64_def assert_run_def)
  moreover have "window_free pg (m\<lparr>next_vaddr := ?v + extent sz + 4096\<rparr>) t'"
    using assms(2) t'(2) by (auto simp: window_free_def extent_def)
  ultimately show ?thesis using t'(2) unfolding extent_def by blast
qed

definition fits :: "memory_mapper \<Rightarrow> map_request list \<Rightarrow> bool" where
  "fits m rs \<longleftrightarrow> next_vaddr m + sum_list (map (\<lambda>r. extent (req_size r) + 4096) rs) \<le> 2 ^ 47 \<and>
     (\<forall>r \<in> set rs. req_phys r + extent (req_size r) \<le> 2 ^ 52)"

lemma map_one_spec:
  assumes "paging_laws pg" "window_free pg m t" "next_vaddr m + extent (req_size r) + 4096 \<le> 2 ^ 47"
    "req_phys r + extent (req_size r) \<le> 2 ^ 52"
  shows "\<exists>h m' t'. map_one pg r m t = Ret (h, m', t') \<and> mm_vaddr h = next_vaddr m \<and> mm_size h = req_size r \<and>
    next_vaddr m' = next_vaddr m + extent (req_size r) + 4096 \<and> window_free pg m' t' \<and>
    (\<forall>a. translate pg a t' = (if in_region h a
       then Some (containing_address (req_phys r) + (a - mm_vaddr h)) else translate pg a t))"
proof -
  have "req_phys r + req_size r < 2 ^ 64" using size_le_extent [of "req_size r"] assms(4) by simp
  then have c: "checked_add64 (req_phys r) (req_size r) = Ret (req_phys r + req_size r)" by (simp add: checked_add64_def)
  show ?thesis
    using map_region_spec [OF assms(1-4), of "{PRESENT, WRITABLE, NO_CACHE}"] map_region_spec [OF assms(1-4), of "{PRESENT, WRITABLE}"] c
    by (cases r) (fastforce simp: map_one_def map_mmio_def map_code_def in_region_def)+
qed

lemma map_all_spec:
  assumes "paging_laws pg" "window_free pg m t" "fits m rs"
  shows "\<exists>hs m' t'. map_all pg rs m t = Ret (hs, m', t') \<and> list_all2 (live pg t') rs hs \<and> apart hs \<and>
    list_all (\<lambda>h. next_vaddr m \<le> mm_vaddr h \<and> mm_vaddr h mod 4096 = 0 \<and> mm_vaddr h + extent (mm_size h) \<le> 2 ^ 47) hs \<and>
    (\<forall>a < next_vaddr m. translate pg a t' = translate pg a t)"
  using assms(2,3)
proof (induction rs arbitrary: m t)
  case Nil
  then show ?case by (simp add: apart_def)
next
  case (Cons r rs)
  have f: "next_vaddr m + extent (req_size r) + 4096 \<le> 2 ^ 47" "req_phys r + extent (req_size r) \<le> 2 ^ 52"
    using Cons.prems(2) by (auto simp: fits_def)
  obtain h m1 t1 where 1: "map_one pg r m t = Ret (h, m1, t1)" "mm_vaddr h = next_vaddr m" "mm_size h = req_size r"
      "next_vaddr m1 = next_vaddr m + extent (req_size r) + 4096" "window_free pg m1 t1"
      "\<forall>a. translate pg a t1 = (if in_region h a
         then Some (containing_address (req_phys r) + (a - mm_vaddr h)) else translate pg a t)"
    using map_one_spec [OF assms(1) Cons.prems(1) f] by blast
  have "fits m1 rs" using Cons.prems(2) 1(4) by (simp add: fits_def)
  then obtain hs m' t' where 2: "map_all pg rs m1 t1 = Ret (hs, m', t')" "list_all2 (live pg t') rs hs" "apart hs"
      "list_all (\<lambda>h. next_vaddr m1 \<le> mm_vaddr h \<and> mm_vaddr h mod 4096 = 0 \<and> mm_vaddr h + extent (mm_size h) \<le> 2 ^ 47) hs"
      "\<forall>a < next_vaddr m1. translate pg a t' = translate pg a t1"
    using Cons.IH [OF 1(5)] by blast
  have w: "next_vaddr m mod 4096 = 0" "\<And>a. next_vaddr m \<le> a \<Longrightarrow> a < 2 ^ 47 \<Longrightarrow> translate pg a t = None"
    using Cons.prems(1) by (auto simp: window_free_def)
  have "live pg t' r h"
    unfolding live_def using 1(2-4,6) 2(5) f(1) w(2) by (auto simp: in_region_def)
  moreover have "apart (h # hs)"
    using 2(3,4) 1(2-4) by (auto simp: apart_def list_all_iff)
  moreover have "list_all (\<lambda>h. next_vaddr m \<le> mm_vaddr h \<and> mm_vaddr h mod 4096 = 0 \<and> mm_vaddr h + extent (mm_size h) \<le> 2 ^ 47) (h # hs)"
    using 2(4) 1(2-4) f(1) w(1) by (auto simp: list_all_iff)
  moreover have "\<forall>a < next_vaddr m. translate pg a t' = translate pg a t"
    using 2(5) 1(2,4,6) by (simp add: in_region_def)
  ultimately show ?case using 1(1) 2(1,2) by auto
qed

lemma unmap_live:
  assumes "paging_laws pg" "live pg t r h" "mm_vaddr h mod 4096 = 0" "mm_vaddr h + extent (mm_size h) \<le> 2 ^ 47"
  shows "\<exists>t'. unmap_mmio pg h t = Ret t' \<and>
    (\<forall>a. translate pg a t' = (if in_region h a then None else translate pg a t))"
  using unmap_pages_spec [OF assms(1,3), of "num_pages (mm_size h)" 0 t] assms(2,4)
  by (auto simp: live_def in_region_def extent_def unmap_mmio_def)

section \<open>Theorems\<close>


text \<open>A page table as a map from pages to frames.\<close>

definition map_paging :: "(nat \<rightharpoonup> nat) paging" where
  "map_paging = \<lparr>virt_ok = (\<lambda>a. a < 2 ^ 47), phys_ok = (\<lambda>a. a < 2 ^ 52),
     map_to = (\<lambda>al page frame fl t. if t page \<noteq> None then None else Some (t(page \<mapsto> frame))),
     unmap = (\<lambda>page t. if t page = None then None else Some (t(page := None))),
     translate = (\<lambda>a t. map_option (\<lambda>f. f + a mod 4096) (t (containing_address a)))\<rparr>"

lemma map_paging_laws: "paging_laws map_paging"
  by (simp add: paging_laws_def map_paging_def page_set_def) (metis containing_page gr0I)


end
