(* ===== verification/Kernel_Timing.thy ===== *)
theory Kernel_Timing
  imports Hal_Time Hal_Irq Hal_Memory Hv_Vmbus
begin

text \<open>
  The periodic timer of every CPU: the local APIC of \<open>crates/embclox-hal-x86/src/apic.rs\<close>, the
  calibration by \<open>pit.rs\<close> or a Hyper-V MSR, \<open>pic.rs\<close>, the timer part of \<open>runtime.rs\<close>, the whole of
  \<open>smp::ap_setup\<close>, and the order in which \<open>examples-kernel/src/main.rs\<close> calls them.

  Each CPU has its own register file behind one mapping, so an access is legal when the page tables
  translate its address into the APIC page.  Reads of registers and ports, the time-stamp counter and
  CPUID are parameters, the latter indexed by the number of reads so far.
\<close>

section \<open>Machine and kernel state\<close>

datatype 'h isr = Default_Isr | Timer_Isr | Spurious_Isr | Device_Isr 'h

record ('h, 't) kernel =
  k_memory :: memory_mapper
  k_table :: 't
  k_lapic_vaddr :: nat
  k_lapic :: "cpu_id \<Rightarrow> nat \<Rightarrow> u32"
  k_idt :: "'h isr idt"
  k_time :: time_driver
  k_cpus :: cpu_table
  k_ports :: "(u16 \<times> u8) list"
  k_port61 :: nat
  k_tscs :: nat

record 't machine =
  m_paging :: "'t paging"
  m_lapic :: "cpu_id \<Rightarrow> nat \<Rightarrow> u32 \<Rightarrow> u32"
  m_port61 :: "nat \<Rightarrow> u8"
  m_tsc :: "nat \<Rightarrow> u64"
  m_cpuid :: "u32 \<Rightarrow> cpuid_result"
  m_tsc_frequency :: u64

definition outb :: "u16 \<Rightarrow> u8 \<Rightarrow> ('h, 't) kernel \<Rightarrow> ('h, 't) kernel" where
  "outb port v k = k\<lparr>k_ports := k_ports k @ [(port, v)]\<rparr>"

definition inb61 :: "'t machine \<Rightarrow> ('h, 't) kernel \<Rightarrow> u8 \<times> ('h, 't) kernel" where
  "inb61 M k = (m_port61 M (k_port61 k), k\<lparr>k_port61 := Suc (k_port61 k)\<rparr>)"

definition rdtsc :: "'t machine \<Rightarrow> ('h, 't) kernel \<Rightarrow> u64 \<times> ('h, 't) kernel" where
  "rdtsc M k = (m_tsc M (k_tscs k), k\<lparr>k_tscs := Suc (k_tscs k)\<rparr>)"

section \<open>The local APIC\<close>

definition APIC_ID :: nat where "APIC_ID = 0x020"
definition APIC_VERSION :: nat where "APIC_VERSION = 0x030"
definition APIC_TPR :: nat where "APIC_TPR = 0x080"
definition APIC_EOI :: nat where "APIC_EOI = 0x0B0"
definition APIC_SVR :: nat where "APIC_SVR = 0x0F0"
definition APIC_LVT_TIMER :: nat where "APIC_LVT_TIMER = 0x320"
definition APIC_TIMER_INIT_CNT :: nat where "APIC_TIMER_INIT_CNT = 0x380"
definition APIC_TIMER_CURR_CNT :: nat where "APIC_TIMER_CURR_CNT = 0x390"
definition APIC_TIMER_DIV :: nat where "APIC_TIMER_DIV = 0x3E0"
definition APIC_SVR_ENABLE :: u32 where "APIC_SVR_ENABLE = 0x100"
definition APIC_TIMER_PERIODIC :: u32 where "APIC_TIMER_PERIODIC = push_bit 17 1"
definition APIC_TIMER_MASKED :: u32 where "APIC_TIMER_MASKED = push_bit 16 1"
definition LAPIC_PHYS_BASE :: nat where "LAPIC_PHYS_BASE = 0xFEE00000"

definition apic_init :: "nat \<Rightarrow> ('h, 't) kernel \<Rightarrow> ('h, 't) kernel" where
  "apic_init va k = k\<lparr>k_lapic_vaddr := va\<rparr>"

definition apic_reaches :: "'t machine \<Rightarrow> nat \<Rightarrow> ('h, 't) kernel \<Rightarrow> bool" where
  "apic_reaches M off k \<longleftrightarrow> translate (m_paging M) (k_lapic_vaddr k + off) (k_table k) = Some (LAPIC_PHYS_BASE + off)"

definition apic_read :: "'t machine \<Rightarrow> cpu_id \<Rightarrow> nat \<Rightarrow> ('h, 't) kernel \<Rightarrow> u32 run" where
  "apic_read M cpu off k = do { assert_run (apic_reaches M off k); Ret (m_lapic M cpu off (k_lapic k cpu off)) }"

definition apic_write :: "'t machine \<Rightarrow> cpu_id \<Rightarrow> nat \<Rightarrow> u32 \<Rightarrow> ('h, 't) kernel \<Rightarrow> ('h, 't) kernel run" where
  "apic_write M cpu off v k = do {
     assert_run (apic_reaches M off k);
     Ret (k\<lparr>k_lapic := (k_lapic k)(cpu := (k_lapic k cpu)(off := v))\<rparr>) }"

definition apic_enable :: "'t machine \<Rightarrow> cpu_id \<Rightarrow> ('h, 't) kernel \<Rightarrow> ('h, 't) kernel run" where
  "apic_enable M cpu k = do {
     k \<leftarrow> apic_write M cpu APIC_SVR (APIC_SVR_ENABLE OR 39) k;
     k \<leftarrow> apic_write M cpu APIC_TPR 0 k;
     apic_read M cpu APIC_ID k;
     apic_read M cpu APIC_VERSION k;
     Ret k }"

definition divider_code :: "u8 \<Rightarrow> u32 run" where
  "divider_code d = (if d = 1 then Ret 0xB else if d = 2 then Ret 0 else if d = 4 then Ret 1 else if d = 8 then Ret 2
     else if d = 16 then Ret 3 else if d = 32 then Ret 8 else if d = 64 then Ret 9 else if d = 128 then Ret 0xA else Panic)"

definition set_divider :: "'t machine \<Rightarrow> cpu_id \<Rightarrow> u8 \<Rightarrow> ('h, 't) kernel \<Rightarrow> ('h, 't) kernel run" where
  "set_divider M cpu d k = do { v \<leftarrow> divider_code d; apic_write M cpu APIC_TIMER_DIV v k }"

definition set_timer_periodic :: "'t machine \<Rightarrow> cpu_id \<Rightarrow> u8 \<Rightarrow> u8 \<Rightarrow> u32 \<Rightarrow> ('h, 't) kernel \<Rightarrow> ('h, 't) kernel run" where
  "set_timer_periodic M cpu vector divider initial_count k = do {
     k \<leftarrow> set_divider M cpu divider k;
     k \<leftarrow> apic_write M cpu APIC_LVT_TIMER (APIC_TIMER_PERIODIC OR ucast vector) k;
     apic_write M cpu APIC_TIMER_INIT_CNT initial_count k }"

definition mask_timer :: "'t machine \<Rightarrow> cpu_id \<Rightarrow> ('h, 't) kernel \<Rightarrow> ('h, 't) kernel run" where
  "mask_timer M cpu k = do {
     lvt \<leftarrow> apic_read M cpu APIC_LVT_TIMER k;
     apic_write M cpu APIC_LVT_TIMER (lvt OR APIC_TIMER_MASKED) k }"

definition timer_current_count :: "'t machine \<Rightarrow> cpu_id \<Rightarrow> ('h, 't) kernel \<Rightarrow> u32 run" where
  "timer_current_count M cpu k = apic_read M cpu APIC_TIMER_CURR_CNT k"

definition set_timer_initial_count :: "'t machine \<Rightarrow> cpu_id \<Rightarrow> u32 \<Rightarrow> ('h, 't) kernel \<Rightarrow> ('h, 't) kernel run" where
  "set_timer_initial_count M cpu n k = apic_write M cpu APIC_TIMER_INIT_CNT n k"

definition set_timer_oneshot_masked :: "'t machine \<Rightarrow> cpu_id \<Rightarrow> u8 \<Rightarrow> ('h, 't) kernel \<Rightarrow> ('h, 't) kernel run" where
  "set_timer_oneshot_masked M cpu divider k = do {
     k \<leftarrow> set_divider M cpu divider k;
     apic_write M cpu APIC_LVT_TIMER (APIC_TIMER_MASKED OR 32) k }"

definition apic_eoi :: "'t machine \<Rightarrow> cpu_id \<Rightarrow> ('h, 't) kernel \<Rightarrow> ('h, 't) kernel run" where
  "apic_eoi M cpu k = apic_write M cpu APIC_EOI 0 k"

definition apic_own_id :: "'t machine \<Rightarrow> cpu_id \<Rightarrow> ('h, 't) kernel \<Rightarrow> u8 run" where
  "apic_own_id M cpu k = do { v \<leftarrow> apic_read M cpu APIC_ID k; Ret (ucast (drop_bit 24 v)) }"

section \<open>Legacy PIC and PIT\<close>

definition pic_disable :: "('h, 't) kernel \<Rightarrow> ('h, 't) kernel" where
  "pic_disable k = fold (\<lambda>(p, v). outb p v)
     [(0x20, 0x11), (0xA0, 0x11), (0x21, 0x20), (0xA1, 0x28), (0x21, 0x04), (0xA1, 0x02),
      (0x21, 0x01), (0xA1, 0x01), (0x21, 0xFF), (0xA1, 0xFF)] k"

definition PIT_CH2_DATA :: u16 where "PIT_CH2_DATA = 0x42"
definition PIT_CMD :: u16 where "PIT_CMD = 0x43"
definition PIT_FREQ_HZ :: u64 where "PIT_FREQ_HZ = 1193182"

text \<open>The wait for bit 5 of port 0x61, at most the given number of reads.\<close>

primrec pit_wait :: "nat \<Rightarrow> 't machine \<Rightarrow> ('h, 't) kernel \<Rightarrow> bool \<times> ('h, 't) kernel" where
  "pit_wait 0 M k = (False, k)"
| "pit_wait (Suc n) M k = (case inb61 M k of (v, k) \<Rightarrow> if v AND 0x20 \<noteq> 0 then (True, k) else pit_wait n M k)"

definition pit_spins :: nat where "pit_spins = 100000001"

definition expected_us :: u64 where "expected_us = 11932 * 1000000 div PIT_FREQ_HZ"

definition calibrate_tsc_mhz :: "'t machine \<Rightarrow> ('h, 't) kernel \<Rightarrow> (u64 option \<times> ('h, 't) kernel) run" where
  "calibrate_tsc_mhz M k = (
     let (val, k) = inb61 M k;
         k = outb 0x61 ((val OR 0x01) AND NOT 0x02) k;
         k = outb PIT_CMD 0xB0 k;
         k = outb PIT_CH2_DATA (ucast (11932 :: u16)) k;
         k = outb PIT_CH2_DATA (ucast (drop_bit 8 (11932 :: u16))) k;
         (tsc_start, k) = rdtsc M k;
         (hit, k) = pit_wait pit_spins M k in
     if \<not> hit then Ret (None, k)
     else let (tsc_end, k) = rdtsc M k in do {
       assert_run (tsc_start \<le> tsc_end);
       let tsc_per_us = (tsc_end - tsc_start) div expected_us in
       Ret (if tsc_per_us = 0 then None else Some tsc_per_us, k) })"

section \<open>The timer of a CPU\<close>

definition APIC_TIMER_VECTOR :: u8 where "APIC_TIMER_VECTOR = 32"
definition SPURIOUS_VECTOR :: u8 where "SPURIOUS_VECTOR = 39"
definition APIC_TIMER_PERIOD_US :: u64 where "APIC_TIMER_PERIOD_US = 1000"
definition APIC_TIMER_DIVIDER :: u8 where "APIC_TIMER_DIVIDER = 16"

definition timer_count :: "u64 \<Rightarrow> u32 run" where
  "timer_count t = do {
     assert_run (unat t * unat APIC_TIMER_PERIOD_US < 2 ^ 64);
     Ret (ucast (t * APIC_TIMER_PERIOD_US div ucast APIC_TIMER_DIVIDER)) }"

definition ap_start_apic_timer :: "'t machine \<Rightarrow> cpu_id \<Rightarrow> u64 \<Rightarrow> ('h, 't) kernel \<Rightarrow> ('h, 't) kernel run" where
  "ap_start_apic_timer M cpu t k = do {
     count \<leftarrow> timer_count t;
     set_timer_periodic M cpu APIC_TIMER_VECTOR APIC_TIMER_DIVIDER count k }"

definition start_apic_timer :: "'t machine \<Rightarrow> cpu_id \<Rightarrow> u64 \<Rightarrow> ('h, 't) kernel \<Rightarrow> ('h, 't) kernel run" where
  "start_apic_timer M cpu t k = do {
     idt \<leftarrow> set_handler APIC_TIMER_VECTOR Timer_Isr (k_idt k);
     idt \<leftarrow> set_handler SPURIOUS_VECTOR Spurious_Isr idt;
     ap_start_apic_timer M cpu t (k\<lparr>k_idt := idt\<rparr>) }"

definition apic_timer_isr :: "'t machine \<Rightarrow> cpu_id \<Rightarrow> ('h, 't) kernel \<Rightarrow> (waker list \<times> ('h, 't) kernel) run" where
  "apic_timer_isr M cpu k = (case rdtsc M k of (tsc, k) \<Rightarrow> do {
     (wakes, d) \<leftarrow> on_timer_tick cpu tsc (k_time k);
     k \<leftarrow> apic_eoi M cpu (k\<lparr>k_time := d\<rparr>);
     Ret (wakes, k) })"

section \<open>Start-up\<close>

definition read_hv_tsc_freq :: "'t machine \<Rightarrow> u64 option" where
  "read_hv_tsc_freq M = (case detect (m_cpuid M) of None \<Rightarrow> None
     | Some f \<Rightarrow> if m_tsc_frequency M \<noteq> 0 then Some (m_tsc_frequency M div 1000000) else None)"

definition boot_tsc :: "'t machine \<Rightarrow> ('h, 't) kernel \<Rightarrow> (u64 \<times> ('h, 't) kernel) run" where
  "boot_tsc M k = (case read_hv_tsc_freq M of Some t \<Rightarrow> Ret (t, k)
     | None \<Rightarrow> do { (r, k) \<leftarrow> calibrate_tsc_mhz M k; Ret (case r of Some t \<Rightarrow> t | None \<Rightarrow> 2400, k) })"

definition boot_timing :: "'t machine \<Rightarrow> ('h, 't) kernel \<Rightarrow> ('h, 't) kernel run" where
  "boot_timing M k = do {
     let k = pic_disable (k\<lparr>k_idt := idt_init Default_Isr\<rparr>);
     (h, m, t) \<leftarrow> map_mmio (m_paging M) LAPIC_PHYS_BASE 0x1000 (k_memory k) (k_table k);
     k \<leftarrow> apic_enable M Bsp (apic_init (mm_vaddr h) (k\<lparr>k_memory := m, k_table := t\<rparr>));
     aid \<leftarrow> apic_own_id M Bsp k;
     (tsc, k) \<leftarrow> boot_tsc M (k\<lparr>k_cpus := init_bsp aid (k_cpus k)\<rparr>);
     start_apic_timer M Bsp tsc (k\<lparr>k_time := set_tsc_per_us tsc (k_time k)\<rparr>) }"

text \<open>\<open>ap_setup\<close> on the application processor itself, and any number of processors that run it.\<close>

definition ap_setup_cpu :: "'t machine \<Rightarrow> ap_init \<Rightarrow> ('h, 't) kernel \<Rightarrow> ('h, 't) kernel run" where
  "ap_setup_cpu M i k = do {
     cpus \<leftarrow> ap_setup i (k_cpus k);
     k \<leftarrow> apic_enable M (ai_cpu_id i) (k\<lparr>k_cpus := cpus\<rparr>);
     ap_start_apic_timer M (ai_cpu_id i) (ai_tsc_per_us i) k }"

primrec ap_setups :: "'t machine \<Rightarrow> ap_init list \<Rightarrow> ('h, 't) kernel \<Rightarrow> ('h, 't) kernel run" where
  "ap_setups M [] k = Ret k"
| "ap_setups M (i # is) k = do { k \<leftarrow> ap_setup_cpu M i k; ap_setups M is k }"

text \<open>The comparison of time-stamp counters, in signed 64-bit arithmetic with overflow an abort.\<close>

definition check_i64 :: "int \<Rightarrow> u64 run" where
  "check_i64 i = (if - (2 ^ 63) \<le> i \<and> i < 2 ^ 63 then Ret (of_int i) else Panic)"

definition check_tsc_sync :: "'t machine \<Rightarrow> u64 \<Rightarrow> u64 \<Rightarrow> ('h, 't) kernel \<Rightarrow> (u64 \<times> ('h, 't) kernel) run" where
  "check_tsc_sync M bsp_tsc t k = (case rdtsc M k of (ap_tsc, k) \<Rightarrow> do {
     delta \<leftarrow> check_i64 (sint ap_tsc - sint bsp_tsc);
     one_ms_ticks \<leftarrow> check_i64 (sint t * 1000);
     Ret (delta, k) })"

section \<open>Lemmas\<close>

text \<open>The APIC page is mapped; what a running timer looks like; a hypervisor clock below one megahertz.\<close>

definition apic_page :: "'t machine \<Rightarrow> ('h, 't) kernel \<Rightarrow> bool" where
  "apic_page M k \<longleftrightarrow> (\<forall>off < 0x1000. apic_reaches M off k)"

definition timer_on :: "u64 \<Rightarrow> cpu_id \<Rightarrow> ('h, 't) kernel \<Rightarrow> bool" where
  "timer_on t cpu k \<longleftrightarrow> k_lapic k cpu APIC_SVR = 0x100 OR 39 \<and> k_lapic k cpu APIC_TPR = 0 \<and>
     k_lapic k cpu APIC_TIMER_DIV = 3 \<and> k_lapic k cpu APIC_LVT_TIMER = APIC_TIMER_PERIODIC OR 32 \<and>
     timer_count t = Ret (k_lapic k cpu APIC_TIMER_INIT_CNT)"

definition slow_clock :: "'t machine \<Rightarrow> bool" where
  "slow_clock M \<longleftrightarrow> detect (m_cpuid M) \<noteq> None \<and> 0 < m_tsc_frequency M \<and> m_tsc_frequency M < 1000000"

lemmas apic_offsets = APIC_ID_def APIC_VERSION_def APIC_TPR_def APIC_EOI_def APIC_SVR_def APIC_LVT_TIMER_def
  APIC_TIMER_INIT_CNT_def APIC_TIMER_DIV_def

lemma apic_page_cong:
  "k_lapic_vaddr k' = k_lapic_vaddr k \<Longrightarrow> k_table k' = k_table k \<Longrightarrow> apic_page M k' = apic_page M k"
  by (simp add: apic_page_def apic_reaches_def)

lemma apic_write_eq:
  "apic_page M k \<Longrightarrow> off < 0x1000 \<Longrightarrow>
   apic_write M cpu off v k = Ret (k\<lparr>k_lapic := (k_lapic k)(cpu := (k_lapic k cpu)(off := v))\<rparr>)"
  by (simp add: apic_write_def apic_page_def assert_run_def)

lemma apic_read_eq: "apic_page M k \<Longrightarrow> off < 0x1000 \<Longrightarrow> apic_read M cpu off k = Ret (m_lapic M cpu off (k_lapic k cpu off))"
  by (simp add: apic_read_def apic_page_def assert_run_def)

lemma apic_page_lapic [simp]: "apic_page M (k\<lparr>k_lapic := l\<rparr>) = apic_page M k"
  and apic_page_idt [simp]: "apic_page M (k\<lparr>k_idt := t\<rparr>) = apic_page M k"
  and apic_page_time [simp]: "apic_page M (k\<lparr>k_time := d\<rparr>) = apic_page M k"
  and apic_page_cpus [simp]: "apic_page M (k\<lparr>k_cpus := c\<rparr>) = apic_page M k"
  and apic_page_tscs [simp]: "apic_page M (k\<lparr>k_tscs := n\<rparr>) = apic_page M k"
  by (rule apic_page_cong; simp)+

lemma apic_enable_eq:
  "apic_page M k \<Longrightarrow> apic_enable M cpu k =
     Ret (k\<lparr>k_lapic := (k_lapic k)(cpu := (k_lapic k cpu)(APIC_SVR := 0x100 OR 39, APIC_TPR := 0))\<rparr>)"
  by (simp add: apic_enable_def apic_write_eq apic_read_eq apic_offsets APIC_SVR_ENABLE_def)

lemma timer_count_eq: "unat t * 1000 < 2 ^ 64 \<Longrightarrow> timer_count t = Ret (ucast (t * 1000 div 16))"
  by (simp add: timer_count_def APIC_TIMER_PERIOD_US_def APIC_TIMER_DIVIDER_def assert_run_def)

lemma ap_start_timer_eq:
  assumes "apic_page M k" "unat t * 1000 < 2 ^ 64"
  shows "ap_start_apic_timer M cpu t k = Ret (k\<lparr>k_lapic := (k_lapic k)(cpu := (k_lapic k cpu)
     (APIC_TIMER_DIV := 3, APIC_LVT_TIMER := APIC_TIMER_PERIODIC OR 32, APIC_TIMER_INIT_CNT := ucast (t * 1000 div 16)))\<rparr>)"
  using assms
  by (simp add: ap_start_apic_timer_def timer_count_eq set_timer_periodic_def set_divider_def divider_code_def
      APIC_TIMER_DIVIDER_def APIC_TIMER_VECTOR_def apic_write_eq apic_offsets)

lemma timer_period:
  assumes "timer_count t = Ret c" "unat t < 2 ^ 26"
  shows "unat c * 16 \<le> unat t * 1000" "unat t * 1000 < unat c * 16 + 16"
proof -
  have b: "unat t * 1000 < 2 ^ 64" "unat t * 1000 div 16 < 2 ^ 32" using assms(2) by simp_all
  have u: "unat (t * 1000) = unat t * 1000" using b(1) by (simp add: unat_word_ariths)
  define q where "q = t * 1000 div 16"
  have q: "unat q = unat t * 1000 div 16" by (simp add: q_def unat_div u)
  then have "unat (ucast q :: u32) = unat q" using b(2) by (simp add: unsigned_ucast_eq take_bit_nat_eq_self)
  moreover have "c = ucast q" using assms(1) b(1) by (simp add: timer_count_eq q_def)
  ultimately have "unat c = unat t * 1000 div 16" using q by simp
  then show "unat c * 16 \<le> unat t * 1000" "unat t * 1000 < unat c * 16 + 16" by linarith+
qed

text \<open>Calibration changes only port and counter reads, and returns a rate that fits.\<close>

definition same_kernel :: "('h, 't) kernel \<Rightarrow> ('h, 't) kernel \<Rightarrow> bool" where
  "same_kernel k k' \<longleftrightarrow> k_memory k' = k_memory k \<and> k_table k' = k_table k \<and> k_lapic_vaddr k' = k_lapic_vaddr k \<and>
     k_lapic k' = k_lapic k \<and> k_idt k' = k_idt k \<and> k_time k' = k_time k \<and> k_cpus k' = k_cpus k"

lemma pit_wait_same: "\<exists>b n'. pit_wait n M k = (b, k\<lparr>k_port61 := n'\<rparr>)"
proof (induction n arbitrary: k)
  case 0
  have "k = k\<lparr>k_port61 := k_port61 k\<rparr>" by simp
  then show ?case by (metis pit_wait.simps(1))
next
  case (Suc n)
  from Suc [of "k\<lparr>k_port61 := Suc (k_port61 k)\<rparr>"] show ?case by (auto simp: inb61_def)
qed

lemma div_times_fits: "unat (x div c) * 1000 < 2 ^ 64" if "1000 \<le> unat c" for x c :: u64
proof -
  have "unat (x div c) * 1000 \<le> unat x div unat c * unat c" using that by (simp add: unat_div)
  also have "\<dots> \<le> unat x" by simp
  finally show ?thesis using unat_less2p [of x] by simp
qed

lemma boot_tsc_spec:
  assumes "\<And>n. m_tsc M n \<le> m_tsc M (Suc n)"
  shows "\<exists>t k'. boot_tsc M k = Ret (t, k') \<and> same_kernel k k' \<and> unat t * 1000 < 2 ^ 64 \<and> (t = 0 \<longleftrightarrow> slow_clock M) \<and>
    (\<forall>r. read_hv_tsc_freq M = Some r \<longrightarrow> t = r)"
proof (cases "read_hv_tsc_freq M")
  case (Some t)
  then have t: "t = m_tsc_frequency M div 1000000" "detect (m_cpuid M) \<noteq> None" "m_tsc_frequency M \<noteq> 0"
    by (auto simp: read_hv_tsc_freq_def split: option.splits if_splits)
  have "t = 0 \<longleftrightarrow> m_tsc_frequency M < 1000000"
    unfolding t(1) by (simp add: word_unat_eq_iff unat_div word_less_nat_alt div_eq_0_iff)
  with Some t div_times_fits [of 1000000 "m_tsc_frequency M"] show ?thesis
    by (simp add: boot_tsc_def same_kernel_def slow_clock_def word_neq_0_conv)
next
  case None
  then have ns: "\<not> slow_clock M" by (auto simp: read_hv_tsc_freq_def slow_clock_def split: option.splits if_splits)
  have e: "expected_us = 10000" by (simp add: expected_us_def PIT_FREQ_HZ_def)
  define k1 where "k1 = snd (rdtsc M (outb PIT_CH2_DATA (ucast (drop_bit 8 (11932 :: u16))) (outb PIT_CH2_DATA (ucast (11932 :: u16))
     (outb PIT_CMD 0xB0 (outb 0x61 ((fst (inb61 M k) OR 0x01) AND NOT 0x02) (snd (inb61 M k)))))))"
  have k1: "same_kernel k k1" "k_tscs k1 = Suc (k_tscs k)"
    by (simp_all add: k1_def same_kernel_def rdtsc_def outb_def inb61_def)
  obtain b n where w: "pit_wait pit_spins M k1 = (b, k1\<lparr>k_port61 := n\<rparr>)" using pit_wait_same by blast
  have c: "calibrate_tsc_mhz M k = (if \<not> b then Ret (None, k1\<lparr>k_port61 := n\<rparr>)
      else let x = (m_tsc M (Suc (k_tscs k)) - m_tsc M (k_tscs k)) div 10000 in
        Ret (if x = 0 then None else Some x, k1\<lparr>k_port61 := n, k_tscs := Suc (Suc (k_tscs k))\<rparr>))"
    using w [unfolded k1_def] k1(2) assms [of "k_tscs k"] unfolding calibrate_tsc_mhz_def k1_def e
    by (simp add: rdtsc_def outb_def inb61_def Let_def assert_run_def)
  have f: "unat ((m_tsc M (Suc (k_tscs k)) - m_tsc M (k_tscs k)) div 10000) * 1000 < 2 ^ 64"
    by (rule div_times_fits) simp
  show ?thesis
    using k1(1) ns f by (cases b) (auto simp: boot_tsc_def None c same_kernel_def Let_def)
qed

lemma boot_timing_spec:
  fixes k :: "('h, 't) kernel"
  assumes "paging_laws (m_paging M)" "window_free (m_paging M) (k_memory k) (k_table k)"
    and "next_vaddr (k_memory k) + 0x2000 \<le> 2 ^ 47" "\<And>n. m_tsc M n \<le> m_tsc M (Suc n)"
  shows "\<exists>t k'. boot_timing M k = Ret k' \<and> apic_page M k' \<and> k_time k' = set_tsc_per_us t (k_time k) \<and>
    unat t * 1000 < 2 ^ 64 \<and> (t = 0 \<longleftrightarrow> slow_clock M) \<and> (\<forall>r. read_hv_tsc_freq M = Some r \<longrightarrow> t = r) \<and> timer_on t Bsp k' \<and>
    k_idt k' 32 = Some Timer_Isr \<and> k_idt k' 39 = Some Spurious_Isr \<and> (\<forall>c. c \<noteq> Bsp \<longrightarrow> k_lapic k' c = k_lapic k c)"
proof -
  define k0 where "k0 = pic_disable (k\<lparr>k_idt := idt_init Default_Isr\<rparr>)"
  have k0: "k_memory k0 = k_memory k" "k_table k0 = k_table k" "k_time k0 = k_time k" "k_lapic k0 = k_lapic k"
    by (simp_all add: k0_def pic_disable_def outb_def)
  have ex: "extent 0x1000 = 0x1000" by (simp add: extent_def num_pages_def)
  from map_one_spec [OF assms(1,2), of "MapMmio LAPIC_PHYS_BASE 0x1000"] assms(3) obtain h m t where
    mm: "map_mmio (m_paging M) LAPIC_PHYS_BASE 0x1000 (k_memory k) (k_table k) = Ret (h, m, t)" and
    tr: "\<forall>a. translate (m_paging M) a t = (if in_region h a
       then Some (containing_address LAPIC_PHYS_BASE + (a - mm_vaddr h)) else translate (m_paging M) a (k_table k))" and
    sz: "mm_size h = 0x1000"
    by (auto simp: map_one_def ex LAPIC_PHYS_BASE_def)
  define k1 where "k1 = apic_init (mm_vaddr h) (k0\<lparr>k_memory := m, k_table := t\<rparr>)"
  have p1: "apic_page M k1"
    using tr sz by (simp add: apic_page_def apic_reaches_def k1_def apic_init_def in_region_def ex containing_address_def LAPIC_PHYS_BASE_def)
  define k2 where "k2 = k1\<lparr>k_lapic := (k_lapic k1)(Bsp := (k_lapic k1 Bsp)(APIC_SVR := 0x100 OR 39, APIC_TPR := 0))\<rparr>"
  have e: "apic_enable M Bsp k1 = Ret k2" unfolding k2_def by (rule apic_enable_eq [OF p1])
  have p2: "apic_page M k2" by (simp add: k2_def p1)
  then obtain aid where aid: "apic_own_id M Bsp k2 = Ret aid" by (simp add: apic_own_id_def apic_read_eq apic_offsets)
  define k3 where "k3 = k2\<lparr>k_cpus := init_bsp aid (k_cpus k2)\<rparr>"
  obtain ts k4 where b: "boot_tsc M k3 = Ret (ts, k4)" "same_kernel k3 k4" "unat ts * 1000 < 2 ^ 64" "ts = 0 \<longleftrightarrow> slow_clock M"
      "\<forall>r. read_hv_tsc_freq M = Some r \<longrightarrow> ts = r"
    using boot_tsc_spec [of M k3, OF assms(4)] by blast
  define k5 where "k5 = k4\<lparr>k_time := set_tsc_per_us ts (k_time k4),
     k_idt := (k_idt k4)(32 \<mapsto> Timer_Isr, 39 \<mapsto> Spurious_Isr)\<rparr>"
  have p5: "apic_page M k5"
    using p2 b(2) apic_page_cong [of k5 k2 M] by (simp add: k5_def k3_def same_kernel_def)
  have run: "boot_timing M k = ap_start_apic_timer M Bsp ts k5"
    unfolding boot_timing_def Let_def k0_def [symmetric]
    by (simp add: k0(1,2) mm k1_def [symmetric] e aid k3_def [symmetric] b(1) start_apic_timer_def set_handler_def
        APIC_TIMER_VECTOR_def SPURIOUS_VECTOR_def assert_run_def k5_def)
  have l: "k_lapic k5 = k_lapic k2" "k_time k5 = set_tsc_per_us ts (k_time k)"
    using b(2) k0 by (simp_all add: k5_def k3_def same_kernel_def k2_def k1_def apic_init_def)
  have l2: "\<forall>c. c \<noteq> Bsp \<longrightarrow> k_lapic k2 c = k_lapic k c" by (simp add: k2_def k1_def apic_init_def k0)
  have svr: "k_lapic k2 Bsp APIC_SVR = 0x100 OR 39" "k_lapic k2 Bsp APIC_TPR = 0" by (simp_all add: k2_def apic_offsets)
  have idt: "k_idt k5 32 = Some Timer_Isr" "k_idt k5 39 = Some Spurious_Isr" by (simp_all add: k5_def)
  define k6 where "k6 = k5\<lparr>k_lapic := (k_lapic k5)(Bsp := (k_lapic k5 Bsp)
     (APIC_TIMER_DIV := 3, APIC_LVT_TIMER := APIC_TIMER_PERIODIC OR 32, APIC_TIMER_INIT_CNT := ucast (ts * 1000 div 16)))\<rparr>"
  have "boot_timing M k = Ret k6" unfolding run k6_def by (rule ap_start_timer_eq [OF p5 b(3)])
  moreover have "apic_page M k6" "k_time k6 = set_tsc_per_us ts (k_time k)" "k_idt k6 = k_idt k5"
    by (simp_all add: k6_def p5 l)
  moreover have "timer_on ts Bsp k6" using svr b(3) by (simp add: timer_on_def k6_def l timer_count_eq apic_offsets)
  moreover have "\<forall>c. c \<noteq> Bsp \<longrightarrow> k_lapic k6 c = k_lapic k c" using l2 by (simp add: k6_def l)
  ultimately show ?thesis using idt b(3-5) by (intro exI [of _ ts] exI [of _ k6] conjI) simp_all
qed

definition ap_ready :: "u64 \<Rightarrow> ap_init \<Rightarrow> bool" where
  "ap_ready t i \<longleftrightarrow> (\<exists>n. ai_cpu_id i = Ap n \<and> 0 < n \<and> n < 8) \<and> ai_tsc_per_us i = t"

lemma ap_setup_cpu_spec:
  assumes "apic_page M k" "ap_ready t i" "unat t * 1000 < 2 ^ 64"
  shows "\<exists>k'. ap_setup_cpu M i k = Ret k' \<and> apic_page M k' \<and> k_time k' = k_time k \<and> k_idt k' = k_idt k \<and>
    timer_on t (ai_cpu_id i) k' \<and> (\<forall>c. c \<noteq> ai_cpu_id i \<longrightarrow> k_lapic k' c = k_lapic k c)"
proof -
  obtain n where n: "ai_cpu_id i = Ap n" "0 < n" "n < 8" "ai_tsc_per_us i = t" using assms(2) by (auto simp: ap_ready_def)
  have "n \<noteq> 0" "unat n < MAX_CPUS" using n(2,3) by (auto simp: MAX_CPUS_def word_less_nat_alt)
  then obtain cs where "ap_setup i (k_cpus k) = Ret cs" using n(1) by (simp add: ap_setup_def init_ap_def assert_run_def)
  then show ?thesis
    using assms(1,3) n(4) by (simp add: ap_setup_cpu_def apic_enable_eq ap_start_timer_eq timer_on_def timer_count_eq apic_offsets)
qed

lemma timer_on_cong: "k_lapic k' c = k_lapic k c \<Longrightarrow> timer_on t c k' = timer_on t c k"
  by (simp add: timer_on_def)

lemma ap_setups_spec:
  assumes "apic_page M k" "\<forall>i \<in> set is. ap_ready t i" "unat t * 1000 < 2 ^ 64"
  shows "\<exists>k'. ap_setups M is k = Ret k' \<and> apic_page M k' \<and> k_time k' = k_time k \<and> k_idt k' = k_idt k \<and>
    (\<forall>c. c \<in> ai_cpu_id ` set is \<or> timer_on t c k \<longrightarrow> timer_on t c k')"
  using assms(1,2)
proof (induction "is" arbitrary: k)
  case (Cons i "is")
  from ap_setup_cpu_spec [OF Cons.prems(1) _ assms(3), of i] Cons.prems(2) obtain k1 where
    k1: "ap_setup_cpu M i k = Ret k1" "apic_page M k1" "k_time k1 = k_time k" "k_idt k1 = k_idt k"
      "timer_on t (ai_cpu_id i) k1" "\<forall>c. c \<noteq> ai_cpu_id i \<longrightarrow> k_lapic k1 c = k_lapic k c" by auto
  then have "timer_on t c k1" if "timer_on t c k" for c using timer_on_cong that by metis
  with k1 Cons.IH [OF k1(2)] Cons.prems(2) show ?case by auto
qed simp

lemma timer_isr_spec:
  assumes "apic_page M k" "driver_ok (k_time k)" "slot_of cpu < 8"
  shows "\<exists>ws k'. apic_timer_isr M cpu k = Ret (ws, k') \<and> distinct ws \<and>
    (set ws, deadlines_of cpu (k_time k')) = spec_tick (m_tsc M (k_tscs k) div tsc_per_us (k_time k)) (deadlines_of cpu (k_time k)) \<and>
    k_lapic k' = (k_lapic k)(cpu := (k_lapic k cpu)(APIC_EOI := 0))"
proof -
  from tick_refines [OF assms(2,3), of "m_tsc M (k_tscs k)"] obtain ws d where
    "on_timer_tick cpu (m_tsc M (k_tscs k)) (k_time k) = Ret (ws, d)" "distinct ws"
    "(set ws, deadlines_of cpu d) = spec_tick (m_tsc M (k_tscs k) div tsc_per_us (k_time k)) (deadlines_of cpu (k_time k))"
    by blast
  with assms(1) show ?thesis by (simp add: apic_timer_isr_def rdtsc_def apic_eoi_def apic_write_eq apic_offsets)
qed

text \<open>A Hyper-V machine with a 3 GHz clock.\<close>

definition tick_machine :: "(nat \<Rightarrow> nat option) machine" where
  "tick_machine = \<lparr>m_paging = map_paging, m_lapic = (\<lambda>c off v. v), m_port61 = (\<lambda>n. 0), m_tsc = (\<lambda>n. 70000),
     m_cpuid = (\<lambda>l. \<lparr>eax = 0x40000005, ebx = 0x7263694D, ecx = 0x666F736F, edx = 0x76482074\<rparr>), m_tsc_frequency = 3000000000\<rparr>"

definition tick_kernel :: "(unit, nat \<Rightarrow> nat option) kernel" where
  "tick_kernel = \<lparr>k_memory = mapper_new 0 0, k_table = Map.empty, k_lapic_vaddr = 0, k_lapic = (\<lambda>c off. 0), k_idt = Map.empty,
     k_time = set_tsc_per_us 2 time_driver_init, k_cpus = \<lparr>locals = replicate 8 None, gs_base = 0\<rparr>,
     k_ports = [], k_port61 = 0, k_tscs = 0\<rparr>"

section \<open>Property\<close>



end
