(* ===== verification/Hal_Pci.thy ===== *)
theory Hal_Pci
  imports Prelude
begin

text \<open>
  PCI configuration space through the ports 0xCF8 and 0xCFC, \<open>crates/embclox-hal-x86/src/pci.rs\<close>.

  The state is the latched address and the registers behind it.  What a device stores when a
  register is written is a parameter, since status bits may be cleared by writing them and other
  bits may be fixed; reading a register has no effect.
\<close>

section \<open>The ports\<close>

record pci_ports =
  config_addr :: u32
  config_regs :: "u32 \<Rightarrow> u32"

text \<open>What register \<open>a\<close> holds after the value is written over the old one.\<close>

type_synonym config_write = "u32 \<Rightarrow> u32 \<Rightarrow> u32 \<Rightarrow> u32"

definition PCI_COMMAND :: u8 where "PCI_COMMAND = 0x04"
definition PCI_HEADER_TYPE :: u8 where "PCI_HEADER_TYPE = 0x0E"
definition PCI_CLASS_REV :: u8 where "PCI_CLASS_REV = 0x08"

definition pci_config_address :: "u8 \<Rightarrow> u8 \<Rightarrow> u8 \<Rightarrow> u8 \<Rightarrow> u32" where
  "pci_config_address bus dev func offset =
     push_bit 31 1 OR push_bit 16 (ucast bus) OR push_bit 11 (ucast dev) OR push_bit 8 (ucast func) OR (ucast offset AND 0xFC)"

definition pci_read32 :: "u8 \<Rightarrow> u8 \<Rightarrow> u8 \<Rightarrow> u8 \<Rightarrow> pci_ports \<Rightarrow> u32 \<times> pci_ports" where
  "pci_read32 bus dev func offset p = (let p = p\<lparr>config_addr := pci_config_address bus dev func offset\<rparr> in
     (config_regs p (config_addr p), p))"

definition pci_write32 :: "config_write \<Rightarrow> u8 \<Rightarrow> u8 \<Rightarrow> u8 \<Rightarrow> u8 \<Rightarrow> u32 \<Rightarrow> pci_ports \<Rightarrow> pci_ports" where
  "pci_write32 wr bus dev func offset val p = (let p = p\<lparr>config_addr := pci_config_address bus dev func offset\<rparr>;
     a = config_addr p in p\<lparr>config_regs := (config_regs p)(a := wr a (config_regs p a) val)\<rparr>)"

definition pci_read16 :: "u8 \<Rightarrow> u8 \<Rightarrow> u8 \<Rightarrow> u8 \<Rightarrow> pci_ports \<Rightarrow> u16 \<times> pci_ports" where
  "pci_read16 bus dev func offset p = (case pci_read32 bus dev func (offset AND 0xFC) p of (val, p) \<Rightarrow>
     (ucast (drop_bit (unat ((offset AND 2) * 8)) val AND 0xFFFF), p))"

definition pci_write16 :: "config_write \<Rightarrow> u8 \<Rightarrow> u8 \<Rightarrow> u8 \<Rightarrow> u8 \<Rightarrow> u16 \<Rightarrow> pci_ports \<Rightarrow> pci_ports" where
  "pci_write16 wr bus dev func offset val p = (let shift = unat ((offset AND 2) * 8) in
     case pci_read32 bus dev func (offset AND 0xFC) p of (old, p) \<Rightarrow>
       let mask = NOT (push_bit shift 0xFFFF); new = (old AND mask) OR push_bit shift (ucast val)
       in pci_write32 wr bus dev func (offset AND 0xFC) new p)"

section \<open>Devices\<close>

record pci_device =
  pd_bus :: u8
  pd_dev :: u8
  pd_func :: u8
  pd_vendor :: u16
  pd_device :: u16
  pd_class :: u8
  pd_subclass :: u8

definition read_class :: "u8 \<Rightarrow> u8 \<Rightarrow> u8 \<Rightarrow> pci_ports \<Rightarrow> (u8 \<times> u8) \<times> pci_ports" where
  "read_class bus dev func p = (case pci_read32 bus dev func PCI_CLASS_REV p of (w, p) \<Rightarrow>
     ((ucast (drop_bit 24 w AND 0xFF), ucast (drop_bit 16 w AND 0xFF)), p))"

definition push_dev :: "pci_device list \<Rightarrow> u8 \<Rightarrow> u8 \<Rightarrow> u8 \<Rightarrow> u32 \<Rightarrow> pci_ports \<Rightarrow> pci_device list \<times> pci_ports" where
  "push_dev out bus dev func ident p = (case read_class bus dev func p of ((class_code, subclass), p) \<Rightarrow>
     (out @ [\<lparr>pd_bus = bus, pd_dev = dev, pd_func = func, pd_vendor = ucast (ident AND 0xFFFF),
        pd_device = ucast (drop_bit 16 ident AND 0xFFFF), pd_class = class_code, pd_subclass = subclass\<rparr>], p))"

text \<open>The loops of \<open>find_device\<close> and \<open>find_device_any\<close>, which differ in the device ids they accept.\<close>

fun find_scan :: "(u16 \<Rightarrow> u16 \<Rightarrow> bool) \<Rightarrow> u8 list \<Rightarrow> pci_ports \<Rightarrow> pci_device option \<times> pci_ports" where
  "find_scan ok [] p = (None, p)"
| "find_scan ok (dev # devs) p = (case pci_read32 0 dev 0 0 p of (ident, p) \<Rightarrow>
     if ident = 0xFFFFFFFF then find_scan ok devs p
     else let v = ucast (ident AND 0xFFFF); d = ucast (drop_bit 16 ident AND 0xFFFF) in
       if ok v d then (case read_class 0 dev 0 p of ((class_code, subclass), p) \<Rightarrow>
         (Some \<lparr>pd_bus = 0, pd_dev = dev, pd_func = 0, pd_vendor = v, pd_device = d, pd_class = class_code, pd_subclass = subclass\<rparr>, p))
       else find_scan ok devs p)"

definition device_slots :: "u8 list" where "device_slots = map of_nat [0..<32]"
definition other_funcs :: "u8 list" where "other_funcs = map of_nat [1..<8]"

definition find_device :: "u16 \<Rightarrow> u16 \<Rightarrow> pci_ports \<Rightarrow> pci_device option \<times> pci_ports" where
  "find_device vendor device_id = find_scan (\<lambda>v d. v = vendor \<and> d = device_id) device_slots"

definition find_device_any :: "u16 \<Rightarrow> u16 list \<Rightarrow> pci_ports \<Rightarrow> pci_device option \<times> pci_ports" where
  "find_device_any vendor device_ids = find_scan (\<lambda>v d. v = vendor \<and> d \<in> set device_ids) device_slots"

fun enum_funcs :: "u8 \<Rightarrow> u8 list \<Rightarrow> pci_device list \<times> pci_ports \<Rightarrow> pci_device list \<times> pci_ports" where
  "enum_funcs dev [] s = s"
| "enum_funcs dev (func # fs) (out, p) = (case pci_read32 0 dev func 0 p of (idf, p) \<Rightarrow>
     if idf = 0xFFFFFFFF then enum_funcs dev fs (out, p)
     else enum_funcs dev fs (push_dev out 0 dev func idf p))"

fun enum_devs :: "u8 list \<Rightarrow> pci_device list \<times> pci_ports \<Rightarrow> pci_device list \<times> pci_ports" where
  "enum_devs [] s = s"
| "enum_devs (dev # devs) (out, p) = (case pci_read32 0 dev 0 0 p of (id0, p) \<Rightarrow>
     if id0 = 0xFFFFFFFF then enum_devs devs (out, p)
     else case push_dev out 0 dev 0 id0 p of (out, p) \<Rightarrow>
       case pci_read32 0 dev 0 (PCI_HEADER_TYPE AND 0xFC) p of (w, p) \<Rightarrow>
         let header = ucast (drop_bit (unat ((PCI_HEADER_TYPE AND 3) * 8)) w) :: u8 in
         enum_devs devs (if header AND 0x80 \<noteq> 0 then enum_funcs dev other_funcs (out, p) else (out, p)))"

definition pci_enumerate :: "pci_ports \<Rightarrow> pci_device list \<times> pci_ports" where
  "pci_enumerate p = enum_devs device_slots ([], p)"

definition enable_bus_mastering :: "config_write \<Rightarrow> pci_device \<Rightarrow> pci_ports \<Rightarrow> pci_ports" where
  "enable_bus_mastering wr d p = (case pci_read16 (pd_bus d) (pd_dev d) (pd_func d) PCI_COMMAND p of (cmd, p) \<Rightarrow>
     let p = pci_write16 wr (pd_bus d) (pd_dev d) (pd_func d) PCI_COMMAND (cmd OR 0x07) p in
     snd (pci_read16 (pd_bus d) (pd_dev d) (pd_func d) PCI_COMMAND p))"

text \<open>Arithmetic on the register offset is checked 8-bit arithmetic.\<close>

definition read_bar :: "pci_device \<Rightarrow> u8 \<Rightarrow> pci_ports \<Rightarrow> (u64 \<times> pci_ports) run" where
  "read_bar d bar p = do {
     assert_run (0x10 + unat bar * 4 < 256);
     let offset = 0x10 + bar * 4;
     let (raw, p) = pci_read32 (pd_bus d) (pd_dev d) (pd_func d) offset p;
     let bar_type = drop_bit 1 raw AND 0x3;
     if bar_type = 0x2 then do {
       assert_run (unat offset + 4 < 256);
       let (upper, p) = pci_read32 (pd_bus d) (pd_dev d) (pd_func d) (offset + 4) p;
       Ret (push_bit 32 (ucast upper) OR ucast (raw AND NOT 0xF), p) }
     else Ret (ucast (raw AND NOT 0xF), p) }"

definition read_config :: "pci_device \<Rightarrow> u8 \<Rightarrow> pci_ports \<Rightarrow> u32 \<times> pci_ports" where
  "read_config d offset p = pci_read32 (pd_bus d) (pd_dev d) (pd_func d) offset p"

definition write_config :: "config_write \<Rightarrow> pci_device \<Rightarrow> u8 \<Rightarrow> u32 \<Rightarrow> pci_ports \<Rightarrow> pci_ports" where
  "write_config wr d offset val p = pci_write32 wr (pd_bus d) (pd_dev d) (pd_func d) offset val p"

section \<open>Reference\<close>

text \<open>What is in the registers: the functions present and their descriptions.\<close>

definition present :: "(u32 \<Rightarrow> u32) \<Rightarrow> u8 \<Rightarrow> u8 \<Rightarrow> bool" where
  "present R dev func \<longleftrightarrow> R (pci_config_address 0 dev func 0) \<noteq> 0xFFFFFFFF"

definition multi_function :: "(u32 \<Rightarrow> u32) \<Rightarrow> u8 \<Rightarrow> bool" where
  "multi_function R dev \<longleftrightarrow> bit (R (pci_config_address 0 dev 0 0x0C)) 23"

definition device_at :: "(u32 \<Rightarrow> u32) \<Rightarrow> u8 \<Rightarrow> u8 \<Rightarrow> pci_device" where
  "device_at R dev func = (let ident = R (pci_config_address 0 dev func 0); w = R (pci_config_address 0 dev func 8) in
     \<lparr>pd_bus = 0, pd_dev = dev, pd_func = func, pd_vendor = ucast ident, pd_device = ucast (drop_bit 16 ident),
      pd_class = ucast (drop_bit 24 w), pd_subclass = ucast (drop_bit 16 w)\<rparr>)"

definition functions_of :: "(u32 \<Rightarrow> u32) \<Rightarrow> u8 \<Rightarrow> u8 list" where
  "functions_of R dev = (if \<not> present R dev 0 then []
     else 0 # (if multi_function R dev then filter (present R dev) other_funcs else []))"

definition devices_of :: "(u32 \<Rightarrow> u32) \<Rightarrow> pci_device list" where
  "devices_of R = concat (map (\<lambda>dev. map (device_at R dev) (functions_of R dev)) device_slots)"

section \<open>Lemmas\<close>

lemma masks:
  "(0xFFFF :: u32) = mask 16" "(0xFF :: u32) = mask 8" "(0xFC :: u32) = push_bit 2 (mask 6)" "(7 :: u32) = mask 3"
  "(7 :: u16) = mask 3"
  by (simp_all add: mask_eq_exp_minus_1 push_bit_eq_mult)

lemma ucast_masks:
  "(ucast ((w :: u32) AND 0xFFFF) :: u16) = ucast w" "(ucast ((w :: u32) AND 0xFF) :: u8) = ucast w"
  unfolding masks by (rule bit_word_eqI; auto simp: bit_simps)+

lemma header_bit: "(ucast (drop_bit (unat ((PCI_HEADER_TYPE AND 3) * 8)) w) AND (0x80 :: u8)) \<noteq> 0 \<longleftrightarrow> bit (w :: u32) 23"
proof -
  have "unat ((PCI_HEADER_TYPE AND 3) * 8) = 16" by (simp add: PCI_HEADER_TYPE_def)
  moreover have "(x :: u8) AND 0x80 = 0 \<longleftrightarrow> \<not> bit x 7" for x using and_exp_eq_0_iff_not_bit [of x 7] by simp
  ultimately show ?thesis by (simp add: bit_simps)
qed

lemma pci_read32_eq:
  "pci_read32 bus dev func off p =
     (config_regs p (pci_config_address bus dev func off), p\<lparr>config_addr := pci_config_address bus dev func off\<rparr>)"
  by (simp add: pci_read32_def)

lemma push_dev_eq:
  assumes "config_regs p = R" "ident = R (pci_config_address 0 dev func 0)"
  shows "\<exists>p'. push_dev out 0 dev func ident p = (out @ [device_at R dev func], p') \<and> config_regs p' = R"
  using assms
  by (simp add: push_dev_def read_class_def pci_read32_eq device_at_def ucast_masks PCI_CLASS_REV_def Let_def)

lemma enum_funcs_eq:
  assumes "config_regs p = R"
  shows "\<exists>p'. enum_funcs dev fs (out, p) = (out @ map (device_at R dev) (filter (present R dev) fs), p') \<and> config_regs p' = R"
  using assms
proof (induction fs arbitrary: out p)
  case (Cons func fs)
  let ?p = "p\<lparr>config_addr := pci_config_address 0 dev func 0\<rparr>"
  have "config_regs ?p = R" using Cons.prems by simp
  then obtain p1 where p1: "push_dev out 0 dev func (R (pci_config_address 0 dev func 0)) ?p = (out @ [device_at R dev func], p1)"
      "config_regs p1 = R" and p: "config_regs ?p = R"
    using push_dev_eq [of ?p R _ dev func out] by blast
  show ?case
    using Cons.IH [OF p, of out] Cons.IH [OF p1(2), of "out @ [device_at R dev func]"] p1(1) Cons.prems
    by (simp add: pci_read32_eq present_def)
qed simp

lemma enum_devs_eq:
  assumes "config_regs p = R"
  shows "\<exists>p'. enum_devs devs (out, p) =
    (out @ concat (map (\<lambda>dev. map (device_at R dev) (functions_of R dev)) devs), p') \<and> config_regs p' = R"
  using assms
proof (induction devs arbitrary: out p)
  case (Cons dev devs)
  let ?p = "p\<lparr>config_addr := pci_config_address 0 dev 0 0\<rparr>"
  have p: "config_regs ?p = R" using Cons.prems by simp
  show ?case
  proof (cases "present R dev 0")
    case False
    then show ?thesis using Cons.IH [OF p, of out] Cons.prems by (simp add: pci_read32_eq present_def functions_of_def)
  next
    case True
    obtain p1 where p1: "push_dev out 0 dev 0 (R (pci_config_address 0 dev 0 0)) ?p = (out @ [device_at R dev 0], p1)" "config_regs p1 = R"
      using push_dev_eq [OF p refl, of out dev 0] by blast
    let ?p2 = "p1\<lparr>config_addr := pci_config_address 0 dev 0 0x0C\<rparr>"
    have o: "PCI_HEADER_TYPE AND 0xFC = 0x0C" by (simp add: PCI_HEADER_TYPE_def)
    have p2: "config_regs ?p2 = R" using p1(2) by simp
    obtain p3 where p3: "enum_funcs dev other_funcs (out @ [device_at R dev 0], ?p2) =
        ((out @ [device_at R dev 0]) @ map (device_at R dev) (filter (present R dev) other_funcs), p3)" "config_regs p3 = R"
      using enum_funcs_eq [OF p2] by blast
    have "enum_devs (dev # devs) (out, p) = enum_devs devs (if multi_function R dev then
        enum_funcs dev other_funcs (out @ [device_at R dev 0], ?p2) else (out @ [device_at R dev 0], ?p2))"
      using True Cons.prems p1 by (simp add: pci_read32_eq present_def Let_def header_bit o multi_function_def)
    then show ?thesis
      using True p3 Cons.IH [OF p2, of "out @ [device_at R dev 0]"] Cons.IH [OF p3(2), of "out @ device_at R dev 0 # map (device_at R dev) (filter (present R dev) other_funcs)"]
      by (simp add: functions_of_def)
  qed
qed simp

lemma find_append: "List.find P (xs @ ys) = (case List.find P xs of Some x \<Rightarrow> Some x | None \<Rightarrow> List.find P ys)"
  by (induction xs) simp_all

lemma find_none: "(\<And>x. x \<in> set xs \<Longrightarrow> \<not> P x) \<Longrightarrow> List.find P xs = None"
  by (simp add: find_None_iff)

lemma distinct_slots: "distinct device_slots" "distinct other_funcs" "0 \<notin> set other_funcs"
  by code_simp+

lemma find_scan_eq:
  assumes "config_regs p = R"
  shows "fst (find_scan ok devs p) = List.find (\<lambda>d. pd_func d = 0 \<and> ok (pd_vendor d) (pd_device d))
     (concat (map (\<lambda>dev. map (device_at R dev) (functions_of R dev)) devs))"
    (is "_ = List.find ?P _")
  using assms
proof (induction devs arbitrary: p)
  case (Cons dev devs)
  let ?p = "p\<lparr>config_addr := pci_config_address 0 dev 0 0\<rparr>"
  have p: "config_regs ?p = R" using Cons.prems by simp
  let ?d = "device_at R dev 0"
  have n: "List.find ?P (map (device_at R dev) (filter (present R dev) other_funcs)) = None"
    using distinct_slots(3) by (intro find_none) (auto simp: device_at_def Let_def)
  have "List.find ?P (map (device_at R dev) (functions_of R dev)) =
      (if present R dev 0 \<and> ok (pd_vendor ?d) (pd_device ?d) then Some ?d else None)"
    using n by (auto simp: functions_of_def) (simp_all add: device_at_def Let_def)
  moreover have "fst (find_scan ok (dev # devs) p) =
      (if present R dev 0 \<and> ok (pd_vendor ?d) (pd_device ?d) then Some ?d else fst (find_scan ok devs ?p))"
    using Cons.prems
    by (auto simp: pci_read32_eq present_def Let_def ucast_masks device_at_def read_class_def PCI_CLASS_REV_def)
  ultimately show ?case using Cons.IH [OF p] by (simp add: find_append)
qed simp

lemma devices_of_keys: "distinct (map (\<lambda>d. (pd_bus d, pd_dev d, pd_func d)) (devices_of R))"
proof -
  have "distinct (functions_of R dev)" for dev using distinct_slots(2,3) by (simp add: functions_of_def)
  then have "distinct (map (\<lambda>d. (pd_bus d, pd_dev d, pd_func d))
      (concat (map (\<lambda>dev. map (device_at R dev) (functions_of R dev)) devs)))" if "distinct devs" for devs
    using that by (induction devs) (auto simp: device_at_def Let_def distinct_map inj_on_def)
  then show ?thesis unfolding devices_of_def using distinct_slots(1) .
qed

text \<open>Addresses of different registers differ, so an access to one function never reaches another.\<close>

lemma small_bits: "(x :: u8) < 2 ^ k \<Longrightarrow> k < 8 \<Longrightarrow> bit x n \<Longrightarrow> n < k"
  by (metis bit_take_bit_iff less_mask_eq take_bit_eq_mask)

lemma bit_config_address:
  "bit (pci_config_address bus dev func offset) n \<longleftrightarrow> n < 32 \<and> (n = 31 \<or> 16 \<le> n \<and> bit bus (n - 16) \<or>
     11 \<le> n \<and> bit dev (n - 11) \<or> 8 \<le> n \<and> bit func (n - 8) \<or> 2 \<le> n \<and> n < 8 \<and> bit offset n)"
  unfolding pci_config_address_def masks(3)
  by (simp only: bit_or_iff bit_and_iff bit_push_bit_iff bit_ucast_iff bit_mask_iff bit_1_iff possible_bit_word) auto

lemma config_address_inj:
  assumes "pci_config_address bus dev func offset = pci_config_address bus' dev' func' offset'"
    "dev < 32" "func < 8" "dev' < 32" "func' < 8"
  shows "bus = bus' \<and> dev = dev' \<and> func = func' \<and> offset AND 0xFC = offset' AND 0xFC"
proof -
  have e: "bit (pci_config_address bus dev func offset) n = bit (pci_config_address bus' dev' func' offset') n" for n
    using assms(1) by simp
  have d: "bit dev n \<Longrightarrow> n < 5" "bit dev' n \<Longrightarrow> n < 5" "bit func n \<Longrightarrow> n < 3" "bit func' n \<Longrightarrow> n < 3" for n
    using small_bits [of _ 5 n] small_bits [of _ 3 n] assms(2-5) by simp_all
  have "bus = bus'"
  proof (rule bit_word_eqI)
    fix n assume "n < LENGTH(8)"
    then show "bit bus n = bit bus' n" using e [of "16 + n"] d [of "5 + n"] d [of "8 + n"] by (auto simp: bit_config_address)
  qed
  moreover have "dev = dev'"
  proof (rule bit_word_eqI)
    fix n assume "n < LENGTH(8)"
    then show "bit dev n = bit dev' n"
      using e [of "11 + n"] d [of n] d [of "3 + n"] by (cases "n < 5") (auto simp: bit_config_address)
  qed
  moreover have "func = func'"
  proof (rule bit_word_eqI)
    fix n assume "n < LENGTH(8)"
    then show "bit func n = bit func' n"
      using e [of "8 + n"] d [of n] by (cases "n < 3") (auto simp: bit_config_address)
  qed
  moreover have "offset AND 0xFC = offset' AND 0xFC"
  proof (rule bit_word_eqI)
    fix n assume n: "n < LENGTH(8)"
    have m: "(0xFC :: u8) = push_bit 2 (mask 6)" by (simp add: mask_eq_exp_minus_1 push_bit_eq_mult)
    have "bit (0xFC :: u8) n \<longleftrightarrow> 2 \<le> n \<and> n < 8"
      unfolding m using n by (simp only: bit_push_bit_iff bit_mask_iff possible_bit_word) auto
    then show "bit (offset AND 0xFC) n = bit (offset' AND 0xFC) n"
      using n e [of n] d [of "n - 8"] by (auto simp: bit_config_address bit_and_iff)
  qed
  ultimately show ?thesis by blast
qed

text \<open>
  Enabling bus mastering writes one register, the command and status word, with its own content and
  the three enable bits.  The status half is written back as read: a status bit that is cleared by
  writing a one to it is cleared whenever it is set.
\<close>

lemma command_word: "(old AND NOT (push_bit 0 0xFFFF)) OR push_bit 0 (ucast (ucast ((old :: u32) AND 0xFFFF) OR (7 :: u16))) = old OR 7"
  unfolding masks by (rule bit_word_eqI) (auto simp: bit_simps)

lemma enable_bus_mastering_regs:
  "config_regs (enable_bus_mastering wr d p) = (let a = pci_config_address (pd_bus d) (pd_dev d) (pd_func d) 4; old = config_regs p a in
     (config_regs p)(a := wr a old (old OR 7)))"
  using command_word [of "config_regs p (pci_config_address (pd_bus d) (pd_dev d) (pd_func d) 4)"]
  by (simp add: enable_bus_mastering_def pci_read16_def pci_write16_def pci_read32_eq pci_write32_def PCI_COMMAND_def Let_def)

lemma enable_bus_mastering_other:
  assumes "pd_dev d < 32" "pd_func d < 8" "dev < 32" "func < 8" "(pd_bus d, pd_dev d, pd_func d) \<noteq> (bus, dev, func)"
  shows "config_regs (enable_bus_mastering wr d p) (pci_config_address bus dev func offset) =
    config_regs p (pci_config_address bus dev func offset)"
  using config_address_inj [of "pd_bus d" "pd_dev d" "pd_func d" 4 bus dev func offset] assms
  by (auto simp: enable_bus_mastering_regs Let_def)

section \<open>Theorems\<close>

text \<open>C19. Enumeration returns exactly the functions present on bus 0, in order of device and function number,
  with the identity their registers give, no location twice; functions 1 to 7 are looked at just for
  multi-function devices.  It leaves every register as it was.  \<open>find_device\<close> and \<open>find_device_any\<close>
  return the first function 0 in that list that has the vendor and one of the device ids.\<close>

theorem enumerate_reference:
  "fst (pci_enumerate p) = devices_of (config_regs p) \<and>
   config_regs (snd (pci_enumerate p)) = config_regs p \<and>
   distinct (map (\<lambda>d. (pd_bus d, pd_dev d, pd_func d)) (fst (pci_enumerate p))) \<and>
   fst (find_device v i p) = List.find (\<lambda>d. pd_func d = 0 \<and> pd_vendor d = v \<and> pd_device d = i) (fst (pci_enumerate p)) \<and>
   fst (find_device_any v ids p) =
     List.find (\<lambda>d. pd_func d = 0 \<and> pd_vendor d = v \<and> pd_device d \<in> set ids) (fst (pci_enumerate p))"
proof -
  have e: "fst (pci_enumerate p) = devices_of (config_regs p)" "config_regs (snd (pci_enumerate p)) = config_regs p"
    using enum_devs_eq [OF refl, of device_slots "[]" p] by (auto simp: pci_enumerate_def devices_of_def)
  then show ?thesis
    using devices_of_keys [of "config_regs p"] find_scan_eq [OF refl, of _ device_slots p]
    by (simp add: find_device_def find_device_any_def devices_of_def)
qed

end
