(* ===== verification/Hal_Cmdline.thy ===== *)
theory Hal_Cmdline
  imports Prelude
begin

text \<open>
  The kernel command line, \<open>crates/embclox-hal-x86/src/cmdline.rs\<close>, and the use the kernel makes of it.

  A string slice is its list of bytes as characters; every pattern the parser looks for is ASCII, so
  the split positions agree with those of the UTF-8 string.  The parts of the standard library the
  parser uses (\<open>split\<close>, \<open>split_ascii_whitespace\<close>, \<open>split_once\<close>, \<open>strip_prefix\<close>, \<open>parse\<close> for unsigned integers,
  which admits a leading plus sign and leading zeros, \<open>eq_ignore_ascii_case\<close>) are modelled first.
\<close>

section \<open>Strings\<close>

definition is_ascii_whitespace :: "char \<Rightarrow> bool" where
  "is_ascii_whitespace c \<longleftrightarrow> of_char c \<in> {9, 10, 12, 13, 32 :: nat}"

primrec split_on :: "(char \<Rightarrow> bool) \<Rightarrow> string \<Rightarrow> string list" where
  "split_on P [] = [[]]"
| "split_on P (c # s) = (if P c then [] # split_on P s
     else case split_on P s of [] \<Rightarrow> [[c]] | t # ts \<Rightarrow> (c # t) # ts)"

definition split_ascii_whitespace :: "string \<Rightarrow> string list" where
  "split_ascii_whitespace s = filter (\<lambda>t. t \<noteq> []) (split_on is_ascii_whitespace s)"

primrec split_once :: "char \<Rightarrow> string \<Rightarrow> (string \<times> string) option" where
  "split_once d [] = None"
| "split_once d (c # s) = (if c = d then Some ([], s) else map_option (\<lambda>(a, b). (c # a, b)) (split_once d s))"

definition strip_prefix :: "string \<Rightarrow> string \<Rightarrow> string option" where
  "strip_prefix p s = (if take (length p) s = p then Some (drop (length p) s) else None)"

definition to_ascii_lowercase :: "char \<Rightarrow> char" where
  "to_ascii_lowercase c = (let n = of_char c :: nat in if 65 \<le> n \<and> n \<le> 90 then char_of (n + 32) else c)"

definition eq_ignore_ascii_case :: "string \<Rightarrow> string \<Rightarrow> bool" where
  "eq_ignore_ascii_case a b \<longleftrightarrow> map to_ascii_lowercase a = map to_ascii_lowercase b"

definition to_digit :: "char \<Rightarrow> nat option" where
  "to_digit c = (let n = of_char c :: nat in if 48 \<le> n \<and> n \<le> 57 then Some (n - 48) else None)"

primrec parse_digits :: "nat \<Rightarrow> nat \<Rightarrow> string \<Rightarrow> nat option" where
  "parse_digits mx acc [] = Some acc"
| "parse_digits mx acc (c # s) = do {
     d \<leftarrow> to_digit c;
     if mx < acc * 10 + d then None else parse_digits mx (acc * 10 + d) s }"

definition parse_uint :: "nat \<Rightarrow> string \<Rightarrow> nat option" where
  "parse_uint mx s = (if s = [] \<or> s = ''+'' \<or> s = ''-'' then None
     else parse_digits mx 0 (if hd s = CHR ''+'' then tl s else s))"

definition parse_u8 :: "string \<Rightarrow> u8 option" where
  "parse_u8 s = map_option of_nat (parse_uint 255 s)"

definition parse_usize :: "string \<Rightarrow> nat option" where
  "parse_usize s = parse_uint (2 ^ 64 - 1) s"

primrec find_map :: "('a \<Rightarrow> 'b option) \<Rightarrow> 'a list \<Rightarrow> 'b option" where
  "find_map f [] = None"
| "find_map f (x # xs) = (case f x of Some y \<Rightarrow> Some y | None \<Rightarrow> find_map f xs)"

section \<open>The parser\<close>

type_synonym ipv4 = "u8 \<times> u8 \<times> u8 \<times> u8"

datatype net_mode = Dhcp | Static ipv4 u8 ipv4

record static_defaults =
  sd_ip :: ipv4
  sd_prefix :: u8
  sd_gw :: ipv4

definition parse_ipv4 :: "string \<Rightarrow> ipv4 option" where
  "parse_ipv4 s = (case split_on (\<lambda>c. c = CHR ''.'') s of
     [a, b, c, d] \<Rightarrow> do {
       a \<leftarrow> parse_u8 a;
       b \<leftarrow> parse_u8 b;
       c \<leftarrow> parse_u8 c;
       d \<leftarrow> parse_u8 d;
       Some (a, b, c, d) }
   | _ \<Rightarrow> None)"

definition parse_ipv4_cidr :: "string \<Rightarrow> (ipv4 \<times> u8) option" where
  "parse_ipv4_cidr s = do {
     (ip_part, prefix_part) \<leftarrow> split_once (CHR ''/'') s;
     ip \<leftarrow> parse_ipv4 ip_part;
     prefix \<leftarrow> parse_u8 prefix_part;
     if prefix > 32 then None else Some (ip, prefix) }"

definition net_token :: "string \<times> string option \<times> string option \<Rightarrow> string \<Rightarrow> string \<times> string option \<times> string option" where
  "net_token st tok = (case st of (mode, ip_cidr, gw) \<Rightarrow>
     (case strip_prefix ''net='' tok of Some rest \<Rightarrow> (rest, ip_cidr, gw)
      | None \<Rightarrow> (case strip_prefix ''ip='' tok of Some rest \<Rightarrow> (mode, Some rest, gw)
      | None \<Rightarrow> (case strip_prefix ''gw='' tok of Some rest \<Rightarrow> (mode, ip_cidr, Some rest)
      | None \<Rightarrow> st))))"

definition parse_net_mode :: "string \<Rightarrow> static_defaults \<Rightarrow> net_mode" where
  "parse_net_mode cmdline defaults =
     (case foldl net_token (''static'', None, None) (split_ascii_whitespace cmdline) of (mode, ip_cidr, gw) \<Rightarrow>
        if eq_ignore_ascii_case mode ''dhcp'' then Dhcp
        else case (case Option.bind ip_cidr parse_ipv4_cidr of Some p \<Rightarrow> p | None \<Rightarrow> (sd_ip defaults, sd_prefix defaults)) of
          (ip, prefix) \<Rightarrow>
            Static ip prefix (case Option.bind gw parse_ipv4 of Some g \<Rightarrow> g | None \<Rightarrow> sd_gw defaults))"

definition parse_nic_filter :: "string \<Rightarrow> string option" where
  "parse_nic_filter cmdline = do {
     s \<leftarrow> find_map (strip_prefix ''nic='') (split_ascii_whitespace cmdline);
     if s \<noteq> [] then Some s else None }"

record smp_config =
  smp_enabled :: bool
  max_aps :: "nat option"

definition smp_token :: "smp_config \<Rightarrow> string \<Rightarrow> smp_config" where
  "smp_token cfg tok = (case strip_prefix ''smp='' tok of
     Some rest \<Rightarrow> if eq_ignore_ascii_case rest ''on'' then cfg\<lparr>smp_enabled := True\<rparr> else cfg
   | None \<Rightarrow> (case strip_prefix ''cpus='' tok of
       Some rest \<Rightarrow> (case parse_usize rest of
           Some n \<Rightarrow> if n > 0 then cfg\<lparr>max_aps := Some (n - 1)\<rparr> else cfg
         | None \<Rightarrow> cfg)
     | None \<Rightarrow> cfg))"

definition parse_smp :: "string \<Rightarrow> smp_config" where
  "parse_smp cmdline = foldl smp_token \<lparr>smp_enabled = False, max_aps = None\<rparr> (split_ascii_whitespace cmdline)"

text \<open>The defaults of the kernel, \<open>examples-kernel/src/main.rs\<close>.\<close>

definition NET_DEFAULTS :: static_defaults where
  "NET_DEFAULTS = \<lparr>sd_ip = (10, 0, 2, 15), sd_prefix = 24, sd_gw = (10, 0, 2, 2)\<rparr>"

section \<open>Printing\<close>

fun show_nat :: "nat \<Rightarrow> string" where
  "show_nat n = (if n < 10 then [char_of (48 + n)] else show_nat (n div 10) @ [char_of (48 + n mod 10)])"

declare show_nat.simps [simp del]

definition show_ipv4 :: "ipv4 \<Rightarrow> string" where
  "show_ipv4 q = (case q of (a, b, c, d) \<Rightarrow>
     show_nat (unat a) @ ''.'' @ show_nat (unat b) @ ''.'' @ show_nat (unat c) @ ''.'' @ show_nat (unat d))"

definition show_net_mode :: "net_mode \<Rightarrow> string list" where
  "show_net_mode m = (case m of Dhcp \<Rightarrow> [''net=dhcp'']
     | Static ip p gw \<Rightarrow> [''net=static'', ''ip='' @ show_ipv4 ip @ ''/'' @ show_nat (unat p), ''gw='' @ show_ipv4 gw])"

primrec unwords :: "string list \<Rightarrow> string" where
  "unwords [] = []"
| "unwords (w # ws) = w @ '' '' @ unwords ws"

definition is_word :: "string \<Rightarrow> bool" where
  "is_word w \<longleftrightarrow> w \<noteq> [] \<and> list_all (\<lambda>c. \<not> is_ascii_whitespace c) w"

definition is_net_token :: "string \<Rightarrow> bool" where
  "is_net_token w \<longleftrightarrow> strip_prefix ''net='' w \<noteq> None \<or> strip_prefix ''ip='' w \<noteq> None \<or> strip_prefix ''gw='' w \<noteq> None"

section \<open>Lemmas\<close>

lemma split_on_skip: "list_all (\<lambda>c. \<not> P c) w \<Longrightarrow> split_on P w = [w]"
  by (induction w) simp_all

lemma split_on_app: "list_all (\<lambda>c. \<not> P c) w \<Longrightarrow> P d \<Longrightarrow> split_on P (w @ d # s) = w # split_on P s"
  by (induction w) simp_all

lemma split_unwords: "list_all is_word ws \<Longrightarrow> split_ascii_whitespace (unwords ws) = ws"
  by (induction ws) (simp_all add: split_ascii_whitespace_def split_on_app is_word_def is_ascii_whitespace_def)

lemma of_char_digit: "d < 10 \<Longrightarrow> of_char (char_of (48 + d) :: char) = (48 + d :: nat)"
  by simp

lemma to_digit_show: "d < 10 \<Longrightarrow> to_digit (char_of (48 + d)) = Some d"
  by (simp add: to_digit_def)

lemma parse_digits_append:
  "parse_digits mx a (s @ t) = Option.bind (parse_digits mx a s) (\<lambda>b. parse_digits mx b t)"
  by (induction s arbitrary: a) (simp_all split: Option.bind_split)

lemma parse_digits_show: "n \<le> mx \<Longrightarrow> parse_digits mx 0 (show_nat n) = Some n"
proof (induction n rule: less_induct)
  case (less n)
  show ?case
  proof (cases "n < 10")
    case True
    then show ?thesis using less.prems by (simp add: show_nat.simps to_digit_show)
  next
    case False
    then have "parse_digits mx 0 (show_nat (n div 10)) = Some (n div 10)"
      using less by (simp add: div_le_dividend order_trans)
    then show ?thesis
      using False less.prems by (simp add: show_nat.simps [of n] parse_digits_append to_digit_show)
  qed
qed

lemma show_nat_chars: "show_nat n \<noteq> []" "c \<in> set (show_nat n) \<Longrightarrow> 48 \<le> (of_char c :: nat) \<and> (of_char c :: nat) \<le> 57"
proof -
  show "show_nat n \<noteq> []" by (simp add: show_nat.simps [of n])
  show "c \<in> set (show_nat n) \<Longrightarrow> 48 \<le> (of_char c :: nat) \<and> (of_char c :: nat) \<le> 57"
  proof (induction n rule: less_induct)
    case (less n)
    have "c \<in> set (show_nat (n div 10)) \<or> c = char_of (48 + n mod 10) \<or> n < 10 \<and> c = char_of (48 + n)"
      using less.prems by (auto simp: show_nat.simps [of n] split: if_splits)
    then show ?case using less.IH [of "n div 10"] less.prems by (cases "n < 10") (auto simp: show_nat.simps [of n])
  qed
qed

lemma parse_u8_show: "parse_u8 (show_nat (unat (x :: u8))) = Some x"
proof -
  have "unat x \<le> 255" using unat_less2p [of x] by simp
  then have p: "parse_digits 255 0 (show_nat (unat x)) = Some (unat x)" by (rule parse_digits_show)
  have "show_nat (unat x) \<noteq> ''+''" "show_nat (unat x) \<noteq> ''-''" "hd (show_nat (unat x)) \<noteq> CHR ''+''"
    using show_nat_chars(2) [of "CHR ''+''" "unat x"] show_nat_chars(2) [of "CHR ''-''" "unat x"]
      hd_in_set [OF show_nat_chars(1) [of "unat x"]] by auto
  then show ?thesis using p show_nat_chars(1) [of "unat x"] by (simp add: parse_u8_def parse_uint_def)
qed

lemma show_nat_all: "(\<And>c. 48 \<le> (of_char c :: nat) \<and> (of_char c :: nat) \<le> 57 \<Longrightarrow> P c) \<Longrightarrow> list_all P (show_nat n)"
  unfolding list_all_iff using show_nat_chars(2) by blast

lemma show_ipv4_all:
  "(\<And>c. 48 \<le> (of_char c :: nat) \<and> (of_char c :: nat) \<le> 57 \<Longrightarrow> P c) \<Longrightarrow> P (CHR ''.'') \<Longrightarrow> list_all P (show_ipv4 q)"
  by (cases q) (simp add: show_ipv4_def show_nat_all)

lemma parse_ipv4_show: "parse_ipv4 (show_ipv4 q) = Some q"
proof -
  obtain a b c d where q: "q = (a, b, c, d)" by (cases q)
  have s: "list_all (\<lambda>c. c \<noteq> CHR ''.'') (show_nat n)" for n by (rule show_nat_all) auto
  show ?thesis
    by (simp add: q show_ipv4_def parse_ipv4_def split_on_app split_on_skip s parse_u8_show)
qed

lemma split_once_app: "list_all (\<lambda>c. c \<noteq> d) w \<Longrightarrow> split_once d (w @ d # s) = Some (w, s)"
  by (induction w) simp_all

lemma parse_cidr_show: "p \<le> 32 \<Longrightarrow> parse_ipv4_cidr (show_ipv4 q @ ''/'' @ show_nat (unat p)) = Some (q, p)"
proof -
  have "list_all (\<lambda>c. c \<noteq> CHR ''/'') (show_ipv4 q)" by (rule show_ipv4_all) auto
  then show "p \<le> 32 \<Longrightarrow> ?thesis"
    by (simp add: parse_ipv4_cidr_def split_once_app parse_ipv4_show parse_u8_show not_less)
qed

lemma show_net_mode_words: "list_all is_word (show_net_mode m)"
proof -
  have n: "list_all (\<lambda>c. \<not> is_ascii_whitespace c) (show_nat n)" for n
    by (rule show_nat_all) (auto simp: is_ascii_whitespace_def)
  have i: "list_all (\<lambda>c. \<not> is_ascii_whitespace c) (show_ipv4 q)" for q
    by (rule show_ipv4_all) (auto simp: is_ascii_whitespace_def)
  show ?thesis
    by (cases m) (simp_all add: show_net_mode_def is_word_def n i, simp_all add: is_ascii_whitespace_def)
qed

lemma other_tokens: "list_all (\<lambda>w. \<not> is_net_token w) ws \<Longrightarrow> foldl net_token st ws = st"
  by (induction ws) (auto simp: is_net_token_def net_token_def split: prod.split)

lemma net_token_shown:
  "foldl net_token st (show_net_mode m) = (case m of
     Dhcp \<Rightarrow> (''dhcp'', snd st)
   | Static ip p gw \<Rightarrow> (''static'', Some (show_ipv4 ip @ ''/'' @ show_nat (unat p)), Some (show_ipv4 gw)))"
  by (cases m; cases st) (simp_all add: show_net_mode_def net_token_def strip_prefix_def)

section \<open>Theorems\<close>

text \<open>C38. Round trip of the network configuration: printed as tokens and put on the command line after any
  tokens whatever, and before any tokens that do not concern the network, a configuration is what
  the parser returns.  In particular a later setting overrides all earlier ones, and neither
  malformed nor unknown tokens change it.\<close>

theorem net_mode_roundtrip:
  assumes "list_all is_word before" "list_all is_word after" "list_all (\<lambda>w. \<not> is_net_token w) after"
    "case m of Dhcp \<Rightarrow> True | Static ip p gw \<Rightarrow> p \<le> 32"
  shows "parse_net_mode (unwords (before @ show_net_mode m @ after)) defaults = m"
proof -
  obtain st where st: "foldl net_token (''static'', None, None) before = st" by blast
  have w: "split_ascii_whitespace (unwords (before @ show_net_mode m @ after)) = before @ show_net_mode m @ after"
    using assms(1,2) show_net_mode_words [of m] by (intro split_unwords) simp
  have t: "foldl net_token (''static'', None, None) (before @ show_net_mode m @ after) =
      foldl net_token st (show_net_mode m)"
    by (simp add: st other_tokens [OF assms(3)])
  have e: "eq_ignore_ascii_case ''dhcp'' ''dhcp''" "\<not> eq_ignore_ascii_case ''static'' ''dhcp''"
    by (simp_all add: eq_ignore_ascii_case_def)
  show ?thesis
  proof (cases m)
    case Dhcp
    then show ?thesis unfolding parse_net_mode_def w t net_token_shown using e by (cases st) simp
  next
    case (Static ip p gw)
    then have "parse_ipv4_cidr (show_ipv4 ip @ ''/'' @ show_nat (unat p)) = Some (ip, p)"
      using assms(4) by (intro parse_cidr_show) simp
    then show ?thesis
      unfolding parse_net_mode_def w t net_token_shown using e Static by (simp add: parse_ipv4_show)
  qed
qed

theorem net_mode_roundtrip_witness:
  "parse_net_mode (unwords ([''net=dhcp'', ''ip=999''] @ show_net_mode (Static (192, 168, 0, 7) 16 (192, 168, 0, 1)) @ [''smp=on'']))
     NET_DEFAULTS = Static (192, 168, 0, 7) 16 (192, 168, 0, 1)"
  by (rule net_mode_roundtrip) (simp_all add: is_word_def is_ascii_whitespace_def is_net_token_def strip_prefix_def)

text \<open>C39. Whatever is on the command line, a static configuration of the kernel has a prefix length of at
  most 32, so that building the address range from it, which aborts for longer prefixes, succeeds.\<close>

theorem net_mode_prefix:
  "case parse_net_mode cmdline NET_DEFAULTS of Dhcp \<Rightarrow> True | Static ip prefix gw \<Rightarrow> prefix \<le> 32"
proof -
  have c: "p \<le> 32" if "parse_ipv4_cidr s = Some (q, p)" for s q p
    using that by (auto simp: parse_ipv4_cidr_def split: Option.bind_splits prod.splits if_splits)
  show ?thesis
    by (auto simp: parse_net_mode_def NET_DEFAULTS_def split: prod.split option.split Option.bind_splits dest: c)
qed

end
