(* ===== verification/Desc_Ring.thy ===== *)
theory Desc_Ring
  imports Prelude
begin

text \<open>
  Rings of DMA descriptors that a driver and a device hand to each other, the interface the PCI
  network drivers share.  A transmit ring is filled by the driver at its tail and emptied by the
  device in ring order; a receive ring is filled by the device in ring order and emptied by the
  driver.  The two locales say what one driver operation does to the ring; the two step relations
  interleave driver operations and device steps arbitrarily; the locale theorems say that frames
  then pass through the ring in order, unaltered, and without loss.
\<close>

section \<open>Step relations\<close>

text \<open>
  Transmit: \<open>acc\<close> are the frames accepted so far, from \<open>legal\<close> requests, \<open>wire\<close> those the device has
  read.  The device reads descriptors in ring order from descriptor \<open>k0\<close>, when \<open>ready\<close>, and then marks
  them done.  \<open>other\<close> are steps that do not touch the ring.
\<close>

inductive tx_runs :: "nat \<Rightarrow> nat \<Rightarrow> ('m \<Rightarrow> bool) \<Rightarrow> ('s \<Rightarrow> 'm \<Rightarrow> (bool \<times> 's) run) \<Rightarrow> ('s \<Rightarrow> 'm \<Rightarrow> bytes) \<Rightarrow> ('s \<Rightarrow> nat \<Rightarrow> bool) \<Rightarrow>
    ('s \<Rightarrow> nat \<Rightarrow> bytes) \<Rightarrow> ('s \<Rightarrow> nat \<Rightarrow> 's \<Rightarrow> bool) \<Rightarrow> ('s \<Rightarrow> 's \<Rightarrow> bool) \<Rightarrow> 's \<Rightarrow> 's \<Rightarrow> bytes list \<Rightarrow> bytes list \<Rightarrow> bool"
  for n k0 legal submit payload ready frame finish other s0 where
  tx_start: "tx_runs n k0 legal submit payload ready frame finish other s0 s0 [] []"
| tx_submit: "tx_runs n k0 legal submit payload ready frame finish other s0 s acc wire \<Longrightarrow> legal m \<Longrightarrow> submit s m = Ret (ok, s') \<Longrightarrow>
    tx_runs n k0 legal submit payload ready frame finish other s0 s' (if ok then acc @ [payload s m] else acc) wire"
| tx_finish: "tx_runs n k0 legal submit payload ready frame finish other s0 s acc wire \<Longrightarrow>
    ready s ((k0 + length wire) mod n) \<Longrightarrow> finish s ((k0 + length wire) mod n) s' \<Longrightarrow>
    tx_runs n k0 legal submit payload ready frame finish other s0 s' acc (wire @ [frame s ((k0 + length wire) mod n)])"
| tx_other: "tx_runs n k0 legal submit payload ready frame finish other s0 s acc wire \<Longrightarrow> other s s' \<Longrightarrow>
    tx_runs n k0 legal submit payload ready frame finish other s0 s' acc wire"

text \<open>
  Receive: \<open>del\<close> are the frames the device has put into descriptors, in ring order, each with a
  flag that says it arrived without error; \<open>out\<close> are the frames the driver has taken out.
\<close>

inductive rx_runs :: "nat \<Rightarrow> ('s \<Rightarrow> (bytes option \<times> 's) run) \<Rightarrow> ('s \<Rightarrow> nat \<Rightarrow> bytes \<times> bool \<Rightarrow> 's \<Rightarrow> bool) \<Rightarrow>
    ('s \<Rightarrow> 's \<Rightarrow> bool) \<Rightarrow> 's \<Rightarrow> 's \<Rightarrow> (bytes \<times> bool) list \<Rightarrow> bytes list \<Rightarrow> bool"
  for n recv deliver other s0 where
  rx_start: "rx_runs n recv deliver other s0 s0 [] []"
| rx_deliver: "rx_runs n recv deliver other s0 s del out \<Longrightarrow> deliver s (length del mod n) x s' \<Longrightarrow>
    rx_runs n recv deliver other s0 s' (del @ [x]) out"
| rx_recv: "rx_runs n recv deliver other s0 s del out \<Longrightarrow> recv s = Ret (r, s') \<Longrightarrow>
    rx_runs n recv deliver other s0 s' del (case r of None \<Rightarrow> out | Some x \<Rightarrow> out @ [x])"
| rx_other: "rx_runs n recv deliver other s0 s del out \<Longrightarrow> other s s' \<Longrightarrow>
    rx_runs n recv deliver other s0 s' del out"

section \<open>A window of the ring\<close>

lemma window_inj:
  assumes "(c::nat) \<le> i" "i < c + n" "c \<le> j" "j < c + n" "i mod n = j mod n"
  shows "i = j"
proof -
  have n: "0 < n" using assms by simp
  have "i - c < n" "j - c < n" using assms by linarith+
  moreover have "(c + (i - c)) mod n = (c + (j - c)) mod n" using assms by simp
  then have "(i - c) mod n = (j - c) mod n" by (rule nat_mod_add_cancel)
  ultimately have "i - c = j - c" by simp
  then show ?thesis using assms by linarith
qed

lemma window_add: "(c::nat) mod n = (c + n) mod n"
  by simp

section \<open>Transmit rings\<close>

locale tx_ring =
  fixes n :: nat
    and inv :: "'s \<Rightarrow> bool"
    and tail :: "'s \<Rightarrow> nat"
    and busy :: "'s \<Rightarrow> nat \<Rightarrow> bool"
    and frame :: "'s \<Rightarrow> nat \<Rightarrow> bytes"
    and legal :: "'m \<Rightarrow> bool"
    and submit :: "'s \<Rightarrow> 'm \<Rightarrow> (bool \<times> 's) run"
    and payload :: "'s \<Rightarrow> 'm \<Rightarrow> bytes"
    and ready :: "'s \<Rightarrow> nat \<Rightarrow> bool"
    and finish :: "'s \<Rightarrow> nat \<Rightarrow> 's \<Rightarrow> bool"
    and other :: "'s \<Rightarrow> 's \<Rightarrow> bool"
  assumes n_pos: "0 < n"
    and tail_less: "inv s \<Longrightarrow> tail s < n"
    and submit_full: "inv s \<Longrightarrow> busy s (tail s) \<Longrightarrow> legal m \<Longrightarrow> \<exists>s'. submit s m = Ret (False, s') \<and> inv s' \<and>
      tail s' = tail s \<and> busy s' = busy s \<and> frame s' = frame s"
    and submit_ok: "inv s \<Longrightarrow> \<not> busy s (tail s) \<Longrightarrow> legal m \<Longrightarrow> \<exists>s'. submit s m = Ret (True, s') \<and> inv s' \<and>
      tail s' = (tail s + 1) mod n \<and> busy s' = (busy s)(tail s := True) \<and>
      frame s' = (frame s)(tail s := payload s m)"
    and ready_law: "inv s \<Longrightarrow> ready s i \<Longrightarrow> busy s i \<or> i \<noteq> tail s"
    and finish_law: "inv s \<Longrightarrow> i < n \<Longrightarrow> finish s i s' \<Longrightarrow> inv s' \<and> tail s' = tail s \<and>
      busy s' = (busy s)(i := False) \<and> (\<forall>j < n. j \<noteq> i \<longrightarrow> frame s' j = frame s j)"
    and other_law: "inv s \<Longrightarrow> other s s' \<Longrightarrow> inv s' \<and> tail s' = tail s \<and> busy s' = busy s \<and> frame s' = frame s"
begin

text \<open>Descriptors \<open>length wire\<close> to \<open>length acc\<close> are in flight and hold the frames accepted last.\<close>

definition flight :: "'s \<Rightarrow> bytes list \<Rightarrow> nat \<Rightarrow> bool" where
  "flight s acc c \<longleftrightarrow> inv s \<and> c \<le> length acc \<and> length acc \<le> c + n \<and> tail s = length acc mod n \<and>
     (\<forall>j. c \<le> j \<and> j < length acc \<longrightarrow> busy s (j mod n) \<and> frame s (j mod n) = acc ! j) \<and>
     (\<forall>j. length acc \<le> j \<and> j < c + n \<longrightarrow> \<not> busy s (j mod n))"

lemma flight_full: "flight s acc c \<Longrightarrow> busy s (tail s) \<longleftrightarrow> length acc = c + n"
  using n_pos unfolding flight_def
  by (metis le_add1 le_refl less_add_same_cancel1 mod_add_self2 order_le_imp_less_or_eq)

lemma flight_submit:
  assumes "flight s acc c" "legal m" "submit s m = Ret (ok, s')"
  shows "flight s' (if ok then acc @ [payload s m] else acc) c"
proof (cases "busy s (tail s)")
  case True
  then show ?thesis using submit_full [of s m] assms by (auto simp: flight_def)
next
  case False
  let ?k = "length acc"
  have inv: "inv s" and tl: "tail s = ?k mod n" using assms(1) by (simp_all add: flight_def)
  from submit_ok [OF inv False assms(2)] assms(3) have s': "ok" "inv s'" "tail s' = (tail s + 1) mod n"
    "busy s' = (busy s)(tail s := True)" "frame s' = (frame s)(tail s := payload s m)" by auto
  have lt: "?k < c + n" using False flight_full [OF assms(1)] assms(1) by (auto simp: flight_def)
  have ne: "j mod n \<noteq> tail s" if "c \<le> j" "j < c + n" "j \<noteq> ?k" for j
    using window_inj [OF that(1,2), of ?k] that(3) lt assms(1) tl by (auto simp: flight_def)
  have "busy s' (j mod n) \<and> frame s' (j mod n) = (acc @ [payload s m]) ! j" if "c \<le> j" "j < Suc ?k" for j
  proof (cases "j = ?k")
    case True
    then show ?thesis using s'(4,5) tl by simp
  next
    case False
    then show ?thesis using that ne [of j] lt s'(4,5) assms(1) by (simp add: flight_def nth_append)
  qed
  moreover have "\<not> busy s' (j mod n)" if "Suc ?k \<le> j" "j < c + n" for j
    using that ne [of j] s'(4) assms(1) by (simp add: flight_def)
  moreover have "tail s' = Suc ?k mod n" using s'(3) tl by (simp add: mod_Suc_eq)
  ultimately show ?thesis using s'(1,2) lt assms(1) by (simp add: flight_def)
qed

lemma flight_finish:
  assumes "flight s acc c" "ready s (c mod n)" "finish s (c mod n) s'"
  shows "flight s' acc (Suc c)" and "frame s (c mod n) = acc ! c" and "c < length acc"
proof -
  have inv: "inv s" and tl: "tail s = length acc mod n" using assms(1) by (simp_all add: flight_def)
  from ready_law [OF inv assms(2)] show lt: "c < length acc"
    using assms(1) tl n_pos by (auto simp: flight_def le_less)
  then show "frame s (c mod n) = acc ! c" using assms(1) by (auto simp: flight_def)
  from finish_law [OF inv _ assms(3)] n_pos have s': "inv s'" "tail s' = tail s"
    "busy s' = (busy s)(c mod n := False)" "\<forall>j < n. j \<noteq> c mod n \<longrightarrow> frame s' j = frame s j" by auto
  have ne: "j mod n \<noteq> c mod n" if "c < j" "j < c + n" for j
    using window_inj [of c j n c] that by auto
  have "busy s' (j mod n) \<and> frame s' (j mod n) = acc ! j" if "Suc c \<le> j" "j < length acc" for j
    using that ne [of j] s'(3,4) assms(1) n_pos by (auto simp: flight_def)
  moreover have "\<not> busy s' (j mod n)" if "length acc \<le> j" "j < Suc c + n" for j
    using that s'(3) assms(1) lt by (cases "j = c + n") (auto simp: flight_def)
  ultimately show "flight s' acc (Suc c)" using s'(1,2) lt assms(1) by (simp add: flight_def)
qed

lemma tx_fifo:
  assumes "tx_runs n k0 legal submit payload ready frame finish other s0 s acc wire"
    and "inv s0" "tail s0 = k0 mod n" "\<And>i. i < n \<Longrightarrow> \<not> busy s0 i"
  shows "inv s \<and> wire = take (length wire) acc \<and> length acc \<le> length wire + n \<and>
    tail s = (k0 + length acc) mod n \<and> (busy s (tail s) \<longleftrightarrow> length acc = length wire + n)"
proof -
  let ?pad = "replicate k0 []"
  have "flight s (?pad @ acc) (k0 + length wire) \<and> wire = take (length wire) acc" using assms
  proof (induction rule: tx_runs.induct)
    case tx_start
    then show ?case by (simp add: flight_def n_pos)
  next
    case (tx_submit s acc wire m ok s')
    then show ?case using flight_submit [of s "?pad @ acc" "k0 + length wire" m ok s']
      by (auto simp: flight_def)
  next
    case (tx_finish s acc wire s')
    then have "flight s (?pad @ acc) (k0 + length wire)" "wire = take (length wire) acc" by auto
    then show ?case
      using flight_finish [of s "?pad @ acc" "k0 + length wire" s'] tx_finish.hyps
      by (auto simp: take_Suc_conv_app_nth nth_append)
  next
    case (tx_other s acc wire s')
    then show ?case using other_law [of s s'] by (auto simp: flight_def)
  qed
  then show ?thesis using flight_full [of s "?pad @ acc" "k0 + length wire"] by (auto simp: flight_def)
qed

text \<open>With the device idle the driver can fill the ring.\<close>

lemma tx_fill:
  assumes "inv s0" "tail s0 = k0 mod n" "\<And>i. i < n \<Longrightarrow> \<not> busy s0 i" "legal m" "k \<le> n"
  shows "\<exists>s acc. tx_runs n k0 legal submit payload ready frame finish other s0 s acc [] \<and> length acc = k"
  using assms(5)
proof (induction k)
  case 0
  show ?case using tx_start [of n k0 legal submit payload ready frame finish other s0] by auto
next
  case (Suc k)
  then obtain s acc where s: "tx_runs n k0 legal submit payload ready frame finish other s0 s acc []" "length acc = k"
    by auto
  from tx_fifo [OF s(1) assms(1-3)] s(2) Suc.prems have "inv s" "\<not> busy s (tail s)" by auto
  from submit_ok [OF this assms(4)] obtain s' where "submit s m = Ret (True, s')" by blast
  from tx_submit [OF s(1) assms(4) this] s(2) show ?case by (intro exI [of _ s'] exI [of _ "acc @ [payload s m]"]) simp
qed

end

section \<open>Receive rings\<close>

locale rx_ring =
  fixes n :: nat
    and inv :: "'s \<Rightarrow> bool"
    and head :: "'s \<Rightarrow> nat"
    and filled :: "'s \<Rightarrow> nat \<Rightarrow> bool"
    and content :: "'s \<Rightarrow> nat \<Rightarrow> bytes \<times> bool"
    and recv :: "'s \<Rightarrow> (bytes option \<times> 's) run"
    and deliver :: "'s \<Rightarrow> nat \<Rightarrow> bytes \<times> bool \<Rightarrow> 's \<Rightarrow> bool"
    and other :: "'s \<Rightarrow> 's \<Rightarrow> bool"
  assumes n_pos: "0 < n"
    and recv_empty: "inv s \<Longrightarrow> \<not> filled s (head s) \<Longrightarrow> \<exists>s'. recv s = Ret (None, s') \<and> inv s' \<and>
      head s' = head s \<and> filled s' = filled s \<and> content s' = content s"
    and recv_filled: "inv s \<Longrightarrow> filled s (head s) \<Longrightarrow> \<exists>s'. recv s =
        Ret (if snd (content s (head s)) then Some (fst (content s (head s))) else None, s') \<and> inv s' \<and>
      head s' = (head s + 1) mod n \<and> filled s' = (filled s)(head s := False) \<and>
      (\<forall>j < n. j \<noteq> head s \<longrightarrow> content s' j = content s j)"
    and deliver_law: "inv s \<Longrightarrow> i < n \<Longrightarrow> deliver s i x s' \<Longrightarrow> \<not> filled s i \<and> inv s' \<and> head s' = head s \<and>
      filled s' = (filled s)(i := True) \<and> content s' i = x \<and> (\<forall>j < n. j \<noteq> i \<longrightarrow> content s' j = content s j)"
    and other_law: "inv s \<Longrightarrow> other s s' \<Longrightarrow> inv s' \<and> head s' = head s \<and> filled s' = filled s \<and> content s' = content s"
begin

text \<open>Descriptors \<open>c\<close> to \<open>length del\<close> hold what the device delivered and the driver has not taken.\<close>

definition stored :: "'s \<Rightarrow> (bytes \<times> bool) list \<Rightarrow> nat \<Rightarrow> bool" where
  "stored s del c \<longleftrightarrow> inv s \<and> c \<le> length del \<and> length del \<le> c + n \<and> head s = c mod n \<and>
     (\<forall>j. c \<le> j \<and> j < length del \<longrightarrow> filled s (j mod n) \<and> content s (j mod n) = del ! j) \<and>
     (\<forall>j. length del \<le> j \<and> j < c + n \<longrightarrow> \<not> filled s (j mod n))"

lemma stored_head:
  assumes "stored s del c"
  shows "filled s (head s) \<longleftrightarrow> c < length del"
proof (cases "c < length del")
  case False
  then have "c = length del" using assms by (simp add: stored_def)
  then show ?thesis using assms n_pos by (simp add: stored_def)
qed (use assms in \<open>simp add: stored_def\<close>)

lemma stored_deliver:
  assumes "stored s del c" "deliver s (length del mod n) x s'"
  shows "stored s' (del @ [x]) c"
proof -
  let ?k = "length del"
  have inv: "inv s" using assms(1) by (simp add: stored_def)
  from deliver_law [OF inv _ assms(2)] n_pos have s': "\<not> filled s (?k mod n)" "inv s'" "head s' = head s"
    "filled s' = (filled s)(?k mod n := True)" "content s' (?k mod n) = x"
    "\<forall>j < n. j \<noteq> ?k mod n \<longrightarrow> content s' j = content s j" by auto
  have lt: "?k < c + n"
  proof (rule ccontr)
    assume "\<not> ?thesis"
    then have "?k = c + n" "c < ?k" using assms(1) n_pos by (auto simp: stored_def)
    then have "filled s (?k mod n)" using assms(1) by (auto simp: stored_def)
    with s'(1) show False by simp
  qed
  have ne: "j mod n \<noteq> ?k mod n" if "c \<le> j" "j < c + n" "j \<noteq> ?k" for j
    using window_inj [OF that(1,2), of ?k] that(3) lt assms(1) by (auto simp: stored_def)
  have "filled s' (j mod n) \<and> content s' (j mod n) = (del @ [x]) ! j" if "c \<le> j" "j < Suc ?k" for j
    using that ne [of j] lt s'(4,5,6) assms(1) n_pos by (cases "j = ?k") (simp_all add: stored_def nth_append)
  moreover have "\<not> filled s' (j mod n)" if "Suc ?k \<le> j" "j < c + n" for j
    using that ne [of j] s'(4) assms(1) by (simp add: stored_def)
  ultimately show ?thesis using s'(2,3) lt assms(1) by (simp add: stored_def)
qed

lemma stored_recv:
  assumes "stored s del c" "recv s = Ret (r, s')"
  shows "if c < length del then stored s' del (Suc c) \<and> r = (if snd (del ! c) then Some (fst (del ! c)) else None)
    else stored s' del c \<and> r = None"
proof (cases "c < length del")
  case False
  then show ?thesis
    using recv_empty [of s] stored_head [OF assms(1)] assms by (auto simp: stored_def)
next
  case True
  have inv: "inv s" and hd: "head s = c mod n" using assms(1) by (simp_all add: stored_def)
  have "filled s (head s)" using True stored_head [OF assms(1)] by simp
  from recv_filled [OF inv this] assms(2) have s':
    "r = (if snd (content s (head s)) then Some (fst (content s (head s))) else None)" "inv s'"
    "head s' = (head s + 1) mod n" "filled s' = (filled s)(head s := False)"
    "\<forall>j < n. j \<noteq> head s \<longrightarrow> content s' j = content s j" by auto
  have c: "content s (head s) = del ! c" using True assms(1) hd by (auto simp: stored_def)
  have ne: "j mod n \<noteq> head s" if "c < j" "j < c + n" for j
    using window_inj [of c j n c] that hd by auto
  have "filled s' (j mod n) \<and> content s' (j mod n) = del ! j" if "Suc c \<le> j" "j < length del" for j
    using that ne [of j] s'(4,5) assms(1) n_pos by (auto simp: stored_def)
  moreover have "\<not> filled s' (j mod n)" if "length del \<le> j" "j < Suc c + n" for j
    using that s'(4) assms(1) True hd by (cases "j = c + n") (auto simp: stored_def)
  moreover have "head s' = Suc c mod n" using s'(3) hd by (simp add: mod_Suc_eq)
  ultimately show ?thesis using True s'(1,2) c assms(1) by (simp add: stored_def)
qed

lemma rx_fifo:
  assumes "rx_runs n recv deliver other s0 s del out"
    and "inv s0" "head s0 = 0" "\<And>i. i < n \<Longrightarrow> \<not> filled s0 i"
  shows "inv s \<and> (\<exists>c \<le> length del. out = map fst (filter snd (take c del)) \<and> length del \<le> c + n \<and>
    (filled s (head s) \<longleftrightarrow> c < length del))"
proof -
  have "\<exists>c. stored s del c \<and> out = map fst (filter snd (take c del))" using assms(1)
  proof (induction rule: rx_runs.induct)
    case rx_start
    show ?case using assms(2-4) n_pos by (intro exI [of _ 0]) (simp add: stored_def)
  next
    case (rx_deliver s del out x s')
    then obtain c where c: "stored s del c" "out = map fst (filter snd (take c del))" by blast
    then have "stored s' (del @ [x]) c" using stored_deliver rx_deliver.hyps(2) by blast
    moreover have "take c (del @ [x]) = take c del" using c(1) by (simp add: stored_def)
    ultimately show ?case using c(2) by (intro exI [of _ c]) simp
  next
    case (rx_recv s del out r s')
    then obtain c where c: "stored s del c" "out = map fst (filter snd (take c del))" by blast
    show ?case
    proof (cases "c < length del")
      case True
      then have "stored s' del (Suc c)" "r = (if snd (del ! c) then Some (fst (del ! c)) else None)"
        using stored_recv [OF c(1) rx_recv.hyps(2)] by simp_all
      then show ?thesis using c(2) True by (intro exI [of _ "Suc c"]) (simp add: take_Suc_conv_app_nth)
    next
      case False
      then have "stored s' del c" "r = None" using stored_recv [OF c(1) rx_recv.hyps(2)] by simp_all
      then show ?thesis using c(2) by auto
    qed
  next
    case (rx_other s del out s')
    then show ?case using other_law [of s s'] by (auto simp: stored_def)
  qed
  then obtain c where c: "stored s del c" "out = map fst (filter snd (take c del))" by blast
  have "filled s (head s) \<longleftrightarrow> c < length del" using c(1) by (rule stored_head)
  moreover have "inv s" "c \<le> length del" "length del \<le> c + n" using c(1) by (simp_all add: stored_def)
  ultimately show ?thesis using c(2) by blast
qed

end

end
