(* ===== verification/E1000.thy ===== *)
theory E1000
  imports Dma Desc_Ring
begin

text \<open>
  The Intel e1000 driver, \<open>crates/embclox-e1000/src\<close>: \<open>desc.rs\<close>, \<open>regs.rs\<close>, \<open>reset.rs\<close>, \<open>error.rs\<close> and
  \<open>device.rs\<close>.

  The device's registers are memory-mapped.  What a read returns is decided by the hardware, a
  parameter of type \<open>reg_hw\<close>: from the number of the read, the register and the value last
  written to it.  The descriptor rings and packet buffers are DMA memory, one list element per
  descriptor and per buffer of \<open>MBUF_SIZE\<close> bytes.  The hardware changes them between driver
  operations; the two step relations below say how.
\<close>

section \<open>Data\<close>

definition TX_RING_SIZE :: nat where "TX_RING_SIZE = 256"
definition RX_RING_SIZE :: nat where "RX_RING_SIZE = 256"
definition MBUF_SIZE :: nat where "MBUF_SIZE = 2048"
definition PAGE_SIZE :: nat where "PAGE_SIZE = 4096"

record tx_desc =
  td_addr :: u64
  td_length :: u16
  td_cso :: u8
  td_cmd :: u8
  td_status :: u8
  td_css :: u8
  td_special :: u16

record rx_desc =
  rd_addr :: u64
  rd_length :: u16
  rd_csum :: u16
  rd_status :: u8
  rd_errors :: u8
  rd_special :: u16

definition div_ceil :: "nat \<Rightarrow> nat \<Rightarrow> nat" where
  "div_ceil a b = (a + b - 1) div b"

definition TX_RING_PAGES :: nat where "TX_RING_PAGES = div_ceil (TX_RING_SIZE * 16) PAGE_SIZE"
definition RX_RING_PAGES :: nat where "RX_RING_PAGES = div_ceil (RX_RING_SIZE * 16) PAGE_SIZE"
definition TX_BUF_PAGES :: nat where "TX_BUF_PAGES = div_ceil (TX_RING_SIZE * MBUF_SIZE) PAGE_SIZE"
definition RX_BUF_PAGES :: nat where "RX_BUF_PAGES = div_ceil (RX_RING_SIZE * MBUF_SIZE) PAGE_SIZE"

text \<open>Register word indices and bits.\<close>

definition CTL :: nat where "CTL = 0"
definition STAT :: nat where "STAT = 0x00008 div 4"
definition FCAL :: nat where "FCAL = 0x00028 div 4"
definition FCAH :: nat where "FCAH = 0x0002C div 4"
definition FCT :: nat where "FCT = 0x00030 div 4"
definition FCTTV :: nat where "FCTTV = 0x00170 div 4"
definition ICR :: nat where "ICR = 0x000C0 div 4"
definition ITR :: nat where "ITR = 0x000C4 div 4"
definition IMS :: nat where "IMS = 0x000D0 div 4"
definition IMC :: nat where "IMC = 0x000D8 div 4"
definition RCTL :: nat where "RCTL = 0x00100 div 4"
definition TCTL :: nat where "TCTL = 0x00400 div 4"
definition TIPG :: nat where "TIPG = 0x00410 div 4"
definition RDBAL :: nat where "RDBAL = 0x02800 div 4"
definition RDBAH :: nat where "RDBAH = 0x02804 div 4"
definition RDTR :: nat where "RDTR = 0x02820 div 4"
definition RADV :: nat where "RADV = 0x0282C div 4"
definition RDH :: nat where "RDH = 0x02810 div 4"
definition RDT :: nat where "RDT = 0x02818 div 4"
definition RDLEN :: nat where "RDLEN = 0x02808 div 4"
definition TDBAL :: nat where "TDBAL = 0x03800 div 4"
definition TDBAH :: nat where "TDBAH = 0x03804 div 4"
definition TDLEN :: nat where "TDLEN = 0x03808 div 4"
definition TDH :: nat where "TDH = 0x03810 div 4"
definition TDT :: nat where "TDT = 0x03818 div 4"
definition TIDV :: nat where "TIDV = 0x03820 div 4"
definition TADV :: nat where "TADV = 0x0382C div 4"
definition MTA :: nat where "MTA = 0x05200 div 4"
definition RAL :: nat where "RAL = 0x05400 div 4"
definition RAH :: nat where "RAH = 0x05404 div 4"
definition RFCTL :: nat where "RFCTL = 0x05008 div 4"

definition CTL_ASDE :: u32 where "CTL_ASDE = 0x20"
definition CTL_SLU :: u32 where "CTL_SLU = 0x40"
definition CTL_RST :: u32 where "CTL_RST = push_bit 26 1"
definition TCTL_EN :: u32 where "TCTL_EN = 2"
definition TCTL_PSP :: u32 where "TCTL_PSP = 8"
definition TCTL_CT_SHIFT :: nat where "TCTL_CT_SHIFT = 4"
definition TCTL_COLD_SHIFT :: nat where "TCTL_COLD_SHIFT = 12"
definition RCTL_EN :: u32 where "RCTL_EN = 2"
definition RCTL_UPE :: u32 where "RCTL_UPE = 8"
definition RCTL_MPE :: u32 where "RCTL_MPE = 0x10"
definition RCTL_LBM_MAC :: u32 where "RCTL_LBM_MAC = 0x40"
definition RCTL_BAM :: u32 where "RCTL_BAM = 0x8000"
definition RCTL_SZ_2048 :: u32 where "RCTL_SZ_2048 = 0"
definition RCTL_SECRC :: u32 where "RCTL_SECRC = 0x04000000"
definition TXD_CMD_EOP :: u8 where "TXD_CMD_EOP = 1"
definition TXD_CMD_RS :: u8 where "TXD_CMD_RS = 8"
definition TXD_STAT_DD :: u8 where "TXD_STAT_DD = 1"
definition RXD_STAT_DD :: u8 where "RXD_STAT_DD = 1"
definition RXD_STAT_EOP :: u8 where "RXD_STAT_EOP = 2"
definition IMS_RXT0 :: u32 where "IMS_RXT0 = 0x80"
definition IMS_LSC :: u32 where "IMS_LSC = 4"
definition IMS_ENABLE_MASK :: u32 where "IMS_ENABLE_MASK = IMS_RXT0 OR IMS_LSC"

record e1000 =
  e_regs :: "nat \<Rightarrow> u32"
  e_reads :: nat
  e_writes :: "(nat \<times> u32) list"
  e_tx_ring_dma :: dma_region
  e_rx_ring_dma :: dma_region
  e_tx_bufs_dma :: dma_region
  e_rx_bufs_dma :: dma_region
  e_tx :: "tx_desc list"
  e_rx :: "rx_desc list"
  e_tx_bufs :: "bytes list"
  e_rx_bufs :: "bytes list"

type_synonym reg_hw = "nat \<Rightarrow> nat \<Rightarrow> u32 \<Rightarrow> u32"

definition read_reg :: "reg_hw \<Rightarrow> nat \<Rightarrow> e1000 \<Rightarrow> u32 \<times> e1000" where
  "read_reg hw off e = (hw (e_reads e) off (e_regs e off), e\<lparr>e_reads := Suc (e_reads e)\<rparr>)"

definition write_reg :: "nat \<Rightarrow> u32 \<Rightarrow> e1000 \<Rightarrow> e1000" where
  "write_reg off v e = e\<lparr>e_regs := (e_regs e)(off := v), e_writes := e_writes e @ [(off, v)]\<rparr>"

definition write_regs :: "(nat \<times> u32) list \<Rightarrow> e1000 \<Rightarrow> e1000" where
  "write_regs ws e = fold (\<lambda>(off, v). write_reg off v) ws e"

definition write_flush :: "reg_hw \<Rightarrow> e1000 \<Rightarrow> e1000" where
  "write_flush hw e = snd (read_reg hw STAT e)"

section \<open>Reset and initialisation\<close>

text \<open>Poll CTL until the reset bit clears: at most \<open>n\<close> polls; the result says whether it cleared.\<close>

primrec poll_reset :: "nat \<Rightarrow> reg_hw \<Rightarrow> e1000 \<Rightarrow> bool \<times> e1000" where
  "poll_reset 0 hw e = (False, e)"
| "poll_reset (Suc n) hw e = (let (ctl, e) = read_reg hw CTL e in
     if ctl AND CTL_RST = 0 then (True, e) else poll_reset n hw e)"

definition start_reset :: "reg_hw \<Rightarrow> e1000 \<Rightarrow> e1000" where
  "start_reset hw e = (let e = write_reg IMS 0 e; (ctl, e) = read_reg hw CTL e in
     write_reg CTL (ctl OR CTL_RST) e)"

definition reset_device :: "reg_hw \<Rightarrow> e1000 \<Rightarrow> e1000 run" where
  "reset_device hw e = (let (cleared, e) = poll_reset 100000 hw (start_reset hw e) in do {
     assert_run cleared;
     Ret (write_regs [(IMS, 0), (CTL, CTL_SLU OR CTL_ASDE), (FCAL, 0), (FCAH, 0), (FCT, 0), (FCTTV, 0)] e) })"

definition init_tx_desc :: "dma_region \<Rightarrow> nat \<Rightarrow> tx_desc" where
  "init_tx_desc bufs i = \<lparr>td_addr = paddr bufs + of_nat (i * MBUF_SIZE), td_length = 0, td_cso = 0, td_cmd = 0,
     td_status = TXD_STAT_DD, td_css = 0, td_special = 0\<rparr>"

definition init_rx_desc :: "dma_region \<Rightarrow> nat \<Rightarrow> rx_desc" where
  "init_rx_desc bufs i = \<lparr>rd_addr = paddr bufs + of_nat (i * MBUF_SIZE), rd_length = 0, rd_csum = 0,
     rd_status = 0, rd_errors = 0, rd_special = 0\<rparr>"

definition tx_setup :: "dma_region \<Rightarrow> (nat \<times> u32) list" where
  "tx_setup ring =
     [(TCTL, TCTL_EN OR TCTL_PSP OR push_bit TCTL_CT_SHIFT 0x10 OR push_bit TCTL_COLD_SHIFT 0x40),
      (TIPG, 10 OR push_bit 10 8 OR push_bit 20 6),
      (TDBAL, ucast (paddr ring)), (TDBAH, ucast (drop_bit 32 (paddr ring))),
      (TDLEN, of_nat (TX_RING_SIZE * 16)), (TDT, 0), (TDH, 0)]"

definition rx_setup :: "dma_region \<Rightarrow> (nat \<times> u32) list" where
  "rx_setup ring =
     [(RCTL, (RCTL_EN OR RCTL_BAM OR RCTL_UPE OR RCTL_MPE OR RCTL_SZ_2048 OR RCTL_SECRC) AND
        NOT (push_bit 10 3)),
      (RFCTL, 0), (RDBAL, ucast (paddr ring)), (RDBAH, ucast (drop_bit 32 (paddr ring))),
      (RDLEN, of_nat (RX_RING_SIZE * 16)), (RDH, 0), (RDT, of_nat (RX_RING_SIZE - 1))]"

definition init_rings :: "reg_hw \<Rightarrow> e1000 \<Rightarrow> e1000" where
  "init_rings hw e =
     (let e = e\<lparr>e_tx := map (init_tx_desc (e_tx_bufs_dma e)) [0..<TX_RING_SIZE],
                e_rx := map (init_rx_desc (e_rx_bufs_dma e)) [0..<RX_RING_SIZE]\<rparr>;
          e = write_regs (tx_setup (e_tx_ring_dma e) @ rx_setup (e_rx_ring_dma e) @
                map (\<lambda>i. (MTA + i, 0)) [0..<4096 div 32] @
                [(TIDV, 0), (TADV, 0), (RDTR, 0), (RADV, 0), (ITR, 0), (IMS, IMS_ENABLE_MASK)]) e;
          (icr, e) = read_reg hw ICR e in
      write_flush hw e)"

text \<open>The four DMA regions, in the order they are requested, and their zeroed contents.\<close>

definition e_new :: "reg_hw \<Rightarrow> (nat \<Rightarrow> dma_region) \<Rightarrow> e1000 \<Rightarrow> e1000" where
  "e_new hw dma e = init_rings hw (e\<lparr>e_tx_ring_dma := dma 0, e_rx_ring_dma := dma 1,
     e_tx_bufs_dma := dma 2, e_rx_bufs_dma := dma 3,
     e_tx_bufs := replicate TX_RING_SIZE (zeros MBUF_SIZE),
     e_rx_bufs := replicate RX_RING_SIZE (zeros MBUF_SIZE)\<rparr>)"

definition mac_address :: "reg_hw \<Rightarrow> e1000 \<Rightarrow> bytes \<times> e1000" where
  "mac_address hw e = (let (ral, e) = read_reg hw RAL e; (rah, e) = read_reg hw RAH e in
     ([ucast ral, ucast (drop_bit 8 ral), ucast (drop_bit 16 ral), ucast (drop_bit 24 ral),
       ucast rah, ucast (drop_bit 8 rah)], e))"

definition link_is_up :: "reg_hw \<Rightarrow> e1000 \<Rightarrow> bool \<times> e1000" where
  "link_is_up hw e = (let (st, e) = read_reg hw STAT e in (st AND 2 \<noteq> 0, e))"

definition e_enable_interrupts :: "reg_hw \<Rightarrow> e1000 \<Rightarrow> e1000" where
  "e_enable_interrupts hw e = write_flush hw (write_reg IMS IMS_ENABLE_MASK e)"

definition disable_interrupts :: "reg_hw \<Rightarrow> e1000 \<Rightarrow> e1000" where
  "disable_interrupts hw e = write_flush hw (write_reg IMC (NOT 0) e)"

definition enable_loopback :: "reg_hw \<Rightarrow> e1000 \<Rightarrow> e1000" where
  "enable_loopback hw e = (let (rctl, e) = read_reg hw RCTL e in
     write_flush hw (write_reg RCTL ((rctl AND NOT (push_bit 6 3)) OR RCTL_LBM_MAC) e))"

record interrupt_status = icr :: u32

definition rx_irq :: "interrupt_status \<Rightarrow> bool" where
  "rx_irq st \<longleftrightarrow> icr st AND 0x80 \<noteq> 0"

definition link_status_change :: "interrupt_status \<Rightarrow> bool" where
  "link_status_change st \<longleftrightarrow> icr st AND 0x04 \<noteq> 0"

definition e_handle_interrupt :: "reg_hw \<Rightarrow> e1000 \<Rightarrow> interrupt_status \<times> e1000" where
  "e_handle_interrupt hw e = (let (v, e) = read_reg hw ICR e in (\<lparr>icr = v\<rparr>, write_reg ICR v e))"

text \<open>\<open>Drop\<close>: stop the device, then hand back the four regions, even when the reset times out.\<close>

definition e_drop :: "reg_hw \<Rightarrow> e1000 \<Rightarrow> dma_region list \<times> e1000" where
  "e_drop hw e = (let (cleared, e) = poll_reset 100000 hw (start_reset hw e) in
     ([e_tx_ring_dma e, e_rx_ring_dma e, e_tx_bufs_dma e, e_rx_bufs_dma e], e))"

section \<open>Receive and transmit\<close>

definition e_has_rx_packet :: "reg_hw \<Rightarrow> e1000 \<Rightarrow> (bool \<times> e1000) run" where
  "e_has_rx_packet hw e = (let (rdt, e) = read_reg hw RDT e; rindex = (unat rdt + 1) mod RX_RING_SIZE in do {
     desc \<leftarrow> nth_run (e_rx e) rindex;
     Ret (rd_addr desc \<noteq> 0 \<and> rd_status desc AND RXD_STAT_DD \<noteq> 0, e) })"

definition e_recv_with :: "reg_hw \<Rightarrow> 'r on_slice \<Rightarrow> e1000 \<Rightarrow> ('r option \<times> e1000) run" where
  "e_recv_with hw f e = (let (rdt, e) = read_reg hw RDT e; rindex = (unat rdt + 1) mod RX_RING_SIZE in do {
     desc \<leftarrow> nth_run (e_rx e) rindex;
     if rd_addr desc = 0 then Ret (None, e)
     else if rd_status desc AND (RXD_STAT_DD OR RXD_STAT_EOP) \<noteq> RXD_STAT_DD OR RXD_STAT_EOP then Ret (None, e)
     else if rd_errors desc \<noteq> 0 then
       Ret (None, write_flush hw (write_reg RDT (of_nat rindex)
         (e\<lparr>e_rx := (e_rx e)[rindex := desc\<lparr>rd_status := 0\<rparr>]\<rparr>)))
     else let len = min (unat (rd_length desc)) MBUF_SIZE in do {
       buf \<leftarrow> nth_run (e_rx_bufs e) rindex;
       frame \<leftarrow> slice 0 len buf;
       let (frame, result) = f frame in do {
       buf \<leftarrow> patch 0 frame buf;
       buf \<leftarrow> patch 0 (zeros (min 64 len)) buf;
       Ret (Some result, write_flush hw (write_reg RDT (of_nat rindex)
         (e\<lparr>e_rx_bufs := (e_rx_bufs e)[rindex := buf], e_rx := (e_rx e)[rindex := desc\<lparr>rd_status := 0\<rparr>]\<rparr>))) } } })"

definition e_has_tx_space :: "reg_hw \<Rightarrow> e1000 \<Rightarrow> (bool \<times> e1000) run" where
  "e_has_tx_space hw e = (let (tdt, e) = read_reg hw TDT e in do {
     desc \<leftarrow> nth_run (e_tx e) (unat tdt);
     Ret (td_status desc AND TXD_STAT_DD \<noteq> 0, e) })"

definition e_transmit_with :: "reg_hw \<Rightarrow> nat \<Rightarrow> 'r on_slice \<Rightarrow> e1000 \<Rightarrow> ('r option \<times> e1000) run" where
  "e_transmit_with hw len f e = (let (tdt, e) = read_reg hw TDT e; tindex = unat tdt in do {
     desc \<leftarrow> nth_run (e_tx e) tindex;
     if td_status desc AND TXD_STAT_DD = 0 then Ret (None, e)
     else let len = min len MBUF_SIZE in do {
       buf \<leftarrow> nth_run (e_tx_bufs e) tindex;
       slot \<leftarrow> slice 0 len buf;
       let (frame, result) = f slot in do {
       buf \<leftarrow> patch 0 frame buf;
       Ret (Some result, write_flush hw (write_reg TDT (of_nat ((tindex + 1) mod TX_RING_SIZE))
         (e\<lparr>e_tx_bufs := (e_tx_bufs e)[tindex := buf],
            e_tx := (e_tx e)[tindex := desc\<lparr>td_length := of_nat len, td_status := 0,
              td_cmd := TXD_CMD_RS OR TXD_CMD_EOP\<rparr>]\<rparr>))) } } })"

text \<open>\<open>transmit\<close> copies the packet, cut to the buffer size, and drops it when the ring is full.\<close>

definition e_transmit :: "reg_hw \<Rightarrow> bytes \<Rightarrow> e1000 \<Rightarrow> e1000 run" where
  "e_transmit hw packet e = do {
     (r, e) \<leftarrow> e_transmit_with hw (length packet) (\<lambda>slot. (take (length slot) packet, ())) e;
     Ret e }"

section \<open>Lemmas: single operations\<close>

text \<open>The tail registers belong to the driver: they read back what was last written to them.\<close>

definition tails_hold :: "reg_hw \<Rightarrow> bool" where
  "tails_hold hw \<longleftrightarrow> (\<forall>n v. hw n RDT v = v \<and> hw n TDT v = v)"

definition tx_part :: "e1000 \<Rightarrow> u32 \<times> tx_desc list \<times> bytes list" where
  "tx_part e = (e_regs e TDT, e_tx e, e_tx_bufs e)"

definition rx_part :: "e1000 \<Rightarrow> u32 \<times> rx_desc list \<times> bytes list" where
  "rx_part e = (e_regs e RDT, e_rx e, e_rx_bufs e)"

definition tx_shape :: "e1000 \<Rightarrow> bool" where
  "tx_shape e \<longleftrightarrow> length (e_tx e) = 256 \<and> length (e_tx_bufs e) = 256 \<and>
     (\<forall>b \<in> set (e_tx_bufs e). length b = 2048) \<and> unat (e_regs e TDT) < 256"

definition rx_shape :: "e1000 \<Rightarrow> bool" where
  "rx_shape e \<longleftrightarrow> length (e_rx e) = 256 \<and> length (e_rx_bufs e) = 256 \<and>
     (\<forall>b \<in> set (e_rx_bufs e). length b = 2048)"

definition in_flight :: "tx_desc \<Rightarrow> bool" where
  "in_flight d \<longleftrightarrow> td_status d AND TXD_STAT_DD = 0"

lemma e1000_sizes: "TX_RING_SIZE = 256" "RX_RING_SIZE = 256" "MBUF_SIZE = 2048"
  by (simp_all add: TX_RING_SIZE_def RX_RING_SIZE_def MBUF_SIZE_def)

lemma tails_differ [simp]: "TDT \<noteq> RDT" "RDT \<noteq> TDT"
  by (simp_all add: TDT_def RDT_def)

lemma read_tails:
  assumes "tails_hold hw"
  shows "read_reg hw TDT e = (e_regs e TDT, e\<lparr>e_reads := Suc (e_reads e)\<rparr>)"
    and "read_reg hw RDT e = (e_regs e RDT, e\<lparr>e_reads := Suc (e_reads e)\<rparr>)"
  using assms by (simp_all add: tails_hold_def read_reg_def)

lemma e_transmit_refused:
  assumes "tails_hold hw" "tx_shape e" "in_flight (e_tx e ! unat (e_regs e TDT))"
  shows "e_transmit_with hw len f e = Ret (None, e\<lparr>e_reads := Suc (e_reads e)\<rparr>)"
  using assms by (simp add: e_transmit_with_def read_tails tx_shape_def nth_run_def in_flight_def)

lemma e_transmit_accepted:
  fixes e :: e1000 and f :: "'r on_slice" and len :: nat
  assumes "tails_hold hw" "keeps_length f" "tx_shape e" "\<not> in_flight (e_tx e ! unat (e_regs e TDT))"
  defines "t \<equiv> unat (e_regs e TDT)" and "k \<equiv> min len 2048"
  obtains e' where "e_transmit_with hw len f e = Ret (Some (snd (f (take k (e_tx_bufs e ! t)))), e')"
    "e_regs e' TDT = of_nat ((t + 1) mod 256)"
    "e_tx e' = (e_tx e)[t := (e_tx e ! t)\<lparr>td_length := of_nat k, td_status := 0, td_cmd := TXD_CMD_RS OR TXD_CMD_EOP\<rparr>]"
    "e_tx_bufs e' = (e_tx_bufs e)[t := fst (f (take k (e_tx_bufs e ! t))) @ drop k (e_tx_bufs e ! t)]"
    "rx_part e' = rx_part e" "tx_shape e'"
proof -
  have t: "t < 256" "length (e_tx e) = 256" "length (e_tx_bufs e) = 256" "length (e_tx_bufs e ! t) = 2048"
    using assms(3) by (simp_all add: tx_shape_def t_def)
  have l: "length (fst (f (take k (e_tx_bufs e ! t)))) = k"
    using assms(2) t(4) by (simp add: keeps_length_def k_def)
  have st: "td_status (e_tx e ! t) AND TXD_STAT_DD \<noteq> 0" using assms(4) by (simp add: in_flight_def t_def)
  have p: "patch 0 (fst (f (take k (e_tx_bufs e ! t)))) (e_tx_bufs e ! t) =
      Ret (fst (f (take k (e_tx_bufs e ! t))) @ drop k (e_tx_bufs e ! t))"
    using l t(4) by (simp add: patch_def write_at_def k_def)
  have s: "slice 0 k (e_tx_bufs e ! t) = Ret (take k (e_tx_bufs e ! t))"
    using t(4) by (simp add: slice_def k_def)
  define e' where "e' = write_flush hw (write_reg TDT (of_nat ((t + 1) mod 256))
    (e\<lparr>e_reads := Suc (e_reads e), e_tx_bufs := (e_tx_bufs e)[t := fst (f (take k (e_tx_bufs e ! t))) @ drop k (e_tx_bufs e ! t)],
       e_tx := (e_tx e)[t := (e_tx e ! t)\<lparr>td_length := of_nat k, td_status := 0, td_cmd := TXD_CMD_RS OR TXD_CMD_EOP\<rparr>]\<rparr>))"
  have r: "e_transmit_with hw len f e = Ret (Some (snd (f (take k (e_tx_bufs e ! t)))), e')"
    using t st p s by (simp add: e_transmit_with_def read_tails [OF assms(1)] nth_run_def
        t_def [symmetric] k_def [symmetric] case_prod_beta e1000_sizes e'_def)
  have sh: "tx_shape e'"
    using t l assms(3) k_def by (auto simp: e'_def write_flush_def read_reg_def write_reg_def tx_shape_def unat_of_nat
        dest!: set_update_subset_insert [THEN subsetD])
  show ?thesis
    by (rule that [OF r _ _ _ _ sh])
      (simp_all add: e'_def write_flush_def read_reg_def write_reg_def rx_part_def)
qed

section \<open>The transmit ring\<close>

type_synonym tx_request = "nat \<times> unit on_slice"

definition legal_request :: "tx_request \<Rightarrow> bool" where
  "legal_request m \<longleftrightarrow> keeps_length (snd m)"

definition e_tail :: "e1000 \<Rightarrow> nat" where
  "e_tail e = unat (e_regs e TDT)"

definition e_busy :: "e1000 \<Rightarrow> nat \<Rightarrow> bool" where
  "e_busy e i \<longleftrightarrow> in_flight (e_tx e ! i)"

definition e_frame :: "e1000 \<Rightarrow> nat \<Rightarrow> bytes" where
  "e_frame e i = take (unat (td_length (e_tx e ! i))) (e_tx_bufs e ! i)"

definition e_submit :: "reg_hw \<Rightarrow> e1000 \<Rightarrow> tx_request \<Rightarrow> (bool \<times> e1000) run" where
  "e_submit hw e m = do { (r, e) \<leftarrow> e_transmit_with hw (fst m) (snd m) e; Ret (r \<noteq> None, e) }"

definition e_payload :: "e1000 \<Rightarrow> tx_request \<Rightarrow> bytes" where
  "e_payload e m = fst (snd m (take (min (fst m) 2048) (e_tx_bufs e ! e_tail e)))"

text \<open>
  The device works on the ring while head and tail differ; it marks a descriptor it has sent with
  the done bit.
\<close>

definition e_ready :: "e1000 \<Rightarrow> nat \<Rightarrow> bool" where
  "e_ready e i \<longleftrightarrow> i \<noteq> e_tail e"

definition e_finish :: "e1000 \<Rightarrow> nat \<Rightarrow> e1000 \<Rightarrow> bool" where
  "e_finish e i e' \<longleftrightarrow> (\<exists>st. st AND TXD_STAT_DD \<noteq> 0 \<and>
     tx_part e' = (e_regs e TDT, (e_tx e)[i := (e_tx e ! i)\<lparr>td_status := st\<rparr>], e_tx_bufs e))"

definition e_tx_other :: "e1000 \<Rightarrow> e1000 \<Rightarrow> bool" where
  "e_tx_other e e' \<longleftrightarrow> tx_part e' = tx_part e"

lemma in_flight_0: "in_flight (d\<lparr>td_length := l, td_status := 0, td_cmd := c\<rparr>)"
  by (simp add: in_flight_def)

lemma tx_shape_cong: "tx_part e' = tx_part e \<Longrightarrow> tx_shape e' = tx_shape e"
  by (simp add: tx_part_def tx_shape_def)

lemma e_submit_ok:
  assumes "tails_hold hw" "tx_shape e" "\<not> e_busy e (e_tail e)" "legal_request m"
  shows "\<exists>e'. e_submit hw e m = Ret (True, e') \<and> tx_shape e' \<and> e_tail e' = (e_tail e + 1) mod 256 \<and>
    e_busy e' = (e_busy e)(e_tail e := True) \<and> e_frame e' = (e_frame e)(e_tail e := e_payload e m)"
proof -
  let ?t = "e_tail e" and ?k = "min (fst m) 2048"
  let ?slot = "take ?k (e_tx_bufs e ! ?t)"
  have t: "?t < 256" "length (e_tx e) = 256" "length (e_tx_bufs e) = 256" "length (e_tx_bufs e ! ?t) = 2048"
    using assms(2) by (simp_all add: tx_shape_def e_tail_def)
  have kl: "keeps_length (snd m)" using assms(4) by (simp add: legal_request_def)
  then have l: "length (fst (snd m ?slot)) = ?k" using t(4) by (simp add: keeps_length_def)
  from e_transmit_accepted [OF assms(1) kl assms(2), of "fst m"] assms(3) obtain e' where e':
    "e_transmit_with hw (fst m) (snd m) e = Ret (Some (snd (snd m ?slot)), e')"
    "e_regs e' TDT = of_nat ((?t + 1) mod 256)"
    "e_tx e' = (e_tx e)[?t := (e_tx e ! ?t)\<lparr>td_length := of_nat ?k, td_status := 0, td_cmd := TXD_CMD_RS OR TXD_CMD_EOP\<rparr>]"
    "e_tx_bufs e' = (e_tx_bufs e)[?t := fst (snd m ?slot) @ drop ?k (e_tx_bufs e ! ?t)]"
    "tx_shape e'"
    unfolding e_busy_def e_tail_def by blast
  have k: "unat (of_nat ?k :: u16) = ?k" by (simp add: unat_of_nat min_def)
  have tl: "e_tail e' = (?t + 1) mod 256"
    using e'(2) by (simp add: e_tail_def unat_of_nat)
  have "e_frame e' = (e_frame e)(?t := e_payload e m)"
    using e'(3,4) t k l by (auto simp: fun_eq_iff e_frame_def e_payload_def nth_list_update)
  moreover have "e_busy e' = (e_busy e)(?t := True)"
    using e'(3) t by (auto simp: fun_eq_iff e_busy_def in_flight_0 nth_list_update)
  ultimately show ?thesis using e'(1,5) tl by (simp add: e_submit_def)
qed

lemma e_finish_facts:
  assumes "tx_shape e" "i < 256" "e_finish e i e'"
  shows "tx_shape e'" "e_tail e' = e_tail e" "e_busy e' = (e_busy e)(i := False)" "e_frame e' = e_frame e"
  using assms
  by (auto simp: e_finish_def tx_part_def tx_shape_def e_tail_def e_busy_def e_frame_def in_flight_def
      fun_eq_iff nth_list_update)

interpretation e1000_tx: tx_ring 256 "\<lambda>e. tails_hold hw \<and> tx_shape e" e_tail e_busy e_frame legal_request
  "e_submit hw" e_payload e_ready e_finish e_tx_other for hw
proof (unfold_locales, goal_cases)
  case (2 s)
  then show ?case by (simp add: tx_shape_def e_tail_def)
next
  case (3 s m)
  then show ?case
    using e_transmit_refused [of hw s "fst m" "snd m"]
    by (auto simp: e_submit_def e_busy_def e_tail_def e_frame_def tx_shape_def fun_eq_iff)
next
  case (4 s m)
  then show ?case using e_submit_ok [of hw s m] by blast
next
  case (5 s i)
  then show ?case by (simp add: e_ready_def)
next
  case (6 s i s')
  then show ?case using e_finish_facts [of s i s'] by simp
next
  case (7 s s')
  then show ?case
    using tx_shape_cong [of s' s]
    by (auto simp: e_tx_other_def tx_part_def e_tail_def e_busy_def e_frame_def fun_eq_iff)
qed simp

section \<open>The receive ring\<close>

definition e_head :: "e1000 \<Rightarrow> nat" where
  "e_head e = (unat (e_regs e RDT) + 1) mod 256"

definition complete :: "rx_desc \<Rightarrow> bool" where
  "complete d \<longleftrightarrow> rd_status d AND (RXD_STAT_DD OR RXD_STAT_EOP) = RXD_STAT_DD OR RXD_STAT_EOP"

definition e_filled :: "e1000 \<Rightarrow> nat \<Rightarrow> bool" where
  "e_filled e i \<longleftrightarrow> complete (e_rx e ! i)"

definition e_content :: "e1000 \<Rightarrow> nat \<Rightarrow> bytes \<times> bool" where
  "e_content e i = (take (min (unat (rd_length (e_rx e ! i))) 2048) (e_rx_bufs e ! i), rd_errors (e_rx e ! i) = 0)"

definition e_recv :: "reg_hw \<Rightarrow> e1000 \<Rightarrow> (bytes option \<times> e1000) run" where
  "e_recv hw e = e_recv_with hw (\<lambda>frame. (frame, frame)) e"

text \<open>
  Every descriptor has a buffer, and a frame fits one buffer, so the device sets the end-of-packet
  bit of every descriptor it fills.  It fills descriptors it owns, up to but without the tail.
\<close>

definition rx_armed :: "e1000 \<Rightarrow> bool" where
  "rx_armed e \<longleftrightarrow> rx_shape e \<and> (\<forall>d \<in> set (e_rx e). rd_addr d \<noteq> 0 \<and> (rd_status d AND RXD_STAT_DD \<noteq> 0 \<longrightarrow> complete d))"

definition e_deliver :: "e1000 \<Rightarrow> nat \<Rightarrow> bytes \<times> bool \<Rightarrow> e1000 \<Rightarrow> bool" where
  "e_deliver e i x e' \<longleftrightarrow> i \<noteq> unat (e_regs e RDT) \<and> rd_status (e_rx e ! i) AND RXD_STAT_DD = 0 \<and>
     (\<exists>d buf. rx_part e' = (e_regs e RDT, (e_rx e)[i := d], (e_rx_bufs e)[i := buf]) \<and>
        rd_addr d = rd_addr (e_rx e ! i) \<and> complete d \<and> (rd_errors d = 0 \<longleftrightarrow> snd x) \<and>
        length buf = 2048 \<and> unat (rd_length d) \<le> 2048 \<and> take (unat (rd_length d)) buf = fst x)"

definition e_rx_other :: "e1000 \<Rightarrow> e1000 \<Rightarrow> bool" where
  "e_rx_other e e' \<longleftrightarrow> rx_part e' = rx_part e"

lemma e_head_Suc: "Suc (unat (e_regs e RDT)) mod 256 = e_head e"
  by (simp add: e_head_def)

lemma complete_done:
  assumes "complete d"
  shows "rd_status d AND RXD_STAT_DD \<noteq> 0"
proof -
  have "rd_status d AND RXD_STAT_DD = (rd_status d AND (RXD_STAT_DD OR RXD_STAT_EOP)) AND RXD_STAT_DD"
    by (simp add: and.assoc RXD_STAT_DD_def RXD_STAT_EOP_def)
  also have "\<dots> = (RXD_STAT_DD OR RXD_STAT_EOP) AND RXD_STAT_DD" using assms by (simp only: complete_def)
  finally show ?thesis by (simp add: RXD_STAT_DD_def RXD_STAT_EOP_def)
qed

lemma rx_armed_nth:
  assumes "rx_armed e" "i < 256"
  shows "rd_addr (e_rx e ! i) \<noteq> 0" "rd_status (e_rx e ! i) AND RXD_STAT_DD \<noteq> 0 \<longleftrightarrow> complete (e_rx e ! i)"
    "length (e_rx_bufs e ! i) = 2048" "length (e_rx e) = 256" "length (e_rx_bufs e) = 256"
  using assms complete_done by (auto simp: rx_armed_def rx_shape_def)

lemma rx_armed_update:
  assumes "rx_armed e" "rx_part e' = (t, (e_rx e)[i := d], (e_rx_bufs e)[i := buf])" "length buf = 2048"
    "rd_addr d \<noteq> 0" "rd_status d AND RXD_STAT_DD \<noteq> 0 \<longrightarrow> complete d"
  shows "rx_armed e'"
  using assms by (auto simp: rx_armed_def rx_shape_def rx_part_def
      dest!: set_update_subset_insert [THEN subsetD])

lemma e_has_rx_packet_iff:
  assumes "tails_hold hw" "rx_armed e"
  shows "e_has_rx_packet hw e = Ret (e_filled e (e_head e), e\<lparr>e_reads := Suc (e_reads e)\<rparr>)"
  using assms rx_armed_nth [OF assms(2), of "e_head e"]
  by (simp add: e_has_rx_packet_def read_tails e_head_def nth_run_def e1000_sizes e_filled_def)

text \<open>What one receive does, for any closure and any state of the head descriptor.\<close>

lemma e_recv_nothing:
  assumes "tails_hold hw" "rx_shape e" "rd_addr (e_rx e ! e_head e) = 0 \<or> \<not> e_filled e (e_head e)"
  shows "e_recv_with hw f e = Ret (None, e\<lparr>e_reads := Suc (e_reads e)\<rparr>)"
  using assms by (auto simp: e_recv_with_def read_tails e_head_def nth_run_def e1000_sizes e_filled_def
      complete_def rx_shape_def Let_def)

lemma rx_shape_nth:
  "rx_shape e \<Longrightarrow> i < 256 \<Longrightarrow> length (e_rx_bufs e ! i) = 2048" "rx_shape e \<Longrightarrow> i < 256 \<Longrightarrow> length (e_rx e) = 256"
  "rx_shape e \<Longrightarrow> i < 256 \<Longrightarrow> length (e_rx_bufs e) = 256"
  by (auto simp: rx_shape_def)

lemma e_recv_error:
  assumes "tails_hold hw" "rx_shape e" "e_filled e (e_head e)" "\<not> snd (e_content e (e_head e))" "rd_addr (e_rx e ! e_head e) \<noteq> 0"
  obtains e' where "e_recv_with hw f e = Ret (None, e')"
    "rx_part e' = (of_nat (e_head e), (e_rx e)[e_head e := (e_rx e ! e_head e)\<lparr>rd_status := 0\<rparr>], e_rx_bufs e)"
    "tx_part e' = tx_part e"
proof -
  let ?h = "e_head e"
  let ?e = "write_flush hw (write_reg RDT (of_nat ?h)
    (e\<lparr>e_reads := Suc (e_reads e), e_rx := (e_rx e)[?h := (e_rx e ! ?h)\<lparr>rd_status := 0\<rparr>]\<rparr>))"
  have h: "?h < 256" by (simp add: e_head_def)
  have "e_recv_with hw f e = Ret (None, ?e)"
    using assms(3-5) h rx_shape_nth [OF assms(2) h]
    by (simp add: e_recv_with_def read_tails [OF assms(1)] e_head_Suc nth_run_def e1000_sizes
        e_filled_def complete_def e_content_def Let_def)
  then show ?thesis
    by (rule that) (simp_all add: write_flush_def read_reg_def write_reg_def rx_part_def tx_part_def)
qed

lemma e_recv_frame:
  fixes f :: "'r on_slice" and e :: e1000
  assumes "tails_hold hw" "rx_shape e" "e_filled e (e_head e)" "snd (e_content e (e_head e))" "keeps_length f" "rd_addr (e_rx e ! e_head e) \<noteq> 0"
  defines "frame \<equiv> fst (e_content e (e_head e))"
  obtains e' buf where "e_recv_with hw f e = Ret (Some (snd (f frame)), e')" "length buf = 2048"
    "rx_part e' = (of_nat (e_head e), (e_rx e)[e_head e := (e_rx e ! e_head e)\<lparr>rd_status := 0\<rparr>],
       (e_rx_bufs e)[e_head e := buf])"
    "tx_part e' = tx_part e"
proof -
  let ?h = "e_head e" and ?k = "min (unat (rd_length (e_rx e ! e_head e))) 2048"
  have h: "?h < 256" by (simp add: e_head_def)
  note a = rx_shape_nth [OF assms(2) h]
  have fr: "frame = take ?k (e_rx_bufs e ! ?h)" by (simp add: frame_def e_content_def)
  have lf: "length (fst (f frame)) = ?k" using assms(5) a(1) fr by (simp add: keeps_length_def)
  define b1 where "b1 = fst (f frame) @ drop ?k (e_rx_bufs e ! ?h)"
  define b2 where "b2 = zeros (min 64 ?k) @ drop (min 64 ?k) b1"
  have l1: "length b1 = 2048" using lf a(1) by (simp add: b1_def)
  then have l2: "length b2 = 2048" by (simp add: b2_def)
  have p1: "patch 0 (fst (f frame)) (e_rx_bufs e ! ?h) = Ret b1"
    using lf a(1) by (simp add: patch_def write_at_def b1_def)
  have p2: "patch 0 (zeros (min 64 ?k)) b1 = Ret b2"
    using l1 by (simp add: patch_def write_at_def b2_def)
  have s: "slice 0 ?k (e_rx_bufs e ! ?h) = Ret frame" using a(1) fr by (simp add: slice_def)
  define e' where "e' = write_flush hw (write_reg RDT (of_nat ?h)
    (e\<lparr>e_reads := Suc (e_reads e), e_rx_bufs := (e_rx_bufs e)[?h := b2],
       e_rx := (e_rx e)[?h := (e_rx e ! ?h)\<lparr>rd_status := 0\<rparr>]\<rparr>))"
  have "e_recv_with hw f e = Ret (Some (snd (f frame)), e')"
    using assms(3,4,6) h a s p1 p2
    by (simp add: e_recv_with_def read_tails [OF assms(1)] e_head_Suc nth_run_def e1000_sizes
        e_filled_def complete_def e_content_def case_prod_beta Let_def e'_def)
  then show ?thesis
    by (rule that) (simp_all add: l2 e'_def write_flush_def read_reg_def write_reg_def rx_part_def tx_part_def)
qed

lemma e_recv_filled:
  assumes "tails_hold hw" "rx_armed e" "e_filled e (e_head e)"
  obtains e' buf where
    "e_recv hw e = Ret (if snd (e_content e (e_head e)) then Some (fst (e_content e (e_head e))) else None, e')"
    "length buf = 2048"
    "rx_part e' = (of_nat (e_head e), (e_rx e)[e_head e := (e_rx e ! e_head e)\<lparr>rd_status := 0\<rparr>],
       (e_rx_bufs e)[e_head e := buf])"
proof -
  have h: "e_head e < 256" by (simp add: e_head_def)
  have sh: "rx_shape e" using assms(2) by (simp add: rx_armed_def)
  have ad: "rd_addr (e_rx e ! e_head e) \<noteq> 0" using rx_armed_nth(1) [OF assms(2) h] .
  show ?thesis
  proof (cases "snd (e_content e (e_head e))")
  case True
  have "keeps_length (\<lambda>frame::bytes. (frame, frame))" by (simp add: keeps_length_def)
  from e_recv_frame [OF assms(1) sh assms(3) True this ad] obtain e' buf where
    "e_recv_with hw (\<lambda>frame. (frame, frame)) e = Ret (Some (snd (fst (e_content e (e_head e)), fst (e_content e (e_head e)))), e')"
    "length buf = 2048"
    "rx_part e' = (of_nat (e_head e), (e_rx e)[e_head e := (e_rx e ! e_head e)\<lparr>rd_status := 0\<rparr>],
       (e_rx_bufs e)[e_head e := buf])" by blast
  then show ?thesis using True that by (simp add: e_recv_def)
next
  case False
  from e_recv_error [OF assms(1) sh assms(3) False ad] obtain e' where "e_recv_with hw (\<lambda>frame. (frame, frame)) e = Ret (None, e')"
    "rx_part e' = (of_nat (e_head e), (e_rx e)[e_head e := (e_rx e ! e_head e)\<lparr>rd_status := 0\<rparr>], e_rx_bufs e)"
    by blast
  then show ?thesis
    using False that [of e' "e_rx_bufs e ! e_head e"] rx_armed_nth(3) [OF assms(2) h] by (simp add: e_recv_def)
  qed
qed

lemma e_head_next: "rx_part e' = (of_nat (e_head e), ds, bs) \<Longrightarrow> e_head e' = (e_head e + 1) mod 256"
  by (simp add: rx_part_def e_head_def unat_of_nat)

lemma not_complete_0 [simp]: "\<not> complete (d\<lparr>rd_status := 0\<rparr>)"
  by (simp add: complete_def RXD_STAT_DD_def RXD_STAT_EOP_def)

lemma e_deliver_facts:
  assumes "rx_armed e" "i < 256" "e_deliver e i x e'"
  shows "\<not> e_filled e i" "rx_armed e'" "e_head e' = e_head e" "e_filled e' = (e_filled e)(i := True)"
    "e_content e' i = x" "\<And>j. j \<noteq> i \<Longrightarrow> e_content e' j = e_content e j"
proof -
  from assms(3) obtain d buf where d: "rd_status (e_rx e ! i) AND RXD_STAT_DD = 0"
    "rx_part e' = (e_regs e RDT, (e_rx e)[i := d], (e_rx_bufs e)[i := buf])"
    "rd_addr d = rd_addr (e_rx e ! i)" "complete d" "rd_errors d = 0 \<longleftrightarrow> snd x"
    "length buf = 2048" "unat (rd_length d) \<le> 2048" "take (unat (rd_length d)) buf = fst x"
    unfolding e_deliver_def by blast
  note a = rx_armed_nth [OF assms(1,2)]
  show "\<not> e_filled e i" using d(1) complete_done by (auto simp: e_filled_def)
  show "rx_armed e'" using rx_armed_update [OF assms(1) d(2,6)] d(3,4) a(1) by simp
  show "e_head e' = e_head e" using d(2) by (simp add: rx_part_def e_head_def)
  show "e_filled e' = (e_filled e)(i := True)"
    using d(2,4) a assms(2) by (auto simp: rx_part_def e_filled_def fun_eq_iff nth_list_update)
  show "e_content e' i = x"
    using d(2,5,7,8) a assms(2) by (simp add: rx_part_def e_content_def prod_eq_iff)
  show "e_content e' j = e_content e j" if "j \<noteq> i" for j
    using d(2) that by (simp add: rx_part_def e_content_def)
qed

interpretation e1000_rx: rx_ring 256 "\<lambda>e. tails_hold hw \<and> rx_armed e" e_head e_filled e_content
  "e_recv hw" e_deliver e_rx_other for hw
proof (unfold_locales, goal_cases)
  case (2 s)
  then have "e_recv hw s = Ret (None, s\<lparr>e_reads := Suc (e_reads s)\<rparr>)"
    by (simp add: e_recv_def e_recv_nothing rx_armed_def)
  then show ?case using 2
    by (simp add: rx_armed_def rx_shape_def e_head_def e_filled_def e_content_def fun_eq_iff)
next
  case (3 s)
  then have h: "e_head s < 256" by (simp add: e_head_def)
  from 3 obtain s' buf where s':
    "e_recv hw s = Ret (if snd (e_content s (e_head s)) then Some (fst (e_content s (e_head s))) else None, s')"
    "length buf = 2048"
    "rx_part s' = (of_nat (e_head s), (e_rx s)[e_head s := (e_rx s ! e_head s)\<lparr>rd_status := 0\<rparr>],
       (e_rx_bufs s)[e_head s := buf])" using e_recv_filled [of hw s] by blast
  note a = rx_armed_nth [OF conjunct2 [OF 3(1)] h]
  have "rx_armed s'" using rx_armed_update [OF conjunct2 [OF 3(1)] s'(3,2)] a(1) by simp
  moreover have "e_filled s' = (e_filled s)(e_head s := False)"
    using s'(3) a h by (auto simp: rx_part_def e_filled_def fun_eq_iff nth_list_update)
  moreover have "e_content s' j = e_content s j" if "j \<noteq> e_head s" for j
    using s'(3) that by (simp add: rx_part_def e_content_def)
  ultimately show ?case using s'(1) e_head_next [OF s'(3)] 3(1) by blast
next
  case (4 s i x s')
  then show ?case using e_deliver_facts [of s i x s'] by blast
next
  case (5 s s')
  then show ?case
    by (auto simp: e_rx_other_def rx_part_def rx_armed_def rx_shape_def e_head_def e_filled_def e_content_def fun_eq_iff)
qed simp

section \<open>Initial state\<close>

lemma write_regs_other: "off \<notin> fst ` set ws \<Longrightarrow> e_regs (write_regs ws e) off = e_regs e off"
  unfolding write_regs_def by (induction ws arbitrary: e) (auto simp: write_reg_def)

lemma write_regs_rings:
  "e_tx (write_regs ws e) = e_tx e \<and> e_rx (write_regs ws e) = e_rx e \<and>
   e_tx_bufs (write_regs ws e) = e_tx_bufs e \<and> e_rx_bufs (write_regs ws e) = e_rx_bufs e"
  unfolding write_regs_def by (induction ws arbitrary: e) (auto simp: write_reg_def)

lemma write_regs_append: "write_regs (ws @ vs) e = write_regs vs (write_regs ws e)"
  by (simp add: write_regs_def)

lemma write_regs_Cons: "write_regs ((off, v) # ws) e = write_regs ws (write_reg off v e)"
  by (simp add: write_regs_def)

lemmas reg_numbers = TCTL_def TIPG_def TDBAL_def TDBAH_def TDLEN_def TDT_def TDH_def RCTL_def RFCTL_def
  RDBAL_def RDBAH_def RDLEN_def RDH_def RDT_def MTA_def TIDV_def TADV_def RDTR_def RADV_def ITR_def IMS_def

lemma init_tails:
  "e_regs (init_rings hw e) TDT = 0" "e_regs (init_rings hw e) RDT = 255"
proof -
  let ?vs = "map (\<lambda>i. (MTA + i, 0)) [0..<128] @
    [(TIDV, 0), (TADV, 0), (RDTR, 0), (RADV, 0), (ITR, 0), (IMS, IMS_ENABLE_MASK)]"
  have vs: "TDT \<notin> fst ` set ?vs" "RDT \<notin> fst ` set ?vs" by (auto simp: reg_numbers)
  have rx: "TDT \<notin> fst ` set (rx_setup r)" for r by (auto simp: rx_setup_def reg_numbers)
  have rdt: "e_regs (write_regs (rx_setup r) e) RDT = 255" for r e
    by (simp add: rx_setup_def write_regs_Cons) (simp add: write_regs_def write_reg_def e1000_sizes)
  have tdt: "e_regs (write_regs (tx_setup r) e) TDT = 0" for r e
    by (simp add: tx_setup_def write_regs_Cons)
      (simp add: write_regs_def write_reg_def TDT_def TDH_def)
  show "e_regs (init_rings hw e) TDT = 0" "e_regs (init_rings hw e) RDT = 255"
    unfolding init_rings_def
    by (simp_all add: Let_def case_prod_beta write_flush_def read_reg_def write_regs_append [of "tx_setup _"]
        write_regs_append [of "rx_setup _"] write_regs_other [OF vs(1)] write_regs_other [OF vs(2)]
        write_regs_other [OF rx] tdt rdt del: set_append)
qed

lemma init_lists:
  "e_tx (init_rings hw e) = map (init_tx_desc (e_tx_bufs_dma e)) [0..<256]"
  "e_rx (init_rings hw e) = map (init_rx_desc (e_rx_bufs_dma e)) [0..<256]"
  "e_tx_bufs (init_rings hw e) = e_tx_bufs e" "e_rx_bufs (init_rings hw e) = e_rx_bufs e"
  by (simp_all add: init_rings_def Let_def case_prod_beta write_flush_def read_reg_def write_regs_rings e1000_sizes)

lemma e_new_tx: "tx_shape (e_new hw dma e)" "e_tail (e_new hw dma e) = 0"
    "i < 256 \<Longrightarrow> \<not> e_busy (e_new hw dma e) i"
  by (simp_all add: e_new_def tx_shape_def e_tail_def init_tails init_lists e1000_sizes e_busy_def
      in_flight_def init_tx_desc_def TXD_STAT_DD_def)

text \<open>The receive buffers are DMA memory: they do not start at address 0 or run past the end.\<close>

definition dma_range_ok :: "dma_region \<Rightarrow> nat \<Rightarrow> bool" where
  "dma_range_ok r len \<longleftrightarrow> paddr r \<noteq> 0 \<and> unat (paddr r) + len \<le> 2 ^ 64"

lemma dma_range_nonzero:
  assumes "dma_range_ok r len" "k < len"
  shows "paddr r + of_nat k \<noteq> 0"
proof -
  have l: "unat (paddr r) + k < 2 ^ 64" using assms by (simp add: dma_range_ok_def)
  then have "unat (paddr r + of_nat k) = unat (paddr r) + k"
    by (simp add: unat_word_ariths unat_of_nat)
  moreover have "0 < unat (paddr r)" using assms by (simp add: dma_range_ok_def unat_gt_0)
  ultimately show ?thesis by auto
qed

lemma e_new_rx:
  assumes "dma_range_ok (dma 3) (256 * 2048)"
  shows "rx_armed (e_new hw dma e)" "e_head (e_new hw dma e) = 0" "i < 256 \<Longrightarrow> \<not> e_filled (e_new hw dma e) i"
  using assms dma_range_nonzero [of "dma 3" "256 * 2048"]
  by (auto simp: e_new_def rx_armed_def rx_shape_def e_head_def init_tails init_lists e1000_sizes e_filled_def
      init_rx_desc_def complete_def RXD_STAT_DD_def RXD_STAT_EOP_def simp del: of_nat_mult)

section \<open>Frames through the rings\<close>

abbreviation e1000_tx_runs where
  "e1000_tx_runs hw \<equiv> tx_runs 256 0 legal_request (e_submit hw) e_payload e_ready e_frame e_finish e_tx_other"

abbreviation e1000_rx_runs where
  "e1000_rx_runs hw \<equiv> rx_runs 256 (e_recv hw) e_deliver e_rx_other"

lemma e_tx_run:
  assumes "tails_hold hw" "e1000_tx_runs hw (e_new hw dma e0) e acc wire"
  shows "tx_shape e \<and> wire = take (length wire) acc \<and> length acc \<le> length wire + 256 \<and>
    e_tail e = length acc mod 256 \<and> (e_busy e (e_tail e) \<longleftrightarrow> length acc = length wire + 256)"
proof -
  have "tails_hold hw \<and> tx_shape (e_new hw dma e0)" using assms(1) e_new_tx(1) by blast
  moreover have "e_tail (e_new hw dma e0) = 0 mod 256" by (simp add: e_new_tx)
  ultimately show ?thesis using e1000_tx.tx_fifo [OF assms(2) _ _ e_new_tx(3), unfolded add_0_left] by blast
qed

lemma e_has_tx_space_iff:
  assumes "tails_hold hw" "tx_shape e"
  shows "e_has_tx_space hw e = Ret (\<not> e_busy e (e_tail e), e\<lparr>e_reads := Suc (e_reads e)\<rparr>)"
  using assms by (simp add: e_has_tx_space_def read_tails e_tail_def nth_run_def tx_shape_def e_busy_def in_flight_def)

text \<open>Hardware that reads back every register, and a region for its DMA memory.\<close>

definition plain_hw :: reg_hw where
  "plain_hw n off v = v"

definition demo_dma :: "nat \<Rightarrow> dma_region" where
  "demo_dma i = \<lparr>vaddr = 0x200000, paddr = 0x100000, dma_size = 0x80000\<rparr>"

definition blank_e1000 :: e1000 where
  "blank_e1000 = \<lparr>e_regs = (\<lambda>_. 0), e_reads = 0, e_writes = [], e_tx_ring_dma = demo_dma 0, e_rx_ring_dma = demo_dma 1,
     e_tx_bufs_dma = demo_dma 2, e_rx_bufs_dma = demo_dma 3, e_tx = [], e_rx = [], e_tx_bufs = [], e_rx_bufs = []\<rparr>"

lemma plain_tails [simp]: "tails_hold plain_hw"
  by (simp add: tails_hold_def plain_hw_def)

lemma demo_request: "legal_request (60, \<lambda>slot. (slot, ()))"
  by (simp add: legal_request_def keeps_length_def)

text \<open>
  C3.  Frames handed to \<open>transmit_with\<close> reach the device's wire in order, unaltered and without loss:
  in every interleaving of transmit calls with the device, the frames the device has read are
  exactly the first of those accepted, at most 256 accepted frames are waiting, and
  \<open>has_tx_space\<close> answers whether one more will be accepted.
\<close>

theorem e1000_tx_fifo:
  assumes "tails_hold hw" "e1000_tx_runs hw (e_new hw dma e0) e acc wire"
  shows "wire = take (length wire) acc \<and> length acc \<le> length wire + 256 \<and>
    (\<exists>e'. e_has_tx_space hw e = Ret (length acc < length wire + 256, e'))"
proof -
  note r = e_tx_run [OF assms]
  have "(\<not> e_busy e (e_tail e)) = (length acc < length wire + 256)" using r by linarith
  then have "e_has_tx_space hw e = Ret (length acc < length wire + 256, e\<lparr>e_reads := Suc (e_reads e)\<rparr>)"
    using e_has_tx_space_iff [OF assms(1) conjunct1 [OF r]] by (simp only:)
  then show ?thesis using r by blast
qed

lemma e_run_one:
  "\<exists>e acc wire. e1000_tx_runs plain_hw (e_new plain_hw demo_dma e0) e acc wire \<and> length acc = 1 \<and> length wire = 1"
proof -
  let ?i = "e_new plain_hw demo_dma e0"
  have "\<exists>s acc. e1000_tx_runs plain_hw ?i s acc [] \<and> length acc = 1"
    by (rule e1000_tx.tx_fill [OF _ _ _ demo_request]) (simp_all add: e_new_tx)
  then obtain e acc where e: "e1000_tx_runs plain_hw ?i e acc []" "length acc = 1" by blast
  from e_tx_run [OF plain_tails e(1)] e(2) have r: "e_ready e ((0 + length ([]::bytes list)) mod 256)"
    by (simp add: e_ready_def)
  have "e_finish e ((0 + length ([]::bytes list)) mod 256) (e\<lparr>e_tx := (e_tx e)[0 := (e_tx e ! 0)\<lparr>td_status := 1\<rparr>]\<rparr>)"
    unfolding e_finish_def by (intro exI [of _ 1]) (simp add: tx_part_def TXD_STAT_DD_def)
  from tx_finish [OF e(1) r this] e(2) show ?thesis
    by (intro exI [of _ "e\<lparr>e_tx := (e_tx e)[0 := (e_tx e ! 0)\<lparr>td_status := 1\<rparr>]\<rparr>"] exI [of _ acc] exI [of _ "[] @ [e_frame e 0]"]) simp
qed

theorem e1000_tx_fifo_witness:
  "\<exists>e acc wire. e1000_tx_runs plain_hw (e_new plain_hw demo_dma blank_e1000) e acc wire \<and> length wire = 1 \<and>
     wire = acc \<and> (\<exists>e'. e_has_tx_space plain_hw e = Ret (True, e'))"
proof -
  obtain e acc wire where r: "e1000_tx_runs plain_hw (e_new plain_hw demo_dma blank_e1000) e acc wire"
    "length acc = 1" "length wire = 1" using e_run_one by blast
  from e1000_tx_fifo [OF plain_tails r(1)] r show ?thesis by (intro exI [of _ e] exI [of _ acc] exI [of _ wire]) simp
qed

text \<open>
  C34.  The driver hands out all 256 descriptors of the ring.  When it has, the tail register has come
  round to the descriptor the device would read next, which to the device is an empty ring: the
  device has nothing to read and \<open>has_tx_space\<close> stays false, so transmission stops for good.
\<close>

theorem e1000_tx_can_stall:
  "\<exists>e acc. e1000_tx_runs plain_hw (e_new plain_hw dma e0) e acc [] \<and> length acc = 256 \<and>
     \<not> e_ready e 0 \<and> (\<exists>e'. e_has_tx_space plain_hw e = Ret (False, e'))"
proof -
  let ?i = "e_new plain_hw dma e0"
  have "\<exists>s acc. e1000_tx_runs plain_hw ?i s acc [] \<and> length acc = 256"
    by (rule e1000_tx.tx_fill [OF _ _ _ demo_request]) (simp_all add: e_new_tx)
  then obtain e acc where e: "e1000_tx_runs plain_hw ?i e acc []" "length acc = 256" by blast
  from e_tx_run [OF plain_tails e(1)] e(2) have "tx_shape e" "e_tail e = 0" "e_busy e (e_tail e)" by auto
  then show ?thesis using e e_has_tx_space_iff [OF plain_tails, of e] by (auto simp: e_ready_def)
qed

lemma e_rx_run:
  assumes "tails_hold hw" "dma_range_ok (dma 3) (256 * 2048)" "e1000_rx_runs hw (e_new hw dma e0) e del out"
  shows "rx_armed e \<and> (\<exists>c \<le> length del. out = map fst (filter snd (take c del)) \<and> length del \<le> c + 256 \<and>
    (e_filled e (e_head e) \<longleftrightarrow> c < length del))"
proof -
  note new = e_new_rx [of dma, OF assms(2)]
  have "tails_hold hw \<and> rx_armed (e_new hw dma e0)" using assms(1) new(1) by blast
  from e1000_rx.rx_fifo [OF assms(3) this new(2,3)] show ?thesis by blast
qed

text \<open>
  C11.  Frames the device delivers come out of \<open>recv_with\<close> in order, unaltered, each once, without those the
  device flagged with an error: in every interleaving of deliveries and receive calls the frames
  taken out are the good ones of a prefix of the deliveries, at most 256 are waiting behind it,
  and \<open>has_rx_packet\<close> answers whether any is.
\<close>

theorem e1000_rx_fifo:
  assumes "tails_hold hw" "dma_range_ok (dma 3) (256 * 2048)" "e1000_rx_runs hw (e_new hw dma e0) e del out"
  shows "\<exists>c \<le> length del. out = map fst (filter snd (take c del)) \<and> length del \<le> c + 256 \<and>
    (\<exists>e'. e_has_rx_packet hw e = Ret (c < length del, e'))"
  using e_rx_run [OF assms] e_has_rx_packet_iff [OF assms(1), of e] by auto

definition demo_rx_desc :: "rx_desc \<Rightarrow> rx_desc" where
  "demo_rx_desc d = d\<lparr>rd_length := 3, rd_status := 3, rd_errors := 0\<rparr>"

lemma e_deliver_one:
  "e_deliver (e_new plain_hw demo_dma e0) 0 ([1, 2, 3], True)
     (e_new plain_hw demo_dma e0\<lparr>e_rx := (e_rx (e_new plain_hw demo_dma e0))[0 := demo_rx_desc (init_rx_desc (demo_dma 3) 0)],
        e_rx_bufs := (e_rx_bufs (e_new plain_hw demo_dma e0))[0 := [1, 2, 3] @ zeros 2045]\<rparr>)"
  unfolding e_deliver_def
  by (intro conjI exI [of _ "demo_rx_desc (init_rx_desc (demo_dma 3) 0)"] exI [of _ "[1, 2, 3] @ zeros 2045"])
    (simp_all add: e_new_def init_tails init_lists rx_part_def demo_rx_desc_def complete_def init_rx_desc_def
      RXD_STAT_DD_def RXD_STAT_EOP_def)

theorem e1000_rx_fifo_witness:
  "\<exists>e out. e1000_rx_runs plain_hw (e_new plain_hw demo_dma blank_e1000) e [([1, 2, 3], True)] out \<and>
     (out = [] \<or> out = [[1, 2, 3]]) \<and> (\<exists>e'. e_has_rx_packet plain_hw e = Ret (out = [], e'))"
proof -
  have d: "dma_range_ok (demo_dma 3) (256 * 2048)" by (simp add: dma_range_ok_def demo_dma_def)
  obtain e where "e1000_rx_runs plain_hw (e_new plain_hw demo_dma blank_e1000) e ([] @ [([1, 2, 3], True)]) []"
    using rx_deliver [OF rx_start [of 256 "e_recv plain_hw" e_deliver e_rx_other "e_new plain_hw demo_dma blank_e1000"],
        of "([1, 2, 3], True)"] e_deliver_one by auto
  then have r: "e1000_rx_runs plain_hw (e_new plain_hw demo_dma blank_e1000) e [([1, 2, 3], True)] []" by simp
  from e1000_rx_fifo [OF plain_tails d r] obtain c e' where
    "[] = map fst (filter snd (take c [([1::u8, 2, 3], True)]))" "c \<le> 1"
    "e_has_rx_packet plain_hw e = Ret (c < 1, e')" by auto
  moreover from this have "c = 0" by (cases c) auto
  ultimately show ?thesis using r by (intro exI [of _ e] exI [of _ "[]"]) simp
qed

section \<open>Reset\<close>

lemma poll_reset_iff: "fst (poll_reset n hw e) \<longleftrightarrow> (\<exists>i < n. hw (e_reads e + i) CTL (e_regs e CTL) AND CTL_RST = 0)"
proof (induction n arbitrary: e)
  case (Suc n)
  show ?case using Suc [of "e\<lparr>e_reads := Suc (e_reads e)\<rparr>"]
    by (auto simp: read_reg_def Ex_less_Suc2)
qed simp

text \<open>\<open>reset_device\<close> returns exactly when one of its polls of CTL finds the reset bit clear.\<close>

lemma reset_device_iff:
  fixes e :: e1000 and hw :: reg_hw
  defines "ctl \<equiv> hw (e_reads e) CTL (e_regs e CTL) OR CTL_RST"
  shows "reset_device hw e \<noteq> Panic \<longleftrightarrow> (\<exists>i < 100000. hw (Suc (e_reads e) + i) CTL ctl AND CTL_RST = 0)"
proof -
  obtain c e' where p: "poll_reset 100000 hw (start_reset hw e) = (c, e')" by (rule prod.exhaust)
  have r: "e_reads (start_reset hw e) = Suc (e_reads e)" "e_regs (start_reset hw e) CTL = ctl"
    by (simp_all add: start_reset_def read_reg_def write_reg_def ctl_def CTL_def IMS_def)
  have "reset_device hw e \<noteq> Panic \<longleftrightarrow> c" unfolding reset_device_def p by (simp add: assert_run_def)
  also have "\<dots> \<longleftrightarrow> fst (poll_reset 100000 hw (start_reset hw e))" unfolding p by simp
  finally show ?thesis unfolding poll_reset_iff r .
qed

end
