(* ===== verification/Tulip.thy ===== *)
theory Tulip
  imports Dma Desc_Ring
begin

text \<open>
  The DEC 21140 (Tulip) driver, \<open>crates/embclox-tulip/src\<close>: \<open>csr.rs\<close>, \<open>desc.rs\<close>, \<open>eeprom.rs\<close> and
  \<open>device.rs\<close>.

  Register accesses go to a memory address or an I/O port; writes are logged, and what the \<open>n\<close>-th
  read of a register returns is a parameter of type \<open>csr_hw\<close>.  The two descriptor rings are lists of
  four-word descriptors.  Each packet buffer area is one byte list, as in the code, where a buffer is
  a slice at a multiple of \<open>MBUF_SIZE\<close>; an access that leaves the area is undefined behaviour in the
  code and an abort in the model.
\<close>

section \<open>Registers\<close>

definition CSR0 :: nat where "CSR0 = 0x00"
definition CSR1 :: nat where "CSR1 = 0x08"
definition CSR2 :: nat where "CSR2 = 0x10"
definition CSR3 :: nat where "CSR3 = 0x18"
definition CSR4 :: nat where "CSR4 = 0x20"
definition CSR5 :: nat where "CSR5 = 0x28"
definition CSR6 :: nat where "CSR6 = 0x30"
definition CSR7 :: nat where "CSR7 = 0x38"
definition CSR9 :: nat where "CSR9 = 0x48"

definition CSR0_SWR :: u32 where "CSR0_SWR = 1"
definition CSR6_SR :: u32 where "CSR6_SR = push_bit 1 1"
definition CSR6_ST :: u32 where "CSR6_ST = push_bit 13 1"
definition CSR7_TIE :: u32 where "CSR7_TIE = 1"
definition CSR7_RIE :: u32 where "CSR7_RIE = push_bit 6 1"
definition CSR7_NIE :: u32 where "CSR7_NIE = push_bit 16 1"
definition CSR7_AIE :: u32 where "CSR7_AIE = push_bit 15 1"
definition CSR9_SR :: u32 where "CSR9_SR = push_bit 11 1"
definition CSR9_RD :: u32 where "CSR9_RD = push_bit 14 1"
definition CSR9_DO :: u32 where "CSR9_DO = push_bit 3 1"
definition CSR9_DI :: u32 where "CSR9_DI = push_bit 2 1"
definition CSR9_SK :: u32 where "CSR9_SK = 1"

datatype csr_access = Mmio nat | Io u16

definition TULIP_TX_RING_SIZE :: nat where "TULIP_TX_RING_SIZE = 16"
definition TULIP_RX_RING_SIZE :: nat where "TULIP_RX_RING_SIZE = 16"
definition TULIP_MBUF_SIZE :: nat where "TULIP_MBUF_SIZE = 2048"
definition DESC_BUF_SIZE :: u32 where "DESC_BUF_SIZE = 2047"

record tulip_desc =
  d_status :: u32
  d_control :: u32
  d_buf1_addr :: u32
  d_buf2_addr :: u32

definition DESC_OWN :: u32 where "DESC_OWN = push_bit 31 1"
definition TDES1_FS :: u32 where "TDES1_FS = push_bit 29 1"
definition TDES1_LS :: u32 where "TDES1_LS = push_bit 30 1"
definition TDES1_TER :: u32 where "TDES1_TER = push_bit 25 1"
definition TDES1_SET :: u32 where "TDES1_SET = push_bit 27 1"
definition SETUP_FRAME_SIZE :: nat where "SETUP_FRAME_SIZE = 192"
definition RDES1_RER :: u32 where "RDES1_RER = push_bit 25 1"

definition rx_frame_length :: "u32 \<Rightarrow> nat" where
  "rx_frame_length status = unat (drop_bit 16 status AND 0x3FFF)"

record tulip =
  t_csr :: csr_access
  t_io :: "(csr_access \<times> u32) list"
  t_reads :: nat
  t_tx_ring_dma :: dma_region
  t_rx_ring_dma :: dma_region
  t_tx_bufs_dma :: dma_region
  t_rx_bufs_dma :: dma_region
  t_tx :: "tulip_desc list"
  t_rx :: "tulip_desc list"
  t_tx_mem :: bytes
  t_rx_mem :: bytes
  t_tx_next :: nat
  t_rx_next :: nat
  t_mac :: bytes

type_synonym csr_hw = "nat \<Rightarrow> csr_access \<Rightarrow> u32"

text \<open>The address of a register: the sum is checked at the width of the base.\<close>

definition csr_addr :: "csr_access \<Rightarrow> nat \<Rightarrow> csr_access run" where
  "csr_addr acc off = (case acc of
     Mmio base \<Rightarrow> if base + off < 2 ^ 64 then Ret (Mmio (base + off)) else Panic
   | Io base \<Rightarrow> if unat base + unat (of_nat off :: u16) < 2 ^ 16 then Ret (Io (base + of_nat off)) else Panic)"

definition csr_read :: "csr_hw \<Rightarrow> nat \<Rightarrow> tulip \<Rightarrow> (u32 \<times> tulip) run" where
  "csr_read hw off t = do {
     a \<leftarrow> csr_addr (t_csr t) off;
     Ret (hw (t_reads t) a, t\<lparr>t_reads := Suc (t_reads t)\<rparr>) }"

definition csr_write :: "nat \<Rightarrow> u32 \<Rightarrow> tulip \<Rightarrow> tulip run" where
  "csr_write off v t = do {
     a \<leftarrow> csr_addr (t_csr t) off;
     Ret (t\<lparr>t_io := t_io t @ [(a, v)]\<rparr>) }"

primrec csr_writes :: "(nat \<times> u32) list \<Rightarrow> tulip \<Rightarrow> tulip run" where
  "csr_writes [] t = Ret t"
| "csr_writes (w # ws) t = do { t \<leftarrow> csr_write (fst w) (snd w) t; csr_writes ws t }"

section \<open>Serial EEPROM\<close>

definition eeprom_cmd :: "u8 \<Rightarrow> u32" where
  "eeprom_cmd addr = 0x06 OR push_bit 3 (ucast addr)"

definition eeprom_cmd_bit :: "u32 \<Rightarrow> nat \<Rightarrow> (nat \<times> u32) list" where
  "eeprom_cmd_bit cmd i =
     (let b = if drop_bit i cmd AND 1 \<noteq> 0 then CSR9_DI else 0; val = CSR9_SR OR CSR9_RD OR b in
      [(CSR9, val), (CSR9, val OR CSR9_SK), (CSR9, val)])"

primrec eeprom_bits :: "csr_hw \<Rightarrow> nat \<Rightarrow> u16 \<Rightarrow> tulip \<Rightarrow> (u16 \<times> tulip) run" where
  "eeprom_bits hw 0 data t = Ret (data, t)"
| "eeprom_bits hw (Suc n) data t = do {
     t \<leftarrow> csr_writes [(CSR9, CSR9_SR OR CSR9_RD), (CSR9, CSR9_SR OR CSR9_RD OR CSR9_SK)] t;
     (val, t) \<leftarrow> csr_read hw CSR9 t;
     t \<leftarrow> csr_write CSR9 (CSR9_SR OR CSR9_RD) t;
     eeprom_bits hw n (push_bit 1 data OR (if val AND CSR9_DO \<noteq> 0 then 1 else 0)) t }"

definition eeprom_read :: "csr_hw \<Rightarrow> u8 \<Rightarrow> tulip \<Rightarrow> (u16 option \<times> tulip) run" where
  "eeprom_read hw addr t = do {
     t \<leftarrow> csr_write CSR9 CSR9_SR t;
     t \<leftarrow> csr_writes (concat (map (eeprom_cmd_bit (eeprom_cmd addr)) (rev [0..<9]))) t;
     (data, t) \<leftarrow> eeprom_bits hw 16 0 t;
     t \<leftarrow> csr_write CSR9 0 t;
     Ret (Some data, t) }"

primrec read_mac_words :: "csr_hw \<Rightarrow> nat list \<Rightarrow> bytes \<Rightarrow> tulip \<Rightarrow> (bytes option \<times> tulip) run" where
  "read_mac_words hw [] mac t = Ret (Some mac, t)"
| "read_mac_words hw (i # is) mac t = do {
     (w, t) \<leftarrow> eeprom_read hw (of_nat i) t;
     case w of
       None \<Rightarrow> Ret (None, t)
     | Some word \<Rightarrow> read_mac_words hw is (mac[i * 2 := ucast (word AND 0xFF), i * 2 + 1 := ucast (drop_bit 8 word)]) t }"

definition read_mac :: "csr_hw \<Rightarrow> tulip \<Rightarrow> (bytes option \<times> tulip) run" where
  "read_mac hw t = do {
     (m, t) \<leftarrow> read_mac_words hw [0, 1, 2] (replicate 6 0) t;
     case m of
       None \<Rightarrow> Ret (None, t)
     | Some mac \<Rightarrow> Ret (if mac = replicate 6 0 \<or> mac = replicate 6 0xFF then None else Some mac, t) }"

definition random_mac :: "u64 \<Rightarrow> bytes" where
  "random_mac seed =
     (let h = seed * 6364136223846793005 + 1442695040888963407;
          mac = take 6 (le64 h) in
      mac[0 := (mac ! 0 AND 0xFC) OR 0x02])"

section \<open>Initialisation\<close>

definition assert_addr32 :: "nat \<Rightarrow> unit run" where
  "assert_addr32 pa = assert_run (pa \<le> 0xFFFFFFFF)"

text \<open>\<open>paddr + size - 1\<close>, checked.\<close>

definition region_end :: "dma_region \<Rightarrow> nat run" where
  "region_end r = (if 0 < unat (paddr r) + dma_size r \<and> unat (paddr r) + dma_size r < 2 ^ 64
     then Ret (unat (paddr r) + dma_size r - 1) else Panic)"

definition tulip_last :: "nat \<Rightarrow> u32" where
  "tulip_last i = (if i = TULIP_TX_RING_SIZE - 1 then TDES1_TER else 0)"

definition tulip_tx_desc :: "dma_region \<Rightarrow> nat \<Rightarrow> tulip_desc" where
  "tulip_tx_desc bufs i = \<lparr>d_status = 0, d_control = tulip_last i,
     d_buf1_addr = ucast (paddr bufs + of_nat (i * TULIP_MBUF_SIZE)), d_buf2_addr = 0\<rparr>"

definition tulip_rx_control :: "nat \<Rightarrow> u32" where
  "tulip_rx_control i = (if i = TULIP_RX_RING_SIZE - 1 then DESC_BUF_SIZE OR RDES1_RER else DESC_BUF_SIZE)"

definition tulip_rx_desc :: "dma_region \<Rightarrow> nat \<Rightarrow> tulip_desc" where
  "tulip_rx_desc bufs i = \<lparr>d_status = DESC_OWN, d_control = tulip_rx_control i,
     d_buf1_addr = ucast (paddr bufs + of_nat (i * TULIP_MBUF_SIZE)), d_buf2_addr = 0\<rparr>"

definition setup_frame :: "bytes \<Rightarrow> bytes" where
  "setup_frame mac = (concat (replicate 16 (replicate 12 0xFF)))
     [0 := mac ! 0, 1 := mac ! 1, 4 := mac ! 2, 5 := mac ! 3, 8 := mac ! 4, 9 := mac ! 5]"

text \<open>The status words the driver sees while it waits for the setup frame; the first one given back.\<close>

primrec poll_setup :: "nat \<Rightarrow> (nat \<Rightarrow> u32) \<Rightarrow> u32 option" where
  "poll_setup 0 st = None"
| "poll_setup (Suc n) st = (if st 0 AND DESC_OWN = 0 then Some (st 0) else poll_setup n (\<lambda>i. st (Suc i)))"

definition send_setup_frame :: "(nat \<Rightarrow> u32) \<Rightarrow> tulip \<Rightarrow> tulip run" where
  "send_setup_frame st t = (let i = t_tx_next t in do {
     desc \<leftarrow> nth_run (t_tx t) i;
     assert_run (d_status desc AND DESC_OWN = 0);
     mem \<leftarrow> patch (i * TULIP_MBUF_SIZE) (setup_frame (t_mac t)) (t_tx_mem t);
     let ctrl = TDES1_SET OR (of_nat SETUP_FRAME_SIZE AND 0x7FF) OR tulip_last i;
         desc = desc\<lparr>d_control := ctrl, d_status := DESC_OWN\<rparr> in do {
     t \<leftarrow> csr_write CSR1 1 (t\<lparr>t_tx_mem := mem, t_tx := (t_tx t)[i := desc]\<rparr>);
     let t = (case poll_setup 100000 st of
         Some s \<Rightarrow> t\<lparr>t_tx := (t_tx t)[i := desc\<lparr>d_status := s\<rparr>]\<rparr>
       | None \<Rightarrow> t) in
     Ret (t\<lparr>t_tx_next := (i + 1) mod TULIP_TX_RING_SIZE\<rparr>) } })"

text \<open>
  \<open>new\<close>: the four regions in the order they are requested; their bytes are zero.
\<close>

definition tulip_new :: "csr_hw \<Rightarrow> (nat \<Rightarrow> u32) \<Rightarrow> (nat \<Rightarrow> dma_region) \<Rightarrow> csr_access \<Rightarrow> tulip run" where
  "tulip_new hw st dma csr = (let t = \<lparr>t_csr = csr, t_io = [], t_reads = 0,
       t_tx_ring_dma = dma 0, t_rx_ring_dma = dma 1, t_tx_bufs_dma = dma 2, t_rx_bufs_dma = dma 3,
       t_tx = map (tulip_tx_desc (dma 2)) [0..<TULIP_TX_RING_SIZE],
       t_rx = map (tulip_rx_desc (dma 3)) [0..<TULIP_RX_RING_SIZE],
       t_tx_mem = zeros (TULIP_TX_RING_SIZE * TULIP_MBUF_SIZE), t_rx_mem = zeros (TULIP_RX_RING_SIZE * TULIP_MBUF_SIZE),
       t_tx_next = 0, t_rx_next = 0, t_mac = replicate 6 0\<rparr> in do {
     t \<leftarrow> csr_writes [(CSR0, CSR0_SWR), (CSR0, push_bit 17 1 OR push_bit 8 8)] t;
     assert_addr32 (unat (paddr (dma 0)));
     assert_addr32 (unat (paddr (dma 1)));
     assert_addr32 (unat (paddr (dma 2)));
     assert_addr32 (unat (paddr (dma 3)));
     tx_end \<leftarrow> region_end (dma 2);
     assert_addr32 tx_end;
     rx_end \<leftarrow> region_end (dma 3);
     assert_addr32 rx_end;
     t \<leftarrow> csr_writes [(CSR3, ucast (paddr (dma 1))), (CSR4, ucast (paddr (dma 0)))] t;
     (m, t) \<leftarrow> read_mac hw t;
     let mac = (case m of Some mac \<Rightarrow> mac | None \<Rightarrow> random_mac 0xDEC21140) in do {
     t \<leftarrow> csr_write CSR6 (CSR6_ST OR push_bit 6 1 OR push_bit 21 1) (t\<lparr>t_mac := mac\<rparr>);
     t \<leftarrow> send_setup_frame st t;
     (csr6, t) \<leftarrow> csr_read hw CSR6 t;
     t \<leftarrow> csr_write CSR6 (csr6 OR CSR6_SR) t;
     csr_write CSR2 1 t } })"

section \<open>Operation\<close>

definition tulip_irq_mask :: u32 where
  "tulip_irq_mask = CSR7_TIE OR CSR7_RIE OR CSR7_NIE OR CSR7_AIE"

definition t_enable_interrupts :: "tulip \<Rightarrow> tulip run" where
  "t_enable_interrupts t = csr_write CSR7 tulip_irq_mask t"

definition t_handle_interrupt :: "csr_hw \<Rightarrow> tulip \<Rightarrow> (u32 \<times> tulip) run" where
  "t_handle_interrupt hw t = do {
     t \<leftarrow> csr_write CSR7 0 t;
     (status, t) \<leftarrow> csr_read hw CSR5 t;
     t \<leftarrow> csr_write CSR5 status t;
     t \<leftarrow> csr_write CSR7 tulip_irq_mask t;
     Ret (status, t) }"

definition t_has_rx_packet :: "tulip \<Rightarrow> bool run" where
  "t_has_rx_packet t = do {
     desc \<leftarrow> nth_run (t_rx t) (t_rx_next t);
     Ret (d_status desc AND DESC_OWN = 0) }"

definition t_has_tx_space :: "tulip \<Rightarrow> bool run" where
  "t_has_tx_space t = do {
     desc \<leftarrow> nth_run (t_tx t) (t_tx_next t);
     Ret (d_status desc AND DESC_OWN = 0) }"

definition t_recv_with :: "'r on_slice \<Rightarrow> tulip \<Rightarrow> ('r option \<times> tulip) run" where
  "t_recv_with f t = (let i = t_rx_next t in do {
     desc \<leftarrow> nth_run (t_rx t) i;
     if d_status desc AND DESC_OWN \<noteq> 0 then Ret (None, t)
     else let len = rx_frame_length (d_status desc); start = i * TULIP_MBUF_SIZE in do {
       buf \<leftarrow> slice start (start + len) (t_rx_mem t);
       let (buf, result) = f buf in do {
       mem \<leftarrow> patch start buf (t_rx_mem t);
       t \<leftarrow> csr_write CSR2 1 (t\<lparr>t_rx_mem := mem,
         t_rx := (t_rx t)[i := desc\<lparr>d_control := tulip_rx_control i, d_status := DESC_OWN\<rparr>],
         t_rx_next := (i + 1) mod TULIP_RX_RING_SIZE\<rparr>);
       Ret (Some result, t) } } })"

definition t_transmit_with :: "nat \<Rightarrow> 'r on_slice \<Rightarrow> tulip \<Rightarrow> ('r option \<times> tulip) run" where
  "t_transmit_with len f t = (let i = t_tx_next t in do {
     assert_run (len \<le> TULIP_MBUF_SIZE);
     desc \<leftarrow> nth_run (t_tx t) i;
     if d_status desc AND DESC_OWN \<noteq> 0 then Ret (None, t)
     else let start = i * TULIP_MBUF_SIZE in do {
       buf \<leftarrow> slice start (start + len) (t_tx_mem t);
       let (buf, result) = f buf in do {
       mem \<leftarrow> patch start buf (t_tx_mem t);
       let ctrl = (of_nat len AND 0x7FF) OR TDES1_FS OR TDES1_LS OR tulip_last i in do {
       t \<leftarrow> csr_write CSR1 1 (t\<lparr>t_tx_mem := mem,
         t_tx := (t_tx t)[i := desc\<lparr>d_control := ctrl, d_status := DESC_OWN\<rparr>],
         t_tx_next := (i + 1) mod TULIP_TX_RING_SIZE\<rparr>);
       Ret (Some result, t) } } } })"

definition t_drop :: "tulip \<Rightarrow> (dma_region list \<times> tulip) run" where
  "t_drop t = do {
     t \<leftarrow> csr_writes [(CSR7, 0), (CSR6, 0), (CSR0, CSR0_SWR)] t;
     Ret ([t_tx_ring_dma t, t_rx_ring_dma t, t_tx_bufs_dma t, t_rx_bufs_dma t], t) }"

section \<open>Lemmas: registers and EEPROM\<close>

text \<open>A base address that leaves room for the registers, the last of which is at 0x48.\<close>

definition csr_ok :: "csr_access \<Rightarrow> bool" where
  "csr_ok acc \<longleftrightarrow> (case acc of Mmio base \<Rightarrow> base + 0x48 < 2 ^ 64 | Io base \<Rightarrow> unat base + 0x48 < 2 ^ 16)"

definition same_rings :: "tulip \<Rightarrow> tulip \<Rightarrow> bool" where
  "same_rings t t' \<longleftrightarrow> t_csr t' = t_csr t \<and> t_tx t' = t_tx t \<and> t_rx t' = t_rx t \<and> t_tx_mem t' = t_tx_mem t \<and>
     t_rx_mem t' = t_rx_mem t \<and> t_tx_next t' = t_tx_next t \<and> t_rx_next t' = t_rx_next t"

lemma tulip_sizes: "TULIP_TX_RING_SIZE = 16" "TULIP_RX_RING_SIZE = 16" "TULIP_MBUF_SIZE = 2048"
  by (simp_all add: TULIP_TX_RING_SIZE_def TULIP_RX_RING_SIZE_def TULIP_MBUF_SIZE_def)

lemmas csr_numbers = CSR0_def CSR1_def CSR2_def CSR3_def CSR4_def CSR5_def CSR6_def CSR7_def CSR9_def

lemma csr_addr_ok:
  assumes "csr_ok acc" "off \<le> 0x48"
  shows "\<exists>a. csr_addr acc off = Ret a"
  using assms by (cases acc) (auto simp: csr_addr_def csr_ok_def unat_of_nat)

lemma csr_write_same:
  assumes "csr_ok (t_csr t)" "off \<le> 0x48"
  shows "\<exists>t'. csr_write off v t = Ret t' \<and> same_rings t t' \<and> t_mac t' = t_mac t"
  using csr_addr_ok [OF assms] by (auto simp: csr_write_def same_rings_def)

lemma csr_read_same:
  assumes "csr_ok (t_csr t)" "off \<le> 0x48"
  shows "\<exists>v t'. csr_read hw off t = Ret (v, t') \<and> same_rings t t' \<and> t_mac t' = t_mac t"
  using csr_addr_ok [OF assms] by (auto simp: csr_read_def same_rings_def)

lemma same_rings_trans: "same_rings t t' \<Longrightarrow> same_rings t' t'' \<Longrightarrow> same_rings t t''"
  by (simp add: same_rings_def)

lemma same_rings_csr: "same_rings t t' \<Longrightarrow> t_csr t' = t_csr t"
  by (simp add: same_rings_def)

lemma csr_writes_same:
  assumes "csr_ok (t_csr t)" "\<forall>w \<in> set ws. fst w \<le> 0x48"
  shows "\<exists>t'. csr_writes ws t = Ret t' \<and> same_rings t t' \<and> t_mac t' = t_mac t"
  using assms
proof (induction ws arbitrary: t)
  case Nil
  then show ?case by (simp add: same_rings_def)
next
  case (Cons w ws)
  then obtain t1 where t1: "csr_write (fst w) (snd w) t = Ret t1" "same_rings t t1" "t_mac t1 = t_mac t"
    using csr_write_same [of t "fst w" "snd w"] by auto
  with Cons obtain t2 where "csr_writes ws t1 = Ret t2" "same_rings t1 t2" "t_mac t2 = t_mac t1"
    using Cons.IH [of t1] same_rings_csr [OF t1(2)] by auto
  then show ?case using t1 same_rings_trans by auto
qed

text \<open>The bits the EEPROM shifts out, most significant first, make up the word.\<close>

definition shift_in :: "bool list \<Rightarrow> u16 \<Rightarrow> u16" where
  "shift_in bs data = fold (\<lambda>b d. push_bit 1 d OR (if b then 1 else 0)) bs data"

lemma eeprom_bits_ok:
  assumes "csr_ok (t_csr t)"
  shows "\<exists>bs t'. length bs = n \<and> eeprom_bits hw n data t = Ret (shift_in bs data, t') \<and> same_rings t t' \<and> t_mac t' = t_mac t"
  using assms
proof (induction n arbitrary: t data)
  case 0
  then show ?case by (simp add: shift_in_def same_rings_def)
next
  case (Suc n)
  have le: "CSR9 \<le> 0x48" by (simp add: CSR9_def)
  let ?ws = "[(CSR9, CSR9_SR OR CSR9_RD), (CSR9, CSR9_SR OR CSR9_RD OR CSR9_SK)]"
  have "\<forall>w \<in> set ?ws. fst w \<le> 0x48" using le by simp
  from csr_writes_same [OF Suc.prems this] obtain t1 where t1: "csr_writes ?ws t = Ret t1"
    "same_rings t t1" "t_mac t1 = t_mac t" by blast
  have c1: "csr_ok (t_csr t1)" using Suc.prems same_rings_csr [OF t1(2)] by simp
  obtain v t2 where t2: "csr_read hw CSR9 t1 = Ret (v, t2)" "same_rings t1 t2" "t_mac t2 = t_mac t1"
    using csr_read_same [OF c1 le] by blast
  have c2: "csr_ok (t_csr t2)" using c1 same_rings_csr [OF t2(2)] by simp
  obtain t3 where t3: "csr_write CSR9 (CSR9_SR OR CSR9_RD) t2 = Ret t3" "same_rings t2 t3" "t_mac t3 = t_mac t2"
    using csr_write_same [OF c2 le] by blast
  have c3: "csr_ok (t_csr t3)" using c2 same_rings_csr [OF t3(2)] by simp
  define b where "b = (v AND CSR9_DO \<noteq> 0)"
  from Suc.IH [OF c3] obtain bs t' where t':
    "length bs = n" "eeprom_bits hw n (push_bit 1 data OR (if b then 1 else 0)) t3 =
       Ret (shift_in bs (push_bit 1 data OR (if b then 1 else 0)), t')" "same_rings t3 t'" "t_mac t' = t_mac t3" by blast
  have e: "eeprom_bits hw (Suc n) data t = Ret (shift_in (b # bs) data, t')"
    unfolding eeprom_bits.simps t1(1) using t2(1) t3(1) t'(2) by (simp add: shift_in_def b_def)
  have "same_rings t t'" using t1(2) t2(2) t3(2) t'(3) same_rings_trans by blast
  then show ?case using e t'(1,4) t1(3) t2(3) t3(3) by (intro exI [of _ "b # bs"] exI [of _ t']) simp
qed

lemma eeprom_read_ok:
  assumes "csr_ok (t_csr t)"
  shows "\<exists>bs t'. length bs = 16 \<and> eeprom_read hw addr t = Ret (Some (shift_in bs 0), t') \<and> same_rings t t' \<and> t_mac t' = t_mac t"
proof -
  let ?ws = "concat (map (eeprom_cmd_bit (eeprom_cmd addr)) (rev [0..<9]))"
  have le: "CSR9 \<le> 0x48" by (simp add: CSR9_def)
  obtain t1 where t1: "csr_write CSR9 CSR9_SR t = Ret t1" "same_rings t t1" "t_mac t1 = t_mac t"
    using csr_write_same [OF assms le] by blast
  have ws: "\<forall>w \<in> set ?ws. fst w \<le> 0x48" by (auto simp: eeprom_cmd_bit_def Let_def csr_numbers)
  obtain t2 where t2: "csr_writes ?ws t1 = Ret t2" "same_rings t1 t2" "t_mac t2 = t_mac t1"
    using csr_writes_same [OF _ ws, of t1] assms same_rings_csr [OF t1(2)] by auto
  have c2: "csr_ok (t_csr t2)" using assms t1(2) t2(2) by (simp add: same_rings_csr)
  obtain bs t3 where t3: "length bs = 16" "eeprom_bits hw 16 0 t2 = Ret (shift_in bs 0, t3)" "same_rings t2 t3" "t_mac t3 = t_mac t2"
    using eeprom_bits_ok [OF c2, of 16 hw 0] by blast
  have c3: "csr_ok (t_csr t3)" using c2 t3(3) by (simp add: same_rings_csr)
  obtain t4 where t4: "csr_write CSR9 0 t3 = Ret t4" "same_rings t3 t4" "t_mac t4 = t_mac t3"
    using csr_write_same [OF c3 le] by blast
  have "eeprom_read hw addr t = Ret (Some (shift_in bs 0), t4)"
    unfolding eeprom_read_def t1(1) by (simp del: csr_writes.simps upt_rec_numeral add: t2(1) t3(2) t4(1))
  moreover have "same_rings t t4" using t1(2) t2(2) t3(3) t4(2) same_rings_trans by blast
  ultimately show ?thesis using t1(3) t2(3) t3(1,4) t4(3) by (intro exI [of _ bs] exI [of _ t4]) simp
qed

lemma read_mac_ok:
  assumes "csr_ok (t_csr t)"
  shows "\<exists>m t'. read_mac hw t = Ret (m, t') \<and> same_rings t t' \<and>
    (\<forall>mac. m = Some mac \<longrightarrow> length mac = 6 \<and> mac \<noteq> replicate 6 0 \<and> mac \<noteq> replicate 6 0xFF)"
proof -
  obtain b1 t1 where t1: "eeprom_read hw 0 t = Ret (Some b1, t1)" "same_rings t t1"
    using eeprom_read_ok [OF assms, of hw 0] by blast
  obtain b2 t2 where t2: "eeprom_read hw 1 t1 = Ret (Some b2, t2)" "same_rings t1 t2"
    using eeprom_read_ok [of t1 hw 1] assms same_rings_csr [OF t1(2)] by auto
  obtain b3 t3 where t3: "eeprom_read hw 2 t2 = Ret (Some b3, t3)" "same_rings t2 t3"
    using eeprom_read_ok [of t2 hw 2] assms same_rings_csr [OF t1(2)] same_rings_csr [OF t2(2)] by auto
  have "same_rings t t3" using t1(2) t2(2) t3(2) same_rings_trans by blast
  then show ?thesis using t1(1) t2(1) t3(1) by (auto simp: read_mac_def)
qed

text \<open>The fallback address is a locally administered unicast address.\<close>

lemma random_mac_local: "length (random_mac seed) = 6" "random_mac seed ! 0 AND 3 = 2"
proof -
  have l: "length (take 6 (le64 x)) = 6" for x by (simp add: le64_def)
  have "((b AND 0xFC) OR 0x02) AND 3 = 2" for b :: u8
    by (simp add: bit.conj_disj_distrib2 and.assoc)
  then show "length (random_mac seed) = 6" "random_mac seed ! 0 AND 3 = 2"
    using l by (simp_all add: random_mac_def Let_def del: length_take)
qed

section \<open>The transmit ring\<close>

type_synonym tulip_request = "nat \<times> unit on_slice"

definition tulip_ok :: "tulip \<Rightarrow> bool" where
  "tulip_ok t \<longleftrightarrow> csr_ok (t_csr t) \<and> length (t_tx t) = 16 \<and> length (t_rx t) = 16 \<and>
     length (t_tx_mem t) = 32768 \<and> length (t_rx_mem t) = 32768 \<and> t_tx_next t < 16 \<and> t_rx_next t < 16"

definition tulip_owned :: "tulip_desc \<Rightarrow> bool" where
  "tulip_owned d \<longleftrightarrow> d_status d AND DESC_OWN \<noteq> 0"

text \<open>The size of buffer 1 in a control word, as the device reads it.\<close>

definition buf1_size :: "u32 \<Rightarrow> nat" where
  "buf1_size control = unat (control AND 0x7FF)"

definition tulip_request_ok :: "tulip_request \<Rightarrow> bool" where
  "tulip_request_ok m \<longleftrightarrow> fst m < 2048 \<and> keeps_length (snd m)"

definition t_busy :: "tulip \<Rightarrow> nat \<Rightarrow> bool" where
  "t_busy t i \<longleftrightarrow> tulip_owned (t_tx t ! i)"

definition t_frame :: "tulip \<Rightarrow> nat \<Rightarrow> bytes" where
  "t_frame t i = take (buf1_size (d_control (t_tx t ! i))) (drop (i * 2048) (t_tx_mem t))"

definition t_slot :: "tulip \<Rightarrow> nat \<Rightarrow> bytes" where
  "t_slot t len = take len (drop (t_tx_next t * 2048) (t_tx_mem t))"

definition t_submit :: "tulip \<Rightarrow> tulip_request \<Rightarrow> (bool \<times> tulip) run" where
  "t_submit t m = do { (r, t) \<leftarrow> t_transmit_with (fst m) (snd m) t; Ret (r \<noteq> None, t) }"

definition t_payload :: "tulip \<Rightarrow> tulip_request \<Rightarrow> bytes" where
  "t_payload t m = fst (snd m (t_slot t (fst m)))"

text \<open>The device sends descriptors it owns and hands them back with a status of its own.\<close>

definition t_tx_part :: "tulip \<Rightarrow> csr_access \<times> tulip_desc list \<times> bytes \<times> nat \<times> nat \<times> nat \<times> nat" where
  "t_tx_part t = (t_csr t, t_tx t, t_tx_mem t, t_tx_next t, t_rx_next t, length (t_rx t), length (t_rx_mem t))"

definition t_finish :: "tulip \<Rightarrow> nat \<Rightarrow> tulip \<Rightarrow> bool" where
  "t_finish t i t' \<longleftrightarrow> (\<exists>st. st AND DESC_OWN = 0 \<and>
     t_tx_part t' = t_tx_part (t\<lparr>t_tx := (t_tx t)[i := (t_tx t ! i)\<lparr>d_status := st\<rparr>]\<rparr>))"

definition t_tx_other :: "tulip \<Rightarrow> tulip \<Rightarrow> bool" where
  "t_tx_other t t' \<longleftrightarrow> tulip_ok t' \<and> t_tx t' = t_tx t \<and> t_tx_mem t' = t_tx_mem t \<and> t_tx_next t' = t_tx_next t"

lemma own_bit [simp]: "DESC_OWN \<noteq> 0"
  by (simp add: DESC_OWN_def)

lemma tx_control_size: "buf1_size ((of_nat len AND 0x7FF) OR TDES1_FS OR TDES1_LS OR tulip_last i) = len mod 2048"
proof -
  have m: "(0x7FF :: u32) = mask 11" by (simp add: mask_eq_exp_minus_1)
  have "((of_nat len AND 0x7FF) OR TDES1_FS OR TDES1_LS OR tulip_last i) AND 0x7FF = (of_nat len AND 0x7FF :: u32)"
    by (simp add: bit.conj_disj_distrib2 and.assoc TDES1_FS_def TDES1_LS_def tulip_last_def TDES1_TER_def)
  also have "\<dots> = take_bit 11 (of_nat len)" unfolding m by (simp add: take_bit_eq_mask)
  also have "\<dots> = of_nat (take_bit 11 len)" by (simp add: take_bit_of_nat)
  finally show ?thesis by (simp add: buf1_size_def unat_of_nat take_bit_eq_mod)
qed

lemma patch_at_ok:
  "a + length b \<le> length xs \<Longrightarrow> patch a b xs = Ret (take a xs @ b @ drop (a + length b) xs)"
  by (simp add: patch_def write_at_def)

lemma t_transmit_refused:
  assumes "tulip_ok t" "t_busy t (t_tx_next t)" "len \<le> 2048"
  shows "t_transmit_with len f t = Ret (None, t)"
  using assms by (simp add: t_transmit_with_def tulip_ok_def nth_run_def t_busy_def tulip_owned_def tulip_sizes
      assert_run_def Let_def)

lemma t_transmit_accepted:
  fixes t :: tulip and f :: "'r on_slice" and len :: nat
  assumes "tulip_ok t" "\<not> t_busy t (t_tx_next t)" "len \<le> 2048" "keeps_length f"
  defines "i \<equiv> t_tx_next t"
  obtains t' where "t_transmit_with len f t = Ret (Some (snd (f (t_slot t len))), t')"
    "t_csr t' = t_csr t" "t_rx t' = t_rx t" "t_rx_mem t' = t_rx_mem t" "t_rx_next t' = t_rx_next t"
    "t_tx_next t' = (i + 1) mod 16"
    "t_tx t' = (t_tx t)[i := (t_tx t ! i)\<lparr>d_control := (of_nat len AND 0x7FF) OR TDES1_FS OR TDES1_LS OR tulip_last i,
       d_status := DESC_OWN\<rparr>]"
    "t_tx_mem t' = take (i * 2048) (t_tx_mem t) @ fst (f (t_slot t len)) @ drop (i * 2048 + len) (t_tx_mem t)"
proof -
  have i: "i < 16" and l: "length (t_tx t) = 16" "length (t_tx_mem t) = 32768"
    using assms(1) by (simp_all add: tulip_ok_def i_def)
  have b: "i * 2048 + len \<le> 32768" using i assms(3) by simp
  have sl: "length (t_slot t len) = len" using b l by (simp add: t_slot_def i_def)
  then have fl: "length (fst (f (t_slot t len))) = len" using assms(4) by (simp add: keeps_length_def)
  have s: "slice (i * 2048) (i * 2048 + len) (t_tx_mem t) = Ret (t_slot t len)"
    using b l by (simp add: slice_def t_slot_def i_def)
  let ?mem = "take (i * 2048) (t_tx_mem t) @ fst (f (t_slot t len)) @ drop (i * 2048 + len) (t_tx_mem t)"
  have p: "patch (i * 2048) (fst (f (t_slot t len))) (t_tx_mem t) = Ret ?mem"
    using b l fl by (simp add: patch_at_ok)
  define t1 where "t1 = t\<lparr>t_tx_mem := ?mem, t_tx := (t_tx t)[i := (t_tx t ! i)\<lparr>d_control :=
    (of_nat len AND 0x7FF) OR TDES1_FS OR TDES1_LS OR tulip_last i, d_status := DESC_OWN\<rparr>],
    t_tx_next := (i + 1) mod 16\<rparr>"
  have "csr_ok (t_csr t1)" using assms(1) by (simp add: t1_def tulip_ok_def)
  then obtain t' where t': "csr_write CSR1 1 t1 = Ret t'" "same_rings t1 t'"
    using csr_write_same [of t1 CSR1 1] by (auto simp: CSR1_def)
  have "d_status (t_tx t ! i) AND DESC_OWN = 0" using assms(2) by (simp add: t_busy_def tulip_owned_def i_def)
  then have "t_transmit_with len f t = Ret (Some (snd (f (t_slot t len))), t')"
    using i l s p t'(1) assms(3)
    by (simp add: t_transmit_with_def i_def [symmetric] nth_run_def tulip_sizes assert_run_def Let_def case_prod_beta t1_def)
  then show ?thesis
    by (rule that) (use t'(2) in \<open>simp_all add: same_rings_def t1_def i_def\<close>)
qed

text \<open>A slot of a flat buffer area.\<close>

lemma slot_write:
  fixes i j :: nat
  assumes "length xs = 32768" "i < 16" "length b \<le> 2048" "k \<le> 2048" "j \<noteq> i"
  shows "take k (drop (j * 2048) (take (i * 2048) xs @ b @ drop (i * 2048 + length b) xs)) = take k (drop (j * 2048) xs)"
proof (cases "j < i")
  case True
  then have "j * 2048 + 2048 \<le> i * 2048" by linarith
  then show ?thesis using assms by (simp add: take_drop min_def)
next
  case False
  then have "i * 2048 + 2048 \<le> j * 2048" using assms(5) by linarith
  then show ?thesis using assms by simp
qed

lemma buf1_size_le: "buf1_size c \<le> 2048"
proof -
  have "c AND 0x7FF \<le> 0x7FF" by (rule word_and_le1)
  then have "unat (c AND 0x7FF) \<le> unat (0x7FF :: u32)" by (simp only: word_le_nat_alt)
  then show ?thesis by (simp add: buf1_size_def)
qed

lemma t_submit_ok:
  assumes "tulip_ok t" "\<not> t_busy t (t_tx_next t)" "tulip_request_ok m"
  shows "\<exists>t'. t_submit t m = Ret (True, t') \<and> tulip_ok t' \<and> t_tx_next t' = (t_tx_next t + 1) mod 16 \<and>
    t_busy t' = (t_busy t)(t_tx_next t := True) \<and> t_frame t' = (t_frame t)(t_tx_next t := t_payload t m)"
proof -
  let ?i = "t_tx_next t" and ?len = "fst m" and ?f = "snd m"
  have len: "?len < 2048" and k: "keeps_length ?f" using assms(3) by (simp_all add: tulip_request_ok_def)
  have l: "length (t_tx t) = 16" "length (t_tx_mem t) = 32768" "?i < 16" using assms(1) by (simp_all add: tulip_ok_def)
  have fl: "length (fst (?f (t_slot t ?len))) = ?len" using k l len by (simp add: keeps_length_def t_slot_def)
  from len have "?len \<le> 2048" by simp
  from t_transmit_accepted [OF assms(1,2) this k] obtain t' where t':
    "t_transmit_with ?len ?f t = Ret (Some (snd (?f (t_slot t ?len))), t')"
    "t_csr t' = t_csr t" "t_rx t' = t_rx t" "t_rx_mem t' = t_rx_mem t" "t_rx_next t' = t_rx_next t"
    "t_tx_next t' = (?i + 1) mod 16"
    "t_tx t' = (t_tx t)[?i := (t_tx t ! ?i)\<lparr>d_control := (of_nat ?len AND 0x7FF) OR TDES1_FS OR TDES1_LS OR tulip_last ?i,
       d_status := DESC_OWN\<rparr>]"
    "t_tx_mem t' = take (?i * 2048) (t_tx_mem t) @ fst (?f (t_slot t ?len)) @ drop (?i * 2048 + ?len) (t_tx_mem t)"
    by blast
  have "t_frame t' ?i = t_payload t m"
    using t'(7,8) l len fl by (simp add: t_frame_def t_payload_def tx_control_size)
  moreover have "t_frame t' j = t_frame t j" if "j \<noteq> ?i" for j
    using t'(7,8) that slot_write [OF l(2,3) _ buf1_size_le that, of "fst (?f (t_slot t ?len))"] len fl
    by (simp add: t_frame_def)
  ultimately have "t_frame t' = (t_frame t)(?i := t_payload t m)" by (simp add: fun_eq_iff)
  moreover have "t_busy t' = (t_busy t)(?i := True)"
    using t'(7) l by (auto simp: t_busy_def tulip_owned_def fun_eq_iff nth_list_update)
  moreover have "tulip_ok t'" using assms(1) t' fl l len by (simp add: tulip_ok_def)
  ultimately show ?thesis using t'(1,6) by (simp add: t_submit_def)
qed

lemma t_finish_facts:
  assumes "tulip_ok t" "i < 16" "t_finish t i t'"
  shows "tulip_ok t'" "t_tx_next t' = t_tx_next t" "t_busy t' = (t_busy t)(i := False)" "t_frame t' = t_frame t"
  using assms
  by (auto simp: t_finish_def t_tx_part_def tulip_ok_def t_busy_def tulip_owned_def t_frame_def fun_eq_iff nth_list_update)

interpretation tulip_tx: tx_ring 16 tulip_ok t_tx_next t_busy t_frame tulip_request_ok
  t_submit t_payload t_busy t_finish t_tx_other
proof (unfold_locales, goal_cases)
  case (2 s)
  then show ?case by (simp add: tulip_ok_def)
next
  case (3 s m)
  then show ?case using t_transmit_refused [of s "fst m" "snd m"]
    by (auto simp: t_submit_def tulip_request_ok_def)
next
  case (4 s m)
  then show ?case by (rule t_submit_ok)
next
  case (6 s i s')
  then show ?case using t_finish_facts [of s i s'] by simp
next
  case (7 s s')
  then show ?case by (auto simp: t_tx_other_def t_busy_def t_frame_def fun_eq_iff)
qed simp_all

section \<open>The receive ring\<close>

definition t_filled :: "tulip \<Rightarrow> nat \<Rightarrow> bool" where
  "t_filled t i \<longleftrightarrow> \<not> tulip_owned (t_rx t ! i)"

definition t_content :: "tulip \<Rightarrow> nat \<Rightarrow> bytes \<times> bool" where
  "t_content t i = (take (min (rx_frame_length (d_status (t_rx t ! i))) 2048) (drop (i * 2048) (t_rx_mem t)), True)"

text \<open>Frames in the ring fit their buffers.\<close>

definition tulip_rx_ok :: "tulip \<Rightarrow> bool" where
  "tulip_rx_ok t \<longleftrightarrow> tulip_ok t \<and> (\<forall>d \<in> set (t_rx t). tulip_owned d \<or> rx_frame_length (d_status d) \<le> 2048)"

definition t_recv :: "tulip \<Rightarrow> (bytes option \<times> tulip) run" where
  "t_recv t = t_recv_with (\<lambda>frame. (frame, frame)) t"

text \<open>The device writes a frame into the buffer of a descriptor it owns, within the size it was told.\<close>

definition t_deliver :: "tulip \<Rightarrow> nat \<Rightarrow> bytes \<times> bool \<Rightarrow> tulip \<Rightarrow> bool" where
  "t_deliver t i x t' \<longleftrightarrow> tulip_ok t' \<and> tulip_owned (t_rx t ! i) \<and> snd x \<and> length (fst x) \<le> 2047 \<and> t_rx_next t' = t_rx_next t \<and>
     (\<exists>st. st AND DESC_OWN = 0 \<and> rx_frame_length st = length (fst x) \<and>
        t_rx t' = (t_rx t)[i := (t_rx t ! i)\<lparr>d_status := st\<rparr>]) \<and>
     t_rx_mem t' = take (i * 2048) (t_rx_mem t) @ fst x @ drop (i * 2048 + length (fst x)) (t_rx_mem t)"

definition t_rx_other :: "tulip \<Rightarrow> tulip \<Rightarrow> bool" where
  "t_rx_other t t' \<longleftrightarrow> tulip_ok t' \<and> t_rx t' = t_rx t \<and> t_rx_mem t' = t_rx_mem t \<and> t_rx_next t' = t_rx_next t"

lemma write_back: "take a xs @ take k (drop a xs) @ drop (a + k) xs = xs"
proof -
  have "drop (a + k) xs = drop k (drop a xs)" by (simp add: add.commute)
  then show ?thesis by (simp only: append_take_drop_id)
qed

lemma t_recv_empty:
  assumes "tulip_ok t" "\<not> t_filled t (t_rx_next t)"
  shows "t_recv_with f t = Ret (None, t)"
  using assms by (simp add: t_recv_with_def tulip_ok_def nth_run_def t_filled_def tulip_owned_def Let_def)

text \<open>A receive on a descriptor the device has handed back, whatever length it holds.\<close>

lemma t_recv_frame:
  fixes t :: tulip and f :: "'r on_slice"
  assumes "tulip_ok t" "t_filled t (t_rx_next t)" "keeps_length f"
  defines "i \<equiv> t_rx_next t"
  defines "len \<equiv> rx_frame_length (d_status (t_rx t ! i))"
  defines "buf \<equiv> take len (drop (i * 2048) (t_rx_mem t))"
  assumes "i * 2048 + len \<le> 32768"
  obtains t' where "t_recv_with f t = Ret (Some (snd (f buf)), t')"
    "t_csr t' = t_csr t" "t_tx t' = t_tx t" "t_tx_mem t' = t_tx_mem t" "t_tx_next t' = t_tx_next t"
    "t_rx_next t' = (i + 1) mod 16"
    "t_rx t' = (t_rx t)[i := (t_rx t ! i)\<lparr>d_control := tulip_rx_control i, d_status := DESC_OWN\<rparr>]"
    "t_rx_mem t' = take (i * 2048) (t_rx_mem t) @ fst (f buf) @ drop (i * 2048 + len) (t_rx_mem t)"
proof -
  have i: "i < 16" and l: "length (t_rx t) = 16" "length (t_rx_mem t) = 32768"
    using assms(1) by (simp_all add: tulip_ok_def i_def)
  have bl: "length buf = len" using assms(7) l by (simp add: buf_def)
  then have fl: "length (fst (f buf)) = len" using assms(3) by (simp add: keeps_length_def)
  have s: "slice (i * 2048) (i * 2048 + len) (t_rx_mem t) = Ret buf"
    using assms(7) l by (simp add: slice_def buf_def)
  let ?mem = "take (i * 2048) (t_rx_mem t) @ fst (f buf) @ drop (i * 2048 + len) (t_rx_mem t)"
  have p: "patch (i * 2048) (fst (f buf)) (t_rx_mem t) = Ret ?mem"
    using assms(7) l fl by (simp add: patch_at_ok)
  define t1 where "t1 = t\<lparr>t_rx_mem := ?mem, t_rx := (t_rx t)[i := (t_rx t ! i)\<lparr>d_control := tulip_rx_control i,
    d_status := DESC_OWN\<rparr>], t_rx_next := (i + 1) mod 16\<rparr>"
  have "csr_ok (t_csr t1)" using assms(1) by (simp add: t1_def tulip_ok_def)
  then obtain t' where t': "csr_write CSR2 1 t1 = Ret t'" "same_rings t1 t'"
    using csr_write_same [of t1 CSR2 1] by (auto simp: CSR2_def)
  have "d_status (t_rx t ! i) AND DESC_OWN = 0" using assms(2) by (simp add: t_filled_def tulip_owned_def i_def)
  then have "t_recv_with f t = Ret (Some (snd (f buf)), t')"
    using i l s p t'(1)
    by (simp add: t_recv_with_def i_def [symmetric] len_def [symmetric] nth_run_def tulip_sizes Let_def case_prod_beta t1_def)
  then show ?thesis
    by (rule that) (use t'(2) in \<open>simp_all add: same_rings_def t1_def\<close>)
qed

lemma t_recv_filled:
  assumes "tulip_rx_ok t" "t_filled t (t_rx_next t)"
  shows "\<exists>t'. t_recv t = Ret (Some (fst (t_content t (t_rx_next t))), t') \<and> tulip_rx_ok t' \<and>
    t_rx_next t' = (t_rx_next t + 1) mod 16 \<and> t_filled t' = (t_filled t)(t_rx_next t := False) \<and>
    (\<forall>j. j \<noteq> t_rx_next t \<longrightarrow> t_content t' j = t_content t j)"
proof -
  let ?i = "t_rx_next t" let ?len = "rx_frame_length (d_status (t_rx t ! ?i))"
  let ?buf = "take ?len (drop (?i * 2048) (t_rx_mem t))"
  have ok: "tulip_ok t" and l: "length (t_rx t) = 16" "length (t_rx_mem t) = 32768" "?i < 16"
    using assms(1) by (simp_all add: tulip_rx_ok_def tulip_ok_def)
  have len: "?len \<le> 2048" using assms l by (auto simp: tulip_rx_ok_def t_filled_def)
  have k: "keeps_length (\<lambda>frame::bytes. (frame, frame))" by (simp add: keeps_length_def)
  have "?i * 2048 + ?len \<le> 32768" using l(3) len by linarith
  from t_recv_frame [OF ok assms(2) k this] obtain t' where t':
    "t_recv_with (\<lambda>frame. (frame, frame)) t = Ret (Some (snd (?buf, ?buf)), t')"
    "t_csr t' = t_csr t" "t_tx t' = t_tx t" "t_tx_mem t' = t_tx_mem t" "t_tx_next t' = t_tx_next t"
    "t_rx_next t' = (?i + 1) mod 16"
    "t_rx t' = (t_rx t)[?i := (t_rx t ! ?i)\<lparr>d_control := tulip_rx_control ?i, d_status := DESC_OWN\<rparr>]"
    "t_rx_mem t' = take (?i * 2048) (t_rx_mem t) @ fst (?buf, ?buf) @ drop (?i * 2048 + ?len) (t_rx_mem t)"
    by blast
  have bl: "length ?buf = ?len" using len l by simp
  have mem: "t_rx_mem t' = t_rx_mem t" unfolding t'(8) fst_conv by (rule write_back)
  have "tulip_ok t'" using ok t'(2-7) mem by (simp add: tulip_ok_def)
  then have "tulip_rx_ok t'" using assms(1) t'(7)
    by (auto simp: tulip_rx_ok_def tulip_owned_def dest!: set_update_subset_insert [THEN subsetD])
  moreover have "t_filled t' = (t_filled t)(?i := False)"
    using t'(7) l by (auto simp: t_filled_def tulip_owned_def fun_eq_iff nth_list_update)
  moreover have "t_content t' j = t_content t j" if "j \<noteq> ?i" for j
    using t'(7) mem that by (simp add: t_content_def)
  moreover have "t_recv t = Ret (Some (fst (t_content t ?i)), t')"
    using t'(1) len by (simp add: t_recv_def t_content_def min_absorb1)
  ultimately show ?thesis using t'(6) by blast
qed

lemma t_deliver_facts:
  assumes "tulip_rx_ok t" "i < 16" "t_deliver t i x t'"
  shows "\<not> t_filled t i" "tulip_rx_ok t'" "t_rx_next t' = t_rx_next t" "t_filled t' = (t_filled t)(i := True)"
    "t_content t' i = x" "\<And>j. j \<noteq> i \<Longrightarrow> t_content t' j = t_content t j"
proof -
  from assms(3) obtain st where st: "tulip_ok t'" "tulip_owned (t_rx t ! i)" "snd x" "length (fst x) \<le> 2047"
    "t_rx_next t' = t_rx_next t" "st AND DESC_OWN = 0" "rx_frame_length st = length (fst x)"
    "t_rx t' = (t_rx t)[i := (t_rx t ! i)\<lparr>d_status := st\<rparr>]"
    "t_rx_mem t' = take (i * 2048) (t_rx_mem t) @ fst x @ drop (i * 2048 + length (fst x)) (t_rx_mem t)"
    unfolding t_deliver_def by blast
  have l: "length (t_rx t) = 16" "length (t_rx_mem t) = 32768" using assms(1) by (simp_all add: tulip_rx_ok_def tulip_ok_def)
  show "\<not> t_filled t i" using st(2) by (simp add: t_filled_def)
  show "tulip_rx_ok t'" using assms(1) st(1,4,7,8)
    by (auto simp: tulip_rx_ok_def dest!: set_update_subset_insert [THEN subsetD])
  show "t_rx_next t' = t_rx_next t" by (rule st(5))
  show "t_filled t' = (t_filled t)(i := True)"
    using st(6,8) l assms(2) by (auto simp: t_filled_def tulip_owned_def fun_eq_iff nth_list_update)
  show "t_content t' i = x"
    using st(3,4,7,8,9) l assms(2) by (simp add: t_content_def prod_eq_iff min_absorb1)
  show "t_content t' j = t_content t j" if "j \<noteq> i" for j
    using st(4,8,9) that slot_write [OF l(2) assms(2) _ _ that, of "fst x"] by (simp add: t_content_def)
qed

interpretation tulip_rx: rx_ring 16 tulip_rx_ok t_rx_next t_filled t_content t_recv t_deliver t_rx_other
proof (unfold_locales, goal_cases)
  case (2 s)
  then show ?case by (simp add: t_recv_def t_recv_empty tulip_rx_ok_def)
next
  case (3 s)
  then show ?case using t_recv_filled [of s] by (auto simp: t_content_def)
next
  case (4 s i x s')
  then show ?case using t_deliver_facts [of s i x s'] by blast
next
  case (5 s s')
  then show ?case by (auto simp: t_rx_other_def tulip_rx_ok_def t_filled_def t_content_def fun_eq_iff)
qed simp

section \<open>Initial state\<close>

definition tulip_dma_ok :: "(nat \<Rightarrow> dma_region) \<Rightarrow> bool" where
  "tulip_dma_ok dma \<longleftrightarrow> unat (paddr (dma 0)) < 2 ^ 32 \<and> unat (paddr (dma 1)) < 2 ^ 32 \<and>
     0 < dma_size (dma 2) \<and> unat (paddr (dma 2)) + dma_size (dma 2) \<le> 2 ^ 32 \<and>
     0 < dma_size (dma 3) \<and> unat (paddr (dma 3)) + dma_size (dma 3) \<le> 2 ^ 32"

definition same_rx :: "tulip \<Rightarrow> tulip \<Rightarrow> bool" where
  "same_rx t t' \<longleftrightarrow> t_csr t' = t_csr t \<and> t_rx t' = t_rx t \<and> t_rx_mem t' = t_rx_mem t \<and> t_rx_next t' = t_rx_next t"

lemma length_setup_frame [simp]: "length (setup_frame mac) = 192"
  by (simp add: setup_frame_def length_concat sum_list_replicate)

lemma tulip_ok_same: "same_rings t t' \<Longrightarrow> tulip_ok t' = tulip_ok t"
  by (simp add: same_rings_def tulip_ok_def)

lemma send_setup_frame_ok:
  assumes "tulip_ok t" "t_tx_next t = 0" "\<not> t_busy t 0"
  shows "\<exists>t'. send_setup_frame st t = Ret t' \<and> tulip_ok t' \<and> t_tx_next t' = 1 \<and> same_rx t t' \<and>
    t_busy t' = (t_busy t)(0 := poll_setup 100000 st = None) \<and>
    take 192 (t_tx_mem t') = setup_frame (t_mac t)"
proof -
  have l: "length (t_tx t) = 16" "length (t_tx_mem t) = 32768" using assms(1) by (simp_all add: tulip_ok_def)
  let ?mem = "setup_frame (t_mac t) @ drop 192 (t_tx_mem t)"
  let ?desc = "(t_tx t ! 0)\<lparr>d_control := TDES1_SET OR (of_nat SETUP_FRAME_SIZE AND 0x7FF) OR tulip_last 0, d_status := DESC_OWN\<rparr>"
  have p: "patch 0 (setup_frame (t_mac t)) (t_tx_mem t) = Ret ?mem" using l by (simp add: patch_at_ok)
  define t1 where "t1 = t\<lparr>t_tx_mem := ?mem, t_tx := (t_tx t)[0 := ?desc]\<rparr>"
  have "csr_ok (t_csr t1)" using assms(1) by (simp add: t1_def tulip_ok_def)
  then obtain t2 where t2: "csr_write CSR1 1 t1 = Ret t2" "same_rings t1 t2"
    using csr_write_same [of t1 CSR1 1] by (auto simp: CSR1_def)
  define t3 where "t3 = (case poll_setup 100000 st of
      Some s \<Rightarrow> t2\<lparr>t_tx := (t_tx t2)[0 := ?desc\<lparr>d_status := s\<rparr>]\<rparr> | None \<Rightarrow> t2)"
  have st: "d_status (t_tx t ! 0) AND DESC_OWN = 0" using assms(3) by (simp add: t_busy_def tulip_owned_def)
  have r: "send_setup_frame st t = Ret (t3\<lparr>t_tx_next := 1\<rparr>)"
    using l st p t2(1) assms(2)
    by (simp add: send_setup_frame_def nth_run_def assert_run_def Let_def tulip_sizes t1_def t3_def)
  have ps: "s AND DESC_OWN = 0" if "poll_setup n st = Some s" for n st s
    using that by (induction n arbitrary: st) (auto split: if_splits)
  have f: "t_csr t2 = t_csr t" "t_rx t2 = t_rx t" "t_rx_mem t2 = t_rx_mem t" "t_rx_next t2 = t_rx_next t"
    "t_tx_mem t2 = ?mem" "t_tx t2 = (t_tx t)[0 := ?desc]"
    using t2(2) by (simp_all add: same_rings_def t1_def)
  have g: "t_csr t3 = t_csr t" "t_rx t3 = t_rx t" "t_rx_mem t3 = t_rx_mem t" "t_rx_next t3 = t_rx_next t"
    "t_tx_mem t3 = ?mem" "length (t_tx t3) = 16"
    using f l by (simp_all add: t3_def split: option.split)
  have "t_busy (t3\<lparr>t_tx_next := 1\<rparr>) = (t_busy t)(0 := poll_setup 100000 st = None)"
    using f(6) l ps [of 100000 st]
    by (auto simp: fun_eq_iff t_busy_def tulip_owned_def t3_def nth_list_update split: option.split)
  then show ?thesis using r g l assms(1) by (simp add: same_rx_def tulip_ok_def)
qed

lemma tulip_new_ok:
  assumes "csr_ok csr" "tulip_dma_ok dma"
  shows "\<exists>t. tulip_new hw st dma csr = Ret t \<and> tulip_rx_ok t \<and> t_tx_next t = 1 \<and> t_rx_next t = 0 \<and>
    (\<forall>i < 16. t_busy t i \<longleftrightarrow> i = 0 \<and> poll_setup 100000 st = None) \<and> (\<forall>i < 16. \<not> t_filled t i)"
proof -
  define t0 where "t0 = \<lparr>t_csr = csr, t_io = [], t_reads = 0,
       t_tx_ring_dma = dma 0, t_rx_ring_dma = dma 1, t_tx_bufs_dma = dma 2, t_rx_bufs_dma = dma 3,
       t_tx = map (tulip_tx_desc (dma 2)) [0..<TULIP_TX_RING_SIZE],
       t_rx = map (tulip_rx_desc (dma 3)) [0..<TULIP_RX_RING_SIZE],
       t_tx_mem = zeros (TULIP_TX_RING_SIZE * TULIP_MBUF_SIZE), t_rx_mem = zeros (TULIP_RX_RING_SIZE * TULIP_MBUF_SIZE),
       t_tx_next = 0, t_rx_next = 0, t_mac = replicate 6 0\<rparr>"
  have ok0: "tulip_ok t0" using assms(1) by (simp add: t0_def tulip_ok_def tulip_sizes)
  have c: "csr_ok (t_csr t')" if "tulip_ok t'" for t' using that by (simp add: tulip_ok_def)
  obtain t1 where t1: "csr_writes [(CSR0, CSR0_SWR), (CSR0, push_bit 17 1 OR push_bit 8 8)] t0 = Ret t1" "same_rings t0 t1"
    using csr_writes_same [OF c [OF ok0], of "[(CSR0, CSR0_SWR), (CSR0, push_bit 17 1 OR push_bit 8 8)]"]
    by (auto simp: CSR0_def simp del: csr_writes.simps)
  have ok1: "tulip_ok t1" using ok0 tulip_ok_same [OF t1(2)] by simp
  let ?w = "[(CSR3, ucast (paddr (dma 1))), (CSR4, ucast (paddr (dma 0)))]"
  obtain t2 where t2: "csr_writes ?w t1 = Ret t2" "same_rings t1 t2"
    using csr_writes_same [OF c [OF ok1], of ?w] by (auto simp: CSR3_def CSR4_def simp del: csr_writes.simps)
  have ok2: "tulip_ok t2" using ok1 tulip_ok_same [OF t2(2)] by simp
  obtain m t3 where t3: "read_mac hw t2 = Ret (m, t3)" "same_rings t2 t3"
    using read_mac_ok [OF c [OF ok2]] by blast
  define t3' where "t3' = t3\<lparr>t_mac := case m of Some mac \<Rightarrow> mac | None \<Rightarrow> random_mac 0xDEC21140\<rparr>"
  have s3: "same_rings t3 t3'" by (simp add: same_rings_def t3'_def)
  have ok3: "tulip_ok t3'" using ok2 tulip_ok_same [OF t3(2)] tulip_ok_same [OF s3] by simp
  obtain t4 where t4: "csr_write CSR6 (CSR6_ST OR push_bit 6 1 OR push_bit 21 1) t3' = Ret t4" "same_rings t3' t4"
    using csr_write_same [OF c [OF ok3], of CSR6] by (auto simp: CSR6_def)
  have ok4: "tulip_ok t4" using ok3 tulip_ok_same [OF t4(2)] by simp
  have s04: "same_rings t0 t4" using t1(2) t2(2) t3(2) s3 t4(2) same_rings_trans by blast
  have b4: "t_busy t4 i = t_busy t0 i" "t_tx_next t4 = 0" for i using s04 by (simp_all add: same_rings_def t_busy_def t0_def)
  have nb: "\<not> t_busy t0 i" if "i < 16" for i using that by (simp add: t0_def t_busy_def tulip_owned_def tulip_tx_desc_def tulip_sizes)
  obtain t5 where t5: "send_setup_frame st t4 = Ret t5" "tulip_ok t5" "t_tx_next t5 = 1" "same_rx t4 t5"
    "t_busy t5 = (t_busy t4)(0 := poll_setup 100000 st = None)"
    using send_setup_frame_ok [OF ok4 b4(2), of st] b4(1) nb by auto
  have le: "CSR6 \<le> 0x48" "CSR2 \<le> 0x48" by (simp_all add: CSR6_def CSR2_def)
  obtain v t6 where t6: "csr_read hw CSR6 t5 = Ret (v, t6)" "same_rings t5 t6"
    using csr_read_same [OF c [OF t5(2)] le(1)] by blast
  have ok6: "tulip_ok t6" using t5(2) tulip_ok_same [OF t6(2)] by simp
  obtain t7 where t7: "csr_write CSR6 (v OR CSR6_SR) t6 = Ret t7" "same_rings t6 t7"
    using csr_write_same [OF c [OF ok6] le(1)] by blast
  have ok7: "tulip_ok t7" using ok6 tulip_ok_same [OF t7(2)] by simp
  obtain t8 where t8: "csr_write CSR2 1 t7 = Ret t8" "same_rings t7 t8"
    using csr_write_same [OF c [OF ok7] le(2)] by blast
  have s58: "same_rings t5 t8" using t6(2) t7(2) t8(2) same_rings_trans by blast
  have ok8: "tulip_ok t8" using t5(2) tulip_ok_same [OF s58] by simp
  have as: "assert_addr32 (unat (paddr (dma 0))) = Ret ()" "assert_addr32 (unat (paddr (dma 1))) = Ret ()"
    "assert_addr32 (unat (paddr (dma 2))) = Ret ()" "assert_addr32 (unat (paddr (dma 3))) = Ret ()"
    using assms(2) by (auto simp: tulip_dma_ok_def assert_addr32_def assert_run_def)
  have en: "\<exists>e. region_end (dma k) = Ret e \<and> assert_addr32 e = Ret ()" if "k = 2 \<or> k = 3" for k
    using assms(2) that by (auto simp: tulip_dma_ok_def assert_addr32_def assert_run_def region_end_def)
  from en [of 2] en [of 3] obtain e2 e3 where e: "region_end (dma 2) = Ret e2" "assert_addr32 e2 = Ret ()"
    "region_end (dma 3) = Ret e3" "assert_addr32 e3 = Ret ()" by auto
  have "tulip_new hw st dma csr = Ret t8"
    unfolding tulip_new_def t0_def [symmetric] Let_def t1(1) option.case bind.bind_lunit as e t2(1) t3(1) prod.case
      t3'_def [symmetric] t4(1) t5(1) t6(1) t7(1) by (rule t8(1))
  moreover have rx: "t_rx t8 = t_rx t0" "t_rx_next t8 = 0"
    using s58 t5(4) s04 by (simp_all add: same_rings_def same_rx_def t0_def)
  moreover have "\<forall>d \<in> set (t_rx t8). tulip_owned d"
    unfolding rx by (auto simp: t0_def tulip_rx_desc_def tulip_owned_def)
  moreover have "\<not> t_filled t8 i" if "i < 16" for i
    using that unfolding t_filled_def rx by (simp add: t0_def tulip_rx_desc_def tulip_owned_def tulip_sizes)
  moreover have "t_busy t8 i \<longleftrightarrow> i = 0 \<and> poll_setup 100000 st = None" if "i < 16" for i
  proof -
    have "t_busy t8 i = t_busy t5 i" using s58 by (simp add: same_rings_def t_busy_def)
    then show ?thesis using t5(5) b4(1) nb [OF that] by auto
  qed
  moreover have "t_tx_next t8 = 1" using s58 t5(3) by (simp add: same_rings_def)
  ultimately show ?thesis using ok8 by (auto simp: tulip_rx_ok_def)
qed

section \<open>Frames through the rings\<close>

abbreviation tulip_tx_runs where
  "tulip_tx_runs \<equiv> tx_runs 16 1 tulip_request_ok t_submit t_payload t_busy t_frame t_finish t_tx_other"

abbreviation tulip_rx_runs where
  "tulip_rx_runs \<equiv> rx_runs 16 t_recv t_deliver t_rx_other"

lemma t_tx_run:
  assumes "csr_ok csr" "tulip_dma_ok dma" "poll_setup 100000 st \<noteq> None" "tulip_new hw st dma csr = Ret t0"
    "tulip_tx_runs t0 t acc wire"
  shows "tulip_ok t \<and> wire = take (length wire) acc \<and> length acc \<le> length wire + 16 \<and>
    (t_busy t (t_tx_next t) \<longleftrightarrow> length acc = length wire + 16)"
proof -
  have "tulip_ok t0" "t_tx_next t0 = 1 mod 16" "\<And>i. i < 16 \<Longrightarrow> \<not> t_busy t0 i"
    using tulip_new_ok [OF assms(1,2), of hw st] assms(3,4) by (auto simp: tulip_rx_ok_def)
  from tulip_tx.tx_fifo [OF assms(5) this] show ?thesis by blast
qed

lemma t_rx_run:
  assumes "csr_ok csr" "tulip_dma_ok dma" "tulip_new hw st dma csr = Ret t0" "tulip_rx_runs t0 t del out"
  shows "tulip_rx_ok t \<and> (\<exists>c \<le> length del. out = map fst (filter snd (take c del)) \<and> length del \<le> c + 16 \<and>
    (t_filled t (t_rx_next t) \<longleftrightarrow> c < length del))"
proof -
  have "tulip_rx_ok t0" "t_rx_next t0 = 0" "\<And>i. i < 16 \<Longrightarrow> \<not> t_filled t0 i"
    using tulip_new_ok [OF assms(1,2), of hw st] assms(3) by auto
  from tulip_rx.rx_fifo [OF assms(4) this] show ?thesis by blast
qed

lemma t_has_tx_space_iff: "tulip_ok t \<Longrightarrow> t_has_tx_space t = Ret (\<not> t_busy t (t_tx_next t))"
  by (simp add: t_has_tx_space_def tulip_ok_def nth_run_def t_busy_def tulip_owned_def)

lemma t_has_rx_packet_iff: "tulip_ok t \<Longrightarrow> t_has_rx_packet t = Ret (t_filled t (t_rx_next t))"
  by (simp add: t_has_rx_packet_def tulip_ok_def nth_run_def t_filled_def tulip_owned_def)

text \<open>
  C12.  On a device that came up and processed its setup frame, frames of fewer than 2048 bytes given to
  \<open>transmit_with\<close> reach the wire in order, unaltered and without loss, for every interleaving of
  transmit calls with the device; at most 16 are waiting, and \<open>has_tx_space\<close> says whether another
  is accepted.
\<close>

theorem tulip_tx_fifo:
  assumes "csr_ok csr" "tulip_dma_ok dma" "poll_setup 100000 st \<noteq> None" "tulip_new hw st dma csr = Ret t0"
    "tulip_tx_runs t0 t acc wire"
  shows "wire = take (length wire) acc \<and> length acc \<le> length wire + 16 \<and>
    t_has_tx_space t = Ret (length acc < length wire + 16)"
proof -
  note r = t_tx_run [OF assms]
  have "(\<not> t_busy t (t_tx_next t)) = (length acc < length wire + 16)" using r by linarith
  then have "t_has_tx_space t = Ret (length acc < length wire + 16)"
    using t_has_tx_space_iff [OF conjunct1 [OF r]] by (simp only:)
  then show ?thesis using r by blast
qed

definition demo_tulip_dma :: "nat \<Rightarrow> dma_region" where
  "demo_tulip_dma i = \<lparr>vaddr = 0x900000, paddr = 0x100000 + of_nat i * 0x10000, dma_size = 0x8000\<rparr>"

lemma poll_setup_now: "poll_setup 100000 (\<lambda>_. 0) = Some 0"
proof -
  have "poll_setup (Suc 99999) (\<lambda>_. 0) = Some 0" unfolding poll_setup.simps by simp
  then show ?thesis by (simp del: poll_setup.simps)
qed

lemma demo_tulip: "csr_ok (Io 0xC000)" "tulip_dma_ok demo_tulip_dma"
  by (simp_all add: csr_ok_def tulip_dma_ok_def demo_tulip_dma_def)

text \<open>The demonstration device: no EEPROM, the setup frame processed at once.\<close>

lemma demo_tulip_new:
  obtains t0 where "tulip_new (\<lambda>n a. 0) (\<lambda>_. 0) demo_tulip_dma (Io 0xC000) = Ret t0" "tulip_rx_ok t0" "tulip_ok t0"
    "t_tx_next t0 = 1" "t_rx_next t0 = 0" "\<And>i. i < 16 \<Longrightarrow> \<not> t_busy t0 i" "\<And>i. i < 16 \<Longrightarrow> \<not> t_filled t0 i"
proof -
  obtain t0 where "tulip_new (\<lambda>n a. 0) (\<lambda>_. 0) demo_tulip_dma (Io 0xC000) = Ret t0" "tulip_rx_ok t0"
    "t_tx_next t0 = 1" "t_rx_next t0 = 0" "\<forall>i < 16. t_busy t0 i \<longleftrightarrow> i = 0 \<and> poll_setup 100000 (\<lambda>_. 0) = None"
    "\<forall>i < 16. \<not> t_filled t0 i"
    using tulip_new_ok [OF demo_tulip, of "\<lambda>n a. 0" "\<lambda>_. 0"] by blast
  then show ?thesis using that [of t0] unfolding poll_setup_now by (simp add: tulip_rx_ok_def)
qed

theorem tulip_tx_fifo_witness:
  "\<exists>t0 t acc wire. tulip_new (\<lambda>n a. 0) (\<lambda>_. 0) demo_tulip_dma (Io 0xC000) = Ret t0 \<and> tulip_tx_runs t0 t acc wire \<and>
     length wire = 1 \<and> wire = acc \<and> t_has_tx_space t = Ret True"
proof -
  obtain t0 where t0: "tulip_new (\<lambda>n a. 0) (\<lambda>_. 0) demo_tulip_dma (Io 0xC000) = Ret t0" "tulip_ok t0"
      "t_tx_next t0 = 1" "\<And>i. i < 16 \<Longrightarrow> \<not> t_busy t0 i"
    using demo_tulip_new by blast
  let ?m = "(60, \<lambda>b. (b, ())) :: tulip_request"
  have m: "tulip_request_ok ?m" by (simp add: tulip_request_ok_def keeps_length_def)
  have "\<not> t_busy t0 (t_tx_next t0)" using t0(3,4) by simp
  from t_submit_ok [OF t0(2) this m] obtain t where t: "t_submit t0 ?m = Ret (True, t)"
    "t_busy t = (t_busy t0)(t_tx_next t0 := True)" by blast
  from tx_submit [of 16 1 tulip_request_ok t_submit t_payload t_busy t_frame t_finish t_tx_other t0 t0 "[]" "[]", OF tx_start m t(1)] have r: "tulip_tx_runs t0 t [t_payload t0 ?m] []" by simp
  have b: "t_busy t ((1 + length ([]::bytes list)) mod 16)" using t(2) t0(3) by simp
  let ?t = "t\<lparr>t_tx := (t_tx t)[1 := (t_tx t ! 1)\<lparr>d_status := 0\<rparr>]\<rparr>"
  have f: "t_finish t ((1 + length ([]::bytes list)) mod 16) ?t"
    unfolding t_finish_def by (intro exI [of _ 0]) simp
  from tx_finish [OF r b f] have w: "tulip_tx_runs t0 ?t [t_payload t0 ?m] [t_frame t 1]" by simp
  have s: "poll_setup 100000 (\<lambda>_. 0) \<noteq> None" unfolding poll_setup_now by simp
  from tulip_tx_fifo [OF demo_tulip s t0(1) w]
  have "[t_frame t 1] = [t_payload t0 ?m]" "t_has_tx_space ?t = Ret True" by simp_all
  then show ?thesis using t0(1) w by (intro exI [of _ t0] exI [of _ ?t] exI [of _ "[t_payload t0 ?m]"] exI [of _ "[t_frame t 1]"]) simp
qed

text \<open>
  C4.  Frames the device delivers, each into its own buffer, come out of \<open>recv_with\<close> in order, unaltered and each once, for
  every interleaving of deliveries and receive calls; \<open>has_rx_packet\<close> says whether one is waiting.
\<close>

theorem tulip_rx_fifo:
  assumes "csr_ok csr" "tulip_dma_ok dma" "tulip_new hw st dma csr = Ret t0" "tulip_rx_runs t0 t del out"
  shows "\<exists>c \<le> length del. out = map fst (filter snd (take c del)) \<and> length del \<le> c + 16 \<and>
    t_has_rx_packet t = Ret (c < length del)"
  using t_rx_run [OF assms] t_has_rx_packet_iff [of t] by (auto simp: tulip_rx_ok_def)

lemma demo_deliver:
  assumes "tulip_ok t0" "\<not> t_filled t0 0"
  shows "t_deliver t0 0 ([1, 2, 3], True) (t0\<lparr>t_rx := (t_rx t0)[0 := (t_rx t0 ! 0)\<lparr>d_status := 0x30000\<rparr>],
    t_rx_mem := [1, 2, 3] @ drop (Suc (Suc (Suc 0))) (t_rx_mem t0)\<rparr>)"
  using assms by (auto simp: t_deliver_def tulip_ok_def t_filled_def rx_frame_length_def DESC_OWN_def
      intro!: exI [of _ "0x30000"])

theorem tulip_rx_fifo_witness:
  "\<exists>t0 t out. tulip_new (\<lambda>n a. 0) (\<lambda>_. 0) demo_tulip_dma (Io 0xC000) = Ret t0 \<and>
     tulip_rx_runs t0 t [([1, 2, 3], True)] out \<and> (out = [] \<or> out = [[1, 2, 3]]) \<and> t_has_rx_packet t = Ret (out = [])"
proof -
  obtain t0 where t0: "tulip_new (\<lambda>n a. 0) (\<lambda>_. 0) demo_tulip_dma (Io 0xC000) = Ret t0" "tulip_ok t0"
      "\<And>i. i < 16 \<Longrightarrow> \<not> t_filled t0 i"
    using demo_tulip_new by blast
  let ?t = "t0\<lparr>t_rx := (t_rx t0)[0 := (t_rx t0 ! 0)\<lparr>d_status := 0x30000\<rparr>], t_rx_mem := [1, 2, 3] @ drop (Suc (Suc (Suc 0))) (t_rx_mem t0)\<rparr>"
  have "t_deliver t0 (length ([] :: (bytes \<times> bool) list) mod 16) ([1, 2, 3], True) ?t"
    using demo_deliver [OF t0(2)] t0(3) by simp
  from rx_deliver [of 16 t_recv t_deliver t_rx_other t0 t0 "[]" "[]", OF rx_start this] have w: "tulip_rx_runs t0 ?t [([1, 2, 3], True)] []" by simp
  from tulip_rx_fifo [OF demo_tulip t0(1) w] obtain c where
    "[] = map fst (filter snd (take c [([1::u8, 2, 3], True)]))" "c \<le> 1"
    "t_has_rx_packet ?t = Ret (c < 1)" by auto
  moreover from this have "c = 0" by (cases c) auto
  ultimately show ?thesis using t0(1) w by (intro exI [of _ t0] exI [of _ ?t] exI [of _ "[]"]) simp
qed

text \<open>
  C35.  \<open>recv_with\<close> trusts the 14-bit length the device wrote.  On a descriptor the device has handed back it gives
  the closure that many bytes from the start of the buffer, so more than the buffer when the length
  exceeds 2048, and it leaves the buffer area exactly when the length runs past its end.
\<close>

theorem tulip_recv_overruns_iff:
  fixes t :: tulip and f :: "'r on_slice"
  assumes "tulip_ok t" "t_filled t (t_rx_next t)" "keeps_length f"
  defines "len \<equiv> rx_frame_length (d_status (t_rx t ! t_rx_next t))"
  shows "if t_rx_next t * 2048 + len \<le> 32768
    then \<exists>t'. t_recv_with f t = Ret (Some (snd (f (take len (drop (t_rx_next t * 2048) (t_rx_mem t))))), t')
    else t_recv_with f t = Panic"
proof (cases "t_rx_next t * 2048 + len \<le> 32768")
  case True
  then show ?thesis using t_recv_frame [OF assms(1-3)] unfolding len_def by (metis (no_types))
next
  case False
  then show ?thesis using assms(1,2)
    by (simp add: t_recv_with_def tulip_ok_def nth_run_def t_filled_def tulip_owned_def Let_def tulip_sizes
        slice_def len_def [symmetric])
qed

definition demo_overrun :: tulip where
  "demo_overrun = \<lparr>t_csr = Io 0xC000, t_io = [], t_reads = 0, t_tx_ring_dma = demo_tulip_dma 0, t_rx_ring_dma = demo_tulip_dma 1,
     t_tx_bufs_dma = demo_tulip_dma 2, t_rx_bufs_dma = demo_tulip_dma 3,
     t_tx = map (tulip_tx_desc (demo_tulip_dma 2)) [0..<16],
     t_rx = (map (tulip_rx_desc (demo_tulip_dma 3)) [0..<16])[15 := (tulip_rx_desc (demo_tulip_dma 3) 15)\<lparr>d_status := 0x3FFF0000\<rparr>],
     t_tx_mem = zeros 32768, t_rx_mem = zeros 32768, t_tx_next = 1, t_rx_next = 15, t_mac = replicate 6 0\<rparr>"

theorem tulip_recv_overruns_iff_witness:
  "t_recv_with (\<lambda>b. (b, b)) demo_overrun = Panic"
proof -
  have s: "d_status (t_rx demo_overrun ! 15) = 0x3FFF0000" by (simp add: demo_overrun_def)
  have n: "t_rx_next demo_overrun = 15" by (simp add: demo_overrun_def)
  have "tulip_ok demo_overrun" by (simp add: tulip_ok_def demo_overrun_def csr_ok_def)
  moreover have "t_filled demo_overrun (t_rx_next demo_overrun)"
    unfolding n t_filled_def tulip_owned_def s by (simp add: DESC_OWN_def)
  moreover have "keeps_length (\<lambda>b::bytes. (b, b))" by (simp add: keeps_length_def)
  ultimately show ?thesis using tulip_recv_overruns_iff [of demo_overrun "\<lambda>b. (b, b)"]
    unfolding n s by (simp add: rx_frame_length_def)
qed

text \<open>
  The size the device reads from the descriptor of an accepted frame is the length modulo 2048: every
  length below 2048 is passed on exactly, and a frame of 2048 bytes, which the assertion admits,
  is announced as empty.  A longer request aborts.
\<close>

lemma tulip_tx_length:
  assumes "tulip_ok t" "\<not> t_busy t (t_tx_next t)" "keeps_length f"
  shows "if len \<le> 2048
    then \<exists>r t'. t_transmit_with len f t = Ret (Some r, t') \<and> buf1_size (d_control (t_tx t' ! t_tx_next t)) = len mod 2048
    else t_transmit_with len f t = Panic"
proof (cases "len \<le> 2048")
  case True
  have l: "length (t_tx t) = 16" "t_tx_next t < 16" using assms(1) by (simp_all add: tulip_ok_def)
  from t_transmit_accepted [OF assms(1,2) True assms(3)] obtain r t' where
    "t_transmit_with len f t = Ret (Some r, t')"
    "t_tx t' = (t_tx t)[t_tx_next t := (t_tx t ! t_tx_next t)\<lparr>d_control :=
       (of_nat len AND 0x7FF) OR TDES1_FS OR TDES1_LS OR tulip_last (t_tx_next t), d_status := DESC_OWN\<rparr>]" by blast
  then show ?thesis using True l by (simp add: tx_control_size)
next
  case False
  then show ?thesis by (simp add: t_transmit_with_def assert_run_def tulip_sizes)
qed

lemma tulip_tx_length_witness:
  "\<exists>r t'. t_transmit_with 2048 (\<lambda>b. (b, ())) demo_overrun = Ret (Some r, t') \<and> buf1_size (d_control (t_tx t' ! 1)) = 0"
proof -
  have n: "t_tx_next demo_overrun = 1" by (simp add: demo_overrun_def)
  have "tulip_ok demo_overrun" by (simp add: tulip_ok_def demo_overrun_def csr_ok_def)
  moreover have "\<not> t_busy demo_overrun (t_tx_next demo_overrun)"
    unfolding n by (simp add: t_busy_def tulip_owned_def demo_overrun_def tulip_tx_desc_def)
  moreover have "keeps_length (\<lambda>b::bytes. (b, ()))" by (simp add: keeps_length_def)
  ultimately show ?thesis using tulip_tx_length [of demo_overrun "\<lambda>b. (b, ())" 2048] unfolding n by simp
qed

end
