(* ===== verification/Hv_Nvsp.thy ===== *)
theory Hv_Nvsp
  imports Hv_Ring
begin

text \<open>
  The NVSP and RNDIS protocols: the enums of \<open>nvsp_types.rs\<close> with the constants of \<open>ffi.rs\<close>, and the
  parsers and builders of \<open>nvsp_msg.rs\<close> in \<open>crates/embclox-hyperv/src\<close>.

  A packed wire struct is the list of its bytes, with the field offsets of
  \<open>include/nvspprotocol.h\<close> and \<open>include/rndis_msvm.h\<close>: an \<open>NVSP_MESSAGE\<close> has 32 bytes (type, 24 bytes
  of union, 4 of padding), an \<open>RNDIS_MESSAGE\<close> 52 bytes (type, length, 44 bytes of union).  Parsers
  return the parsed message or None, inside \<open>run\<close> because slicing can abort.
\<close>

section \<open>Protocol constants\<close>

datatype nvsp_version = V1 | V2 | V4 | V5 | V6 | V61

primrec nvsp_version_as_u32 :: "nvsp_version \<Rightarrow> u32" where
  "nvsp_version_as_u32 V1 = 0x00002"
| "nvsp_version_as_u32 V2 = 0x30002"
| "nvsp_version_as_u32 V4 = 0x40000"
| "nvsp_version_as_u32 V5 = 0x50000"
| "nvsp_version_as_u32 V6 = 0x60000"
| "nvsp_version_as_u32 V61 = 0x60001"

definition NEGOTIATE_ORDER :: "nvsp_version list" where
  "NEGOTIATE_ORDER = [V61, V6, V5, V4, V2, V1]"

datatype nvsp_message_type =
  MtNone | MtInit | MtInitComplete | MtSendNdisVersion
  | MtSendReceiveBuffer | MtSendReceiveBufferComplete | MtRevokeReceiveBuffer | MtSendSendBuffer
  | MtSendSendBufferComplete | MtRevokeSendBuffer | MtSendRndisPkt | MtSendRndisPktComplete
  | MtSendNdisConfig | MtSendVfAssociation | MtSwitchDataPath | MtSubChannel
  | MtSendIndirectionTable

primrec nvsp_message_type_as_u32 :: "nvsp_message_type \<Rightarrow> u32" where
  "nvsp_message_type_as_u32 MtNone = 0"
| "nvsp_message_type_as_u32 MtInit = 1"
| "nvsp_message_type_as_u32 MtInitComplete = 2"
| "nvsp_message_type_as_u32 MtSendNdisVersion = 100"
| "nvsp_message_type_as_u32 MtSendReceiveBuffer = 101"
| "nvsp_message_type_as_u32 MtSendReceiveBufferComplete = 102"
| "nvsp_message_type_as_u32 MtRevokeReceiveBuffer = 103"
| "nvsp_message_type_as_u32 MtSendSendBuffer = 104"
| "nvsp_message_type_as_u32 MtSendSendBufferComplete = 105"
| "nvsp_message_type_as_u32 MtRevokeSendBuffer = 106"
| "nvsp_message_type_as_u32 MtSendRndisPkt = 107"
| "nvsp_message_type_as_u32 MtSendRndisPktComplete = 108"
| "nvsp_message_type_as_u32 MtSendNdisConfig = 125"
| "nvsp_message_type_as_u32 MtSendVfAssociation = 128"
| "nvsp_message_type_as_u32 MtSwitchDataPath = 129"
| "nvsp_message_type_as_u32 MtSubChannel = 133"
| "nvsp_message_type_as_u32 MtSendIndirectionTable = 134"

definition nvsp_message_type_from_u32 :: "u32 \<Rightarrow> nvsp_message_type option" where
  "nvsp_message_type_from_u32 v =
     (if v = 0 then Some MtNone
      else if v = 1 then Some MtInit
      else if v = 2 then Some MtInitComplete
      else if v = 100 then Some MtSendNdisVersion
      else if v = 101 then Some MtSendReceiveBuffer
      else if v = 102 then Some MtSendReceiveBufferComplete
      else if v = 103 then Some MtRevokeReceiveBuffer
      else if v = 104 then Some MtSendSendBuffer
      else if v = 105 then Some MtSendSendBufferComplete
      else if v = 106 then Some MtRevokeSendBuffer
      else if v = 107 then Some MtSendRndisPkt
      else if v = 108 then Some MtSendRndisPktComplete
      else if v = 125 then Some MtSendNdisConfig
      else if v = 128 then Some MtSendVfAssociation
      else if v = 129 then Some MtSwitchDataPath
      else if v = 133 then Some MtSubChannel
      else if v = 134 then Some MtSendIndirectionTable
      else None)"

datatype nvsp_status =
  StNone | StSuccess | StFail | StProtocolTooNew
  | StProtocolTooOld | StInvalidRndisPkt | StBusy | StProtocolUnsupported

primrec nvsp_status_as_u32 :: "nvsp_status \<Rightarrow> u32" where
  "nvsp_status_as_u32 StNone = 0"
| "nvsp_status_as_u32 StSuccess = 1"
| "nvsp_status_as_u32 StFail = 2"
| "nvsp_status_as_u32 StProtocolTooNew = 3"
| "nvsp_status_as_u32 StProtocolTooOld = 4"
| "nvsp_status_as_u32 StInvalidRndisPkt = 5"
| "nvsp_status_as_u32 StBusy = 6"
| "nvsp_status_as_u32 StProtocolUnsupported = 7"

definition nvsp_status_from_u32 :: "u32 \<Rightarrow> nvsp_status option" where
  "nvsp_status_from_u32 v =
     (if v = 0 then Some StNone
      else if v = 1 then Some StSuccess
      else if v = 2 then Some StFail
      else if v = 3 then Some StProtocolTooNew
      else if v = 4 then Some StProtocolTooOld
      else if v = 5 then Some StInvalidRndisPkt
      else if v = 6 then Some StBusy
      else if v = 7 then Some StProtocolUnsupported
      else None)"

definition nvsp_status_is_success :: "nvsp_status \<Rightarrow> bool" where
  "nvsp_status_is_success s \<longleftrightarrow> s = StSuccess"

datatype rndis_message_type =
  RmPacket | RmInit | RmInitComplete | RmHalt
  | RmQuery | RmQueryComplete | RmSet | RmSetComplete
  | RmReset | RmResetComplete | RmIndicate | RmKeepAlive
  | RmKeepAliveComplete

primrec rndis_message_type_as_u32 :: "rndis_message_type \<Rightarrow> u32" where
  "rndis_message_type_as_u32 RmPacket = 1"
| "rndis_message_type_as_u32 RmInit = 2"
| "rndis_message_type_as_u32 RmInitComplete = 0x80000002"
| "rndis_message_type_as_u32 RmHalt = 3"
| "rndis_message_type_as_u32 RmQuery = 4"
| "rndis_message_type_as_u32 RmQueryComplete = 0x80000004"
| "rndis_message_type_as_u32 RmSet = 5"
| "rndis_message_type_as_u32 RmSetComplete = 0x80000005"
| "rndis_message_type_as_u32 RmReset = 6"
| "rndis_message_type_as_u32 RmResetComplete = 0x80000006"
| "rndis_message_type_as_u32 RmIndicate = 7"
| "rndis_message_type_as_u32 RmKeepAlive = 8"
| "rndis_message_type_as_u32 RmKeepAliveComplete = 0x80000008"

definition rndis_message_type_from_u32 :: "u32 \<Rightarrow> rndis_message_type option" where
  "rndis_message_type_from_u32 v =
     (if v = 1 then Some RmPacket
      else if v = 2 then Some RmInit
      else if v = 0x80000002 then Some RmInitComplete
      else if v = 3 then Some RmHalt
      else if v = 4 then Some RmQuery
      else if v = 0x80000004 then Some RmQueryComplete
      else if v = 5 then Some RmSet
      else if v = 0x80000005 then Some RmSetComplete
      else if v = 6 then Some RmReset
      else if v = 0x80000006 then Some RmResetComplete
      else if v = 7 then Some RmIndicate
      else if v = 8 then Some RmKeepAlive
      else if v = 0x80000008 then Some RmKeepAliveComplete
      else None)"

definition is_completion :: "rndis_message_type \<Rightarrow> bool" where
  "is_completion t \<longleftrightarrow> rndis_message_type_as_u32 t AND 0x80000000 \<noteq> 0"

text \<open>\<open>RndisStatus\<close>, \<open>NdisOid\<close> and \<open>NdisPacketFilter\<close> are transparent wrappers of a \<open>u32\<close>.\<close>

definition rndis_status_is_success :: "u32 \<Rightarrow> bool" where
  "rndis_status_is_success s \<longleftrightarrow> s = 0"

definition rndis_status_is_error :: "u32 \<Rightarrow> bool" where
  "rndis_status_is_error s \<longleftrightarrow> s AND 0xC0000000 = 0xC0000000"

definition GEN_MAXIMUM_FRAME_SIZE :: u32 where "GEN_MAXIMUM_FRAME_SIZE = 0x00010106"
definition GEN_CURRENT_PACKET_FILTER :: u32 where "GEN_CURRENT_PACKET_FILTER = 0x0001010E"
definition ETH_PERMANENT_ADDRESS :: u32 where "ETH_PERMANENT_ADDRESS = 0x01010101"
definition ETH_CURRENT_ADDRESS :: u32 where "ETH_CURRENT_ADDRESS = 0x01010102"

definition FILTER_STANDARD :: u32 where "FILTER_STANDARD = 1 OR 2 OR 8"

datatype vmbus_packet_type = DataInBand | DataUsingXferPages | DataUsingGpaDirect | Completion

primrec vmbus_packet_type_as_u16 :: "vmbus_packet_type \<Rightarrow> u16" where
  "vmbus_packet_type_as_u16 DataInBand = 6"
| "vmbus_packet_type_as_u16 DataUsingXferPages = 7"
| "vmbus_packet_type_as_u16 DataUsingGpaDirect = 9"
| "vmbus_packet_type_as_u16 Completion = 11"

definition vmbus_packet_type_from_u16 :: "u16 \<Rightarrow> vmbus_packet_type option" where
  "vmbus_packet_type_from_u16 v =
     (if v = 6 then Some DataInBand
      else if v = 7 then Some DataUsingXferPages
      else if v = 9 then Some DataUsingGpaDirect
      else if v = 11 then Some Completion
      else None)"

text \<open>\<open>VscCapability\<close> bits and the buffer constants.\<close>

definition VSC_VMQ :: u64 where "VSC_VMQ = push_bit 0 1"
definition VSC_IEEE8021Q :: u64 where "VSC_IEEE8021Q = push_bit 3 1"
definition RECEIVE_BUFFER_ID :: u16 where "RECEIVE_BUFFER_ID = 0xcafe"
definition SEND_BUFFER_ID :: u16 where "SEND_BUFFER_ID = 0"
definition NVSP_SUBCHANNEL_ALLOCATE :: u32 where "NVSP_SUBCHANNEL_ALLOCATE = 1"

section \<open>NVSP messages\<close>

definition NVSP_MESSAGE_SIZE :: nat where "NVSP_MESSAGE_SIZE = 40"
definition RNDIS_HEADER_SIZE :: nat where "RNDIS_HEADER_SIZE = 8"

record recv_section =
  rs_offset :: u32
  rs_sub_alloc_size :: u32
  rs_num_sub_allocs :: u32
  rs_end_offset :: u32

datatype nvsp_response =
    NvInitComplete u32 u32 u32
  | NvRecvBufComplete u32 u32 "recv_section list"
  | NvSendBufComplete u32 u32
  | NvRndisPktComplete u32
  | NvSubChannelComplete u32 u32
  | NvUnknown u32

definition cast_ref :: "nat \<Rightarrow> bytes \<Rightarrow> bytes option" where
  "cast_ref sz dat = (if length dat < sz then None else Some (take sz dat))"

definition read_section :: "bytes \<Rightarrow> recv_section" where
  "read_section b = \<lparr>rs_offset = get32 0 b, rs_sub_alloc_size = get32 4 b,
     rs_num_sub_allocs = get32 8 b, rs_end_offset = get32 12 b\<rparr>"

definition parse_nvsp_response :: "bytes \<Rightarrow> nvsp_response option run" where
  "parse_nvsp_response dat =
     (if length dat < 4 then Ret None
      else do {
        let msg_type = get32 0 dat in do {
        body \<leftarrow> slice_from 4 dat;
        if msg_type = nvsp_message_type_as_u32 MtInitComplete then
          Ret (map_option (\<lambda>c. NvInitComplete (get32 0 c) (get32 4 c) (get32 8 c)) (cast_ref 12 body))
        else if msg_type = nvsp_message_type_as_u32 MtSendReceiveBufferComplete then
          (case cast_ref 24 body of None \<Rightarrow> Ret None
           | Some c \<Rightarrow> do {
               sections_data \<leftarrow> slice_from 8 body;
               let n = min (length sections_data div 16) (unat (get32 4 c)) in
               Ret (Some (NvRecvBufComplete (get32 0 c) (get32 4 c)
                 (map (\<lambda>i. read_section (take 16 (drop (16 * i) sections_data))) [0..<n]))) })
        else if msg_type = nvsp_message_type_as_u32 MtSendSendBufferComplete then
          Ret (map_option (\<lambda>c. NvSendBufComplete (get32 0 c) (get32 4 c)) (cast_ref 8 body))
        else if msg_type = nvsp_message_type_as_u32 MtSendRndisPktComplete then
          Ret (map_option (\<lambda>c. NvRndisPktComplete (get32 0 c)) (cast_ref 4 body))
        else if msg_type = nvsp_message_type_as_u32 MtSubChannel then
          Ret (map_option (\<lambda>c. NvSubChannelComplete (get32 0 c) (get32 4 c)) (cast_ref 8 body))
        else Ret (Some (NvUnknown msg_type)) } })"

text \<open>A zero-initialised \<open>nvsp_message\<close> with its type and the leading bytes of the union set.\<close>

definition nvsp_message :: "nvsp_message_type \<Rightarrow> bytes \<Rightarrow> bytes" where
  "nvsp_message ty flds = le32 (nvsp_message_type_as_u32 ty) @ write_at 0 flds (zeros 28)"

definition nvsp_message_padded :: "bytes \<Rightarrow> bytes" where
  "nvsp_message_padded msg = write_at 0 msg (zeros NVSP_MESSAGE_SIZE)"

definition build_nvsp_init :: "u32 \<Rightarrow> bytes" where
  "build_nvsp_init v = nvsp_message MtInit (le32 v @ le32 v)"

definition build_nvsp_send_ndis_version :: "u32 \<Rightarrow> u32 \<Rightarrow> bytes" where
  "build_nvsp_send_ndis_version major minor = nvsp_message MtSendNdisVersion (le32 major @ le32 minor)"

definition build_nvsp_send_ndis_config :: "u32 \<Rightarrow> u64 \<Rightarrow> bytes" where
  "build_nvsp_send_ndis_config mtu capabilities =
     nvsp_message MtSendNdisConfig (le32 mtu @ le32 0 @ le64 capabilities)"

definition build_nvsp_subchannel_request :: "u32 \<Rightarrow> bytes" where
  "build_nvsp_subchannel_request n = nvsp_message MtSubChannel (le32 NVSP_SUBCHANNEL_ALLOCATE @ le32 n)"

definition build_nvsp_send_recv_buf :: "u32 \<Rightarrow> u16 \<Rightarrow> bytes" where
  "build_nvsp_send_recv_buf handle i = nvsp_message MtSendReceiveBuffer (le32 handle @ le16 i)"

definition build_nvsp_send_send_buf :: "u32 \<Rightarrow> u16 \<Rightarrow> bytes" where
  "build_nvsp_send_send_buf handle i = nvsp_message MtSendSendBuffer (le32 handle @ le16 i)"

definition build_nvsp_send_rndis_pkt :: "u32 \<Rightarrow> u32 \<Rightarrow> u32 \<Rightarrow> bytes" where
  "build_nvsp_send_rndis_pkt channel_type section_index section_size =
     nvsp_message MtSendRndisPkt (le32 channel_type @ le32 section_index @ le32 section_size)"

section \<open>RNDIS messages\<close>

datatype rndis_response =
    RnInitComplete u32 u32 u32 u32 u32 u32 u32
  | RnQueryComplete u32 u32 bytes
  | RnSetComplete u32 u32
  | RnKeepAlive u32
  | RnKeepAliveComplete u32 u32
  | RnIndicate u32 bytes
  | RnPacket u32 u32 bytes
  | RnUnknown u32

definition sub_buffer :: "u32 \<Rightarrow> u32 \<Rightarrow> bytes \<Rightarrow> bytes run" where
  "sub_buffer off n body =
     (if unat n > 0 \<and> unat off + unat n \<le> length body
      then slice (unat off) (unat off + unat n) body else Ret [])"

definition parse_rndis_response :: "bytes \<Rightarrow> rndis_response option run" where
  "parse_rndis_response dat =
     (if length dat < RNDIS_HEADER_SIZE then Ret None
      else
        let msg_type = get32 0 dat; msg_len = unat (get32 4 dat) in do {
        body \<leftarrow> slice RNDIS_HEADER_SIZE (min (length dat) msg_len) dat;
        case rndis_message_type_from_u32 msg_type of
          Some RmInitComplete \<Rightarrow> Ret (map_option (\<lambda>c. RnInitComplete (get32 0 c) (get32 4 c)
            (get32 8 c) (get32 12 c) (get32 24 c) (get32 28 c) (get32 32 c)) (cast_ref 44 body))
        | Some RmQueryComplete \<Rightarrow> (case cast_ref 16 body of None \<Rightarrow> Ret None
            | Some c \<Rightarrow> do {
                info \<leftarrow> sub_buffer (get32 12 c) (get32 8 c) body;
                Ret (Some (RnQueryComplete (get32 0 c) (get32 4 c) info)) })
        | Some RmSetComplete \<Rightarrow>
            Ret (map_option (\<lambda>c. RnSetComplete (get32 0 c) (get32 4 c)) (cast_ref 8 body))
        | Some RmKeepAliveComplete \<Rightarrow>
            Ret (map_option (\<lambda>c. RnKeepAliveComplete (get32 0 c) (get32 4 c)) (cast_ref 8 body))
        | Some RmKeepAlive \<Rightarrow> Ret (map_option (\<lambda>c. RnKeepAlive (get32 0 c)) (cast_ref 4 body))
        | Some RmIndicate \<Rightarrow> (case cast_ref 12 body of None \<Rightarrow> Ret None
            | Some c \<Rightarrow> do {
                buf \<leftarrow> sub_buffer (get32 8 c) (get32 4 c) body;
                Ret (Some (RnIndicate (get32 0 c) buf)) })
        | Some RmPacket \<Rightarrow>
            Ret (map_option (\<lambda>c. RnPacket (get32 0 c) (get32 4 c) dat) (cast_ref 36 body))
        | _ \<Rightarrow> Ret (Some (RnUnknown msg_type)) })"

definition rndis_message :: "rndis_message_type \<Rightarrow> nat \<Rightarrow> bytes \<Rightarrow> bytes" where
  "rndis_message ty msg_len flds =
     le32 (rndis_message_type_as_u32 ty) @ le32 (of_nat msg_len) @ write_at 0 flds (zeros 44)"

definition build_rndis_init :: "u32 \<Rightarrow> u32 \<Rightarrow> bytes" where
  "build_rndis_init req_id max_xfer_size =
     rndis_message RmInit (RNDIS_HEADER_SIZE + 16) (le32 req_id @ le32 1 @ le32 0 @ le32 max_xfer_size)"

definition build_rndis_halt :: "u32 \<Rightarrow> bytes" where
  "build_rndis_halt req_id = rndis_message RmHalt (RNDIS_HEADER_SIZE + 4) (le32 req_id)"

text \<open>Query and set share their layout; the request is written to the front of \<open>buf\<close>.\<close>

definition build_rndis_request :: "rndis_message_type \<Rightarrow> u32 \<Rightarrow> u32 \<Rightarrow> bytes \<Rightarrow> bytes \<Rightarrow> (nat \<times> bytes) run" where
  "build_rndis_request ty req_id oid info_buf buf =
     (let msg_len = RNDIS_HEADER_SIZE + 20 + length info_buf in
      if length buf \<ge> msg_len then do {
        let msg = rndis_message ty msg_len
              (le32 req_id @ le32 oid @ le32 (of_nat (length info_buf)) @ le32 20);
            copy_len = min (RNDIS_HEADER_SIZE + 20) (length msg) in do {
        buf \<leftarrow> patch 0 (take copy_len msg) buf;
        buf \<leftarrow> (if info_buf \<noteq> [] then patch copy_len info_buf buf else Ret buf);
        Ret (msg_len, buf) } }
      else Panic)"

definition build_rndis_query :: "u32 \<Rightarrow> u32 \<Rightarrow> bytes \<Rightarrow> bytes \<Rightarrow> (nat \<times> bytes) run" where
  "build_rndis_query = build_rndis_request RmQuery"

definition build_rndis_set :: "u32 \<Rightarrow> u32 \<Rightarrow> bytes \<Rightarrow> bytes \<Rightarrow> (nat \<times> bytes) run" where
  "build_rndis_set = build_rndis_request RmSet"

definition build_rndis_keepalive :: "u32 \<Rightarrow> bytes" where
  "build_rndis_keepalive req_id = rndis_message RmKeepAlive (RNDIS_HEADER_SIZE + 4) (le32 req_id)"

section \<open>Lemmas\<close>

lemma sub_buffer_total:
  "sub_buffer off n body = Ret (if unat n > 0 \<and> unat off + unat n \<le> length body
     then take (unat n) (drop (unat off) body) else [])"
  by (simp add: sub_buffer_def slice_def)

lemma length_sub_buffer: "sub_buffer off n body = Ret b \<Longrightarrow> length b \<le> length body"
  by (auto simp: sub_buffer_total split: if_splits)

lemma parse_nvsp_total: "\<exists>r. parse_nvsp_response dat = Ret r"
proof (cases "length dat < 4")
  case False
  then have "slice_from 4 dat = Ret (drop 4 dat)" by (simp add: slice_from_def)
  moreover have "\<And>c. cast_ref 24 (drop 4 dat) = Some c \<Longrightarrow> slice_from 8 (drop 4 dat) = Ret (drop 12 dat)"
    by (auto simp: cast_ref_def slice_from_def split: if_splits)
  ultimately show ?thesis
    using False by (simp add: parse_nvsp_response_def Let_def split: option.split)
qed (simp add: parse_nvsp_response_def)

text \<open>The parse of a body of known length, once the header has been accepted.\<close>

lemma rndis_body:
  assumes "8 \<le> length dat" "8 \<le> unat (get32 4 dat)"
  shows "slice RNDIS_HEADER_SIZE (min (length dat) (unat (get32 4 dat))) dat =
    Ret (take (min (length dat) (unat (get32 4 dat)) - 8) (drop 8 dat))"
  using assms by (simp add: slice_def RNDIS_HEADER_SIZE_def)

lemma parse_rndis_ret:
  assumes "8 \<le> length dat" "8 \<le> unat (get32 4 dat)"
  shows "\<exists>r. parse_rndis_response dat = Ret r"
proof -
  have "\<not> length dat < RNDIS_HEADER_SIZE" using assms(1) by (simp add: RNDIS_HEADER_SIZE_def)
  then show ?thesis
    unfolding parse_rndis_response_def Let_def rndis_body [OF assms]
    by (simp add: sub_buffer_total split: option.split rndis_message_type.split)
qed

text \<open>Completions as a host encodes them (the fields the parser drops are zero).\<close>

definition rndis_wire :: "rndis_message_type \<Rightarrow> bytes \<Rightarrow> bytes" where
  "rndis_wire ty body =
     le32 (rndis_message_type_as_u32 ty) @ le32 (of_nat (8 + length body)) @ body"

fun rndis_encode :: "rndis_response \<Rightarrow> bytes option" where
  "rndis_encode (RnInitComplete q s maj mi pk xf al) = Some (rndis_wire RmInitComplete
     (le32 q @ le32 s @ le32 maj @ le32 mi @ le32 0 @ le32 0 @ le32 pk @ le32 xf @ le32 al @
      le32 0 @ le32 0))"
| "rndis_encode (RnQueryComplete q s b) = (if length b < 2 ^ 31 then Some (rndis_wire RmQueryComplete
     (le32 q @ le32 s @ le32 (of_nat (length b)) @ le32 16 @ b)) else None)"
| "rndis_encode (RnSetComplete q s) = Some (rndis_wire RmSetComplete (le32 q @ le32 s))"
| "rndis_encode (RnKeepAlive q) = Some (rndis_wire RmKeepAlive (le32 q))"
| "rndis_encode (RnKeepAliveComplete q s) = Some (rndis_wire RmKeepAliveComplete (le32 q @ le32 s))"
| "rndis_encode (RnIndicate s b) = (if length b < 2 ^ 31 then Some (rndis_wire RmIndicate
     (le32 s @ le32 (of_nat (length b)) @ le32 12 @ b)) else None)"
| "rndis_encode _ = None"

lemma rndis_wire_parts:
  assumes "length body < 2 ^ 31 + 64"
  shows "get32 0 (rndis_wire ty body @ junk) = rndis_message_type_as_u32 ty"
    "slice RNDIS_HEADER_SIZE (min (length (rndis_wire ty body @ junk))
       (unat (get32 4 (rndis_wire ty body @ junk)))) (rndis_wire ty body @ junk) = Ret body"
    "\<not> length (rndis_wire ty body @ junk) < RNDIS_HEADER_SIZE"
proof -
  show t: "get32 0 (rndis_wire ty body @ junk) = rndis_message_type_as_u32 ty"
    by (simp add: rndis_wire_def slice_simps)
  have g: "get32 4 (rndis_wire ty body @ junk) = of_nat (8 + length body)"
    by (simp add: rndis_wire_def slice_simps)
  have "8 + length body < 2 ^ 32" using assms by simp
  then have n: "unat (get32 4 (rndis_wire ty body @ junk)) = 8 + length body"
    unfolding g by (simp add: unat_of_nat del: of_nat_add)
  have l: "length (rndis_wire ty body @ junk) = 8 + length body + length junk"
    by (simp add: rndis_wire_def)
  have d: "drop 8 (rndis_wire ty body @ junk) = body @ junk"
    by (simp add: rndis_wire_def)
  show "slice RNDIS_HEADER_SIZE (min (length (rndis_wire ty body @ junk))
       (unat (get32 4 (rndis_wire ty body @ junk)))) (rndis_wire ty body @ junk) = Ret body"
    unfolding n l using d by (simp add: slice_def RNDIS_HEADER_SIZE_def rndis_wire_def)
  show "\<not> length (rndis_wire ty body @ junk) < RNDIS_HEADER_SIZE"
    unfolding l by (simp add: RNDIS_HEADER_SIZE_def)
qed

lemma rndis_type_roundtrip:
  "rndis_message_type_from_u32 (rndis_message_type_as_u32 t) = Some t"
  by (cases t) (simp_all add: rndis_message_type_from_u32_def)

lemma parse_rndis_wire:
  assumes "length body < 2 ^ 31 + 64"
  shows "parse_rndis_response (rndis_wire ty body @ junk) =
    (case Some ty of
          Some RmInitComplete \<Rightarrow> Ret (map_option (\<lambda>c. RnInitComplete (get32 0 c) (get32 4 c)
            (get32 8 c) (get32 12 c) (get32 24 c) (get32 28 c) (get32 32 c)) (cast_ref 44 body))
        | Some RmQueryComplete \<Rightarrow> (case cast_ref 16 body of None \<Rightarrow> Ret None
            | Some c \<Rightarrow> do {
                info \<leftarrow> sub_buffer (get32 12 c) (get32 8 c) body;
                Ret (Some (RnQueryComplete (get32 0 c) (get32 4 c) info)) })
        | Some RmSetComplete \<Rightarrow>
            Ret (map_option (\<lambda>c. RnSetComplete (get32 0 c) (get32 4 c)) (cast_ref 8 body))
        | Some RmKeepAliveComplete \<Rightarrow>
            Ret (map_option (\<lambda>c. RnKeepAliveComplete (get32 0 c) (get32 4 c)) (cast_ref 8 body))
        | Some RmKeepAlive \<Rightarrow> Ret (map_option (\<lambda>c. RnKeepAlive (get32 0 c)) (cast_ref 4 body))
        | Some RmIndicate \<Rightarrow> (case cast_ref 12 body of None \<Rightarrow> Ret None
            | Some c \<Rightarrow> do {
                buf \<leftarrow> sub_buffer (get32 8 c) (get32 4 c) body;
                Ret (Some (RnIndicate (get32 0 c) buf)) })
        | Some RmPacket \<Rightarrow> Ret (map_option (\<lambda>c. RnPacket (get32 0 c) (get32 4 c)
            (rndis_wire ty body @ junk)) (cast_ref 36 body))
        | _ \<Rightarrow> Ret (Some (RnUnknown (rndis_message_type_as_u32 ty))))"
  unfolding parse_rndis_response_def Let_def if_not_P [OF rndis_wire_parts(3) [OF assms]]
    rndis_wire_parts(1,2) [OF assms] rndis_type_roundtrip
  by simp

lemma sub_buffer_tail:
  assumes "length b < 2 ^ 31" "length pre = unat k"
  shows "sub_buffer k (of_nat (length b)) (pre @ b) = Ret b"
proof -
  have "unat (of_nat (length b) :: u32) = length b" using assms(1) by (simp add: unat_of_nat)
  then show ?thesis using assms(2) by (auto simp: sub_buffer_total)
qed

section \<open>Properties\<close>

text \<open>
  \<open>parse_rndis_response\<close> aborts on exactly the buffers of at least eight bytes whose length field,
  which the host writes, is below eight; every buffer it returns is contained in the input.
\<close>

lemma parse_rndis_panics_iff:
  "(parse_rndis_response dat = Panic \<longleftrightarrow> 8 \<le> length dat \<and> unat (get32 4 dat) < 8) \<and>
   (\<forall>r. parse_rndis_response dat = Ret (Some r) \<longrightarrow>
      (case r of RnQueryComplete q s b \<Rightarrow> length b + 8 \<le> length dat
       | RnIndicate s b \<Rightarrow> length b + 8 \<le> length dat
       | _ \<Rightarrow> True))"
proof (cases "8 \<le> length dat")
  case False
  then have "parse_rndis_response dat = Ret None"
    by (simp add: parse_rndis_response_def RNDIS_HEADER_SIZE_def)
  then show ?thesis using False by simp
next
  case len: True
  show ?thesis
  proof (cases "8 \<le> unat (get32 4 dat)")
    case False
    then have "parse_rndis_response dat = Panic"
      using len by (simp add: parse_rndis_response_def RNDIS_HEADER_SIZE_def slice_def Let_def)
    then show ?thesis using False len by simp
  next
    case True
    let ?body = "take (min (length dat) (unat (get32 4 dat)) - 8) (drop 8 dat)"
    have nl: "\<not> length dat < RNDIS_HEADER_SIZE" using len by (simp add: RNDIS_HEADER_SIZE_def)
    have bl: "length ?body + 8 \<le> length dat" using len by simp
    have "parse_rndis_response dat \<noteq> Panic" using parse_rndis_ret [OF len True] by auto
    moreover have "\<And>r. parse_rndis_response dat = Ret (Some r) \<Longrightarrow>
        (case r of RnQueryComplete q s b \<Rightarrow> length b + 8 \<le> length dat
         | RnIndicate s b \<Rightarrow> length b + 8 \<le> length dat | _ \<Rightarrow> True)"
      using nl bl unfolding parse_rndis_response_def Let_def rndis_body [OF len True]
      by (auto simp: sub_buffer_total split: option.split_asm rndis_message_type.split_asm)
    ultimately show ?thesis using True by auto
  qed
qed

lemma parse_rndis_panics_iff_witness:
  "parse_rndis_response [4, 0, 0, 128, 7, 0, 0, 0] = Panic \<and>
   parse_rndis_response [8, 0, 0, 0, 12, 0, 0, 0, 5, 0, 0, 0] \<noteq> Panic"
  using parse_rndis_panics_iff [of "[4, 0, 0, 128, 7, 0, 0, 0]"]
    parse_rndis_panics_iff [of "[8, 0, 0, 0, 12, 0, 0, 0, 5, 0, 0, 0]"]
  by (simp add: get32_def)

text \<open>
  C30.  \<open>parse_rndis_response\<close> inverts the RNDIS encoding: a completion, keepalive or indication in wire
  format, with whatever bytes follow it in the receive buffer, is parsed into exactly the message
  that was encoded, including its variable-length buffer.
\<close>

theorem parse_rndis_roundtrip:
  assumes "rndis_encode r = Some bs"
  shows "parse_rndis_response (bs @ junk) = Ret (Some r)"
proof (cases r)
  case (RnInitComplete q s maj mi pk xf al)
  then show ?thesis
    using assms by (auto simp: parse_rndis_wire cast_ref_def slice_simps)
next
  case (RnQueryComplete q s b)
  then have bs: "bs = rndis_wire RmQueryComplete ((le32 q @ le32 s @ le32 (of_nat (length b)) @ le32 16) @ b)"
    and l: "length b < 2 ^ 31"
    using assms by (auto split: if_splits)
  have "sub_buffer 16 (of_nat (length b)) ((le32 q @ le32 s @ le32 (of_nat (length b)) @ le32 16) @ b) = Ret b"
    by (rule sub_buffer_tail [OF l]) simp
  then show ?thesis
    unfolding bs RnQueryComplete using l by (simp add: parse_rndis_wire cast_ref_def slice_simps)
next
  case (RnIndicate s b)
  then have bs: "bs = rndis_wire RmIndicate ((le32 s @ le32 (of_nat (length b)) @ le32 12) @ b)"
    and l: "length b < 2 ^ 31"
    using assms by (auto split: if_splits)
  have "sub_buffer 12 (of_nat (length b)) ((le32 s @ le32 (of_nat (length b)) @ le32 12) @ b) = Ret b"
    by (rule sub_buffer_tail [OF l]) simp
  then show ?thesis
    unfolding bs RnIndicate using l by (simp add: parse_rndis_wire cast_ref_def slice_simps)
qed (use assms in \<open>auto simp: parse_rndis_wire cast_ref_def slice_simps\<close>)

theorem parse_rndis_roundtrip_witness:
  "\<exists>bs. rndis_encode (RnQueryComplete 2 0 [1, 2, 3, 4, 5, 6]) = Some bs \<and>
     parse_rndis_response (bs @ [9, 9]) = Ret (Some (RnQueryComplete 2 0 [1, 2, 3, 4, 5, 6]))"
proof -
  obtain bs where b: "rndis_encode (RnQueryComplete 2 0 [1, 2, 3, 4, 5, 6]) = Some bs" by simp
  from b parse_rndis_roundtrip [OF b, of "[9, 9]"] show ?thesis by blast
qed

text \<open>
  The wire constants identify the enum values: every conversion to an integer is inverted by
  the conversion from it, which recognises no other integer.  The packet type that the ring code
  uses for page-buffer packets is not among the recognised VMBus packet types.
\<close>

lemma protocol_enums_roundtrip:
  "(nvsp_message_type_from_u32 v = Some t \<longleftrightarrow> v = nvsp_message_type_as_u32 t) \<and>
   (nvsp_status_from_u32 v = Some s \<longleftrightarrow> v = nvsp_status_as_u32 s) \<and>
   (rndis_message_type_from_u32 v = Some m \<longleftrightarrow> v = rndis_message_type_as_u32 m) \<and>
   (vmbus_packet_type_from_u16 u = Some p \<longleftrightarrow> u = vmbus_packet_type_as_u16 p) \<and>
   vmbus_packet_type_from_u16 VM_PKT_DATA_USING_GPA_DIRECT = None"
proof (intro conjI)
  show "nvsp_message_type_from_u32 v = Some t \<longleftrightarrow> v = nvsp_message_type_as_u32 t"
    by (cases t) (auto simp: nvsp_message_type_from_u32_def)
  show "nvsp_status_from_u32 v = Some s \<longleftrightarrow> v = nvsp_status_as_u32 s"
    by (cases s) (auto simp: nvsp_status_from_u32_def)
  show "rndis_message_type_from_u32 v = Some m \<longleftrightarrow> v = rndis_message_type_as_u32 m"
    by (cases m) (auto simp: rndis_message_type_from_u32_def)
  show "vmbus_packet_type_from_u16 u = Some p \<longleftrightarrow> u = vmbus_packet_type_as_u16 p"
    by (cases p) (auto simp: vmbus_packet_type_from_u16_def)
  show "vmbus_packet_type_from_u16 VM_PKT_DATA_USING_GPA_DIRECT = None"
    by (simp add: vmbus_packet_type_from_u16_def VM_PKT_DATA_USING_GPA_DIRECT_def)
qed

end
