(* ===== verification/Hv_Netvsc.thy ===== *)
theory Hv_Netvsc
  imports Hv_Nvsp Hv_Channel Try_Run
begin

text \<open>
  The synthetic network device, \<open>crates/embclox-hyperv/src/netvsc.rs\<close>: NVSP and RNDIS set-up on a
  VMBus channel, and the packet path.

  The state of an operation is the device and the \<open>world\<close> of \<open>Hv_Synic\<close>.  The shared send buffer's
  bytes are the field \<open>nv_send_mem\<close>.  The receive buffer is written by the host: \<open>M n\<close> is its
  content after the n-th look at the receive ring.  Loops over the ring run as long as the host
  keeps adding packets, so they are fuelled; None is an abort or exhausted fuel.
\<close>

section \<open>Data\<close>

definition NETVSC_RECV_BUF_SIZE :: nat where "NETVSC_RECV_BUF_SIZE = 2 * 1024 * 1024"
definition NETVSC_SEND_BUF_SIZE :: nat where "NETVSC_SEND_BUF_SIZE = 1024 * 1024"
definition NETVSC_RING_SIZE :: nat where "NETVSC_RING_SIZE = 256 * 1024"
definition RX_FRAME_MAX :: nat where "RX_FRAME_MAX = 1600"
definition RNDIS_PACKET_SIZE :: nat where "RNDIS_PACKET_SIZE = 36"
definition RNDIS_PACKET_HDR_SIZE :: nat where "RNDIS_PACKET_HDR_SIZE = RNDIS_PACKET_SIZE + RNDIS_HEADER_SIZE"
definition NVSP_STAT_SUCCESS :: u32 where "NVSP_STAT_SUCCESS = 1"

record pending_rx =
  rx_data :: bytes
  rx_len :: nat

record netvsc_device =
  nv_channel :: channel
  nv_recv_buf :: dma_region
  nv_recv_gpadl :: u32
  nv_send_buf :: dma_region
  nv_send_gpadl :: u32
  nv_version :: u32
  nv_mac :: bytes
  nv_mtu :: u32
  next_request_id :: u32
  next_txid :: u64
  ctrl_resp :: bytes
  ctrl_resp_len :: nat
  ctrl_resp_ready :: bool
  send_section_free :: bool
  nv_pending_rx :: "pending_rx option"
  nv_send_mem :: bytes

type_synonym 'a nv_run = "(netvsc_device \<times> world, 'a, hv_error) try_run"
type_synonym 'a ch_run = "(channel \<times> world, 'a, hv_error) try_run"
type_synonym rx_mem = "nat \<Rightarrow> bytes"

section \<open>Buffers and frames\<close>

definition build_rndis_keepalive_cmplt :: "u32 \<Rightarrow> bytes \<Rightarrow> (nat \<times> bytes) run" where
  "build_rndis_keepalive_cmplt request_id buf = do {
     buf \<leftarrow> patch 0 (zeros 16) buf;
     buf \<leftarrow> patch 0 (le32 (rndis_message_type_as_u32 RmKeepAliveComplete)) buf;
     buf \<leftarrow> patch 4 (le32 16) buf;
     buf \<leftarrow> patch 8 (le32 request_id) buf;
     Ret (16, buf) }"

definition pfn_list :: "dma_region \<Rightarrow> u64 list" where
  "pfn_list region = map (\<lambda>i. drop_bit 12 (paddr region + of_nat (i * 4096))) [0..<dma_size region div 4096]"

definition parse_xfer_page_packet :: "bytes \<Rightarrow> bytes \<Rightarrow> bytes \<Rightarrow> (nat \<times> bytes) run" where
  "parse_xfer_page_packet mem raw out =
     (if length raw < 8 then Ret (0, out)
      else
        let range_cnt = unat (get32 4 raw) in
        if range_cnt = 0 \<or> length raw < 8 + range_cnt * 8 then Ret (0, out)
        else
          let byte_count = unat (get32 8 raw); byte_offset = unat (get32 12 raw) in
          if byte_offset + byte_count > NETVSC_RECV_BUF_SIZE \<or> byte_count = 0 then Ret (0, out)
          else
            let copy_len = min byte_count (length out) in do {
            dat \<leftarrow> slice byte_offset (byte_offset + copy_len) mem;
            out \<leftarrow> patch 0 dat out;
            Ret (copy_len, out) })"

definition extract_eth_frame :: "bytes \<Rightarrow> nat \<Rightarrow> (nat option \<times> bytes) run" where
  "extract_eth_frame buf rndis_len =
     (if rndis_len < RNDIS_HEADER_SIZE then Ret (None, buf)
      else do {
        msg \<leftarrow> slice 0 rndis_len buf;
        r \<leftarrow> parse_rndis_response msg;
        case r of Some (RnPacket data_offset data_len m) \<Rightarrow>
          let frame_start = RNDIS_HEADER_SIZE + unat data_offset in
          if frame_start + unat data_len \<le> rndis_len \<and> unat data_len \<le> length buf then do {
            frame \<leftarrow> slice frame_start (frame_start + unat data_len) buf;
            buf \<leftarrow> patch 0 frame buf;
            Ret (Some (unat data_len), buf) }
          else Ret (None, buf)
        | _ \<Rightarrow> Ret (None, buf) })"

text \<open>The 44 bytes in front of an outgoing frame, and the completion of a received packet.\<close>

definition rndis_packet_header :: "nat \<Rightarrow> bytes" where
  "rndis_packet_header frame_len =
     le32 (rndis_message_type_as_u32 RmPacket) @ le32 (of_nat (RNDIS_PACKET_HDR_SIZE + frame_len)) @
     le32 (of_nat RNDIS_PACKET_SIZE) @ le32 (of_nat frame_len) @ zeros 12 @
     le32 (of_nat RNDIS_PACKET_SIZE) @ zeros 12"

definition rx_completion :: bytes where
  "rx_completion = le32 (nvsp_message_type_as_u32 MtSendRndisPktComplete) @ le32 NVSP_STAT_SUCCESS"

section \<open>Sending on the channel\<close>

definition on_channel :: "'a ch_run \<Rightarrow> 'a nv_run" where
  "on_channel f s = (case s of (d, w) \<Rightarrow> do {
     (r, ch, w) \<leftarrow> f (nv_channel d, w);
     Ret (r, d\<lparr>nv_channel := ch\<rparr>, w) })"

definition nv_send :: "host \<Rightarrow> ring_host \<Rightarrow> bytes \<Rightarrow> u64 \<Rightarrow> unit ch_run" where
  "nv_send H R payload tid s = (case s of (ch, w) \<Rightarrow> chan_send H R ch payload tid w)"

definition nv_send_raw :: "host \<Rightarrow> ring_host \<Rightarrow> bytes \<Rightarrow> u64 \<Rightarrow> unit ch_run" where
  "nv_send_raw H R payload tid s = (case s of (ch, w) \<Rightarrow> chan_send_raw H R ch payload tid w)"

definition nv_completion :: "host \<Rightarrow> ring_host \<Rightarrow> bytes \<Rightarrow> u64 \<Rightarrow> unit ch_run" where
  "nv_completion H R payload tid s = (case s of (ch, w) \<Rightarrow> send_completion H R ch payload tid w)"

definition nv_recv :: "nat \<Rightarrow> host \<Rightarrow> ring_host \<Rightarrow> bytes \<Rightarrow> u64 \<Rightarrow> (nat \<times> bytes) ch_run" where
  "nv_recv fuel H R buf timeout_us s = (case s of (ch, w) \<Rightarrow> do {
     (r, ch, buf, w) \<leftarrow> recv_with_timeout fuel H R ch buf timeout_us w;
     Ret (case r of Ok (d, n) \<Rightarrow> Ok (n, buf) | Err e \<Rightarrow> Err e, ch, w) })"

text \<open>Copy to the front of the send buffer.\<close>

definition write_send_buf :: "nat \<Rightarrow> bytes \<Rightarrow> unit nv_run" where
  "write_send_buf off bs s = (case s of (d, w) \<Rightarrow> do {
     mem \<leftarrow> patch off bs (nv_send_mem d);
     Ret (Ok (), d\<lparr>nv_send_mem := mem\<rparr>, w) })"

text \<open>Increments of the request and transaction counters are overflow-checked.\<close>

definition take_request_id :: "u32 nv_run" where
  "take_request_id s = (case s of (d, w) \<Rightarrow>
     if next_request_id d = - 1 then Panic
     else Ret (Ok (next_request_id d), d\<lparr>next_request_id := next_request_id d + 1\<rparr>, w))"

definition take_txid :: "u64 nv_run" where
  "take_txid s = (case s of (d, w) \<Rightarrow>
     if next_txid d = - 1 then Panic
     else Ret (Ok (next_txid d), d\<lparr>next_txid := next_txid d + 1\<rparr>, w))"

definition set_section_free :: "bool \<Rightarrow> unit nv_run" where
  "set_section_free b s = (case s of (d, w) \<Rightarrow> Ret (Ok (), d\<lparr>send_section_free := b\<rparr>, w))"

definition send_rndis_control_inner :: "host \<Rightarrow> ring_host \<Rightarrow> bytes \<Rightarrow> unit nv_run" where
  "send_rndis_control_inner H R rndis_msg s =
     (if \<not> send_section_free (fst s) then fail_with Timeout s
      else try_op (write_send_buf 0 rndis_msg) (\<lambda>u.
        on_channel (nv_send H R (nvsp_message_padded
          (build_nvsp_send_rndis_pkt 1 0 (of_nat (length rndis_msg)))) 0)) s)"

section \<open>Receiving\<close>

text \<open>
  The handler of a transfer-page packet during set-up (\<open>n\<close> is the look at the ring that found it):
  acknowledge it, keep a control response, answer a keepalive, skip everything else.
\<close>

definition store_ctrl_resp :: "bytes \<Rightarrow> nat \<Rightarrow> netvsc_device \<Rightarrow> netvsc_device run" where
  "store_ctrl_resp buf len d = (let copy_len = min len (length (ctrl_resp d)) in do {
     src \<leftarrow> slice 0 copy_len buf;
     cr \<leftarrow> patch 0 src (ctrl_resp d);
     Ret (d\<lparr>ctrl_resp := cr, ctrl_resp_len := copy_len, ctrl_resp_ready := True\<rparr>) })"

definition answer_keepalive :: "host \<Rightarrow> ring_host \<Rightarrow> u32 \<Rightarrow> unit nv_run" where
  "answer_keepalive H R req_id s = do {
     (rlen, resp) \<leftarrow> build_rndis_keepalive_cmplt req_id (zeros 16);
     msg \<leftarrow> slice 0 rlen resp;
     ignore_result (send_rndis_control_inner H R msg) s }"

definition handle_xfer_page :: "host \<Rightarrow> ring_host \<Rightarrow> rx_mem \<Rightarrow> vm_packet_descriptor \<Rightarrow> bytes \<Rightarrow> unit nv_run" where
  "handle_xfer_page H R M desc raw s = do {
     (len, buf) \<leftarrow> parse_xfer_page_packet (M (ch_turns (nv_channel (fst s)))) raw (zeros 256);
     try_op (ignore_result (on_channel (nv_completion H R rx_completion (transaction_id desc)))) (\<lambda>u s.
       if len < RNDIS_HEADER_SIZE then done_with () s
       else do {
         msg \<leftarrow> slice 0 len buf;
         r \<leftarrow> parse_rndis_response msg;
         case r of
           Some (RnInitComplete a b c e f g h) \<Rightarrow> do { d \<leftarrow> store_ctrl_resp buf len (fst s); done_with () (d, snd s) }
         | Some (RnQueryComplete a b c) \<Rightarrow> do { d \<leftarrow> store_ctrl_resp buf len (fst s); done_with () (d, snd s) }
         | Some (RnSetComplete a b) \<Rightarrow> do { d \<leftarrow> store_ctrl_resp buf len (fst s); done_with () (d, snd s) }
         | Some (RnKeepAlive req_id) \<Rightarrow> answer_keepalive H R req_id s
         | _ \<Rightarrow> done_with () s }) s }"

text \<open>\<open>offset8 * 8 - 16\<close>, None when the subtraction would underflow, and the type found there.\<close>

definition nvsp_offset :: "vm_packet_descriptor \<Rightarrow> nat option" where
  "nvsp_offset desc = checked_sub (unat (offset8 desc) * 8) 16"

definition free_on_completion :: "bytes \<Rightarrow> nat \<Rightarrow> unit nv_run" where
  "free_on_completion raw off s = do {
     ty \<leftarrow> slice off (off + 4) raw;
     if get32 0 ty = nvsp_message_type_as_u32 MtSendRndisPktComplete then set_section_free True s
     else done_with () s }"

definition poll_packet :: "host \<Rightarrow> ring_host \<Rightarrow> rx_mem \<Rightarrow> vm_packet_descriptor \<Rightarrow> bytes \<Rightarrow> nat \<Rightarrow> unit nv_run" where
  "poll_packet H R M desc raw raw_len s =
     (case vmbus_packet_type_from_u16 (packet_type desc) of
        Some DataUsingXferPages \<Rightarrow> do { body \<leftarrow> slice 0 raw_len raw; handle_xfer_page H R M desc body s }
      | Some Completion \<Rightarrow> (case nvsp_offset desc of None \<Rightarrow> done_with () s
          | Some off \<Rightarrow> if off < raw_len \<and> raw_len \<ge> off + 4 then free_on_completion raw off s
                        else done_with () s)
      | Some DataInBand \<Rightarrow>
          if raw_len \<ge> 4 then
            (case nvsp_offset desc of None \<Rightarrow> done_with () s
             | Some off \<Rightarrow> if off < raw_len then do { ty \<leftarrow> slice off (off + 4) raw; done_with () s }
                           else done_with () s)
          else done_with () s
      | _ \<Rightarrow> done_with () s)"

text \<open>One look at the receive ring; the raw buffer is reused from packet to packet.\<close>

definition next_packet :: "ring_host \<Rightarrow> bytes \<Rightarrow> ((vm_packet_descriptor \<times> nat) option \<times> bytes) nv_run" where
  "next_packet R raw s = (case s of (d, w) \<Rightarrow> do {
     (r, raw, ch) \<leftarrow> try_recv_raw R (nv_channel d) raw;
     Ret (case r of Ok x \<Rightarrow> Ok (x, raw) | Err e \<Rightarrow> Err e, d\<lparr>nv_channel := ch\<rparr>, w) })"

primrec poll_loop :: "nat \<Rightarrow> host \<Rightarrow> ring_host \<Rightarrow> rx_mem \<Rightarrow> bool \<Rightarrow> bytes \<Rightarrow> bool nv_run" where
  "poll_loop 0 H R M processed raw = (\<lambda>s. None)"
| "poll_loop (Suc fuel) H R M processed raw = try_op (next_packet R raw) (\<lambda>(p, raw).
     case p of None \<Rightarrow> done_with processed
     | Some (desc, raw_len) \<Rightarrow> try_op (poll_packet H R M desc raw raw_len) (\<lambda>u.
         poll_loop fuel H R M True raw))"

definition poll_channel :: "nat \<Rightarrow> host \<Rightarrow> ring_host \<Rightarrow> rx_mem \<Rightarrow> bool nv_run" where
  "poll_channel fuel H R M = poll_loop fuel H R M False (zeros 512)"

section \<open>The data path\<close>

text \<open>A transfer-page packet on the data path: the payload goes to the one-frame queue.\<close>

definition queue_frame :: "host \<Rightarrow> ring_host \<Rightarrow> bytes \<Rightarrow> nat \<Rightarrow> unit nv_run" where
  "queue_frame H R buf rndis_len s =
     (if rndis_len \<ge> RNDIS_HEADER_SIZE then
        if get32 0 buf = rndis_message_type_as_u32 RmPacket then do {
          (eth, buf) \<leftarrow> extract_eth_frame buf rndis_len;
          case eth of None \<Rightarrow> done_with () s
          | Some eth_len \<Rightarrow>
              done_with () ((fst s)\<lparr>nv_pending_rx := Some \<lparr>rx_data = buf, rx_len = eth_len\<rparr>\<rparr>, snd s) }
        else if get32 0 buf = rndis_message_type_as_u32 RmKeepAlive then do {
          msg \<leftarrow> slice 0 rndis_len buf;
          r \<leftarrow> parse_rndis_response msg;
          case r of Some (RnKeepAlive req_id) \<Rightarrow> answer_keepalive H R req_id s
          | _ \<Rightarrow> done_with () s }
        else done_with () s
      else done_with () s)"

definition pump_packet :: "host \<Rightarrow> ring_host \<Rightarrow> rx_mem \<Rightarrow> vm_packet_descriptor \<Rightarrow> bytes \<Rightarrow> nat \<Rightarrow> bool nv_run" where
  "pump_packet H R M desc raw raw_len s =
     (case vmbus_packet_type_from_u16 (packet_type desc) of
        Some DataUsingXferPages \<Rightarrow>
          if nv_pending_rx (fst s) \<noteq> None then done_with False s
          else do {
            body \<leftarrow> slice 0 raw_len raw;
            (rndis_len, buf) \<leftarrow> parse_xfer_page_packet (M (ch_turns (nv_channel (fst s)))) body (zeros RX_FRAME_MAX);
            try_op (ignore_result (on_channel (nv_completion H R rx_completion (transaction_id desc)))) (\<lambda>u.
              try_op (queue_frame H R buf rndis_len) (\<lambda>u. done_with True)) s }
      | Some Completion \<Rightarrow> (case nvsp_offset desc of None \<Rightarrow> done_with True s
          | Some off \<Rightarrow> if off + 4 \<le> raw_len
              then try_op (free_on_completion raw off) (\<lambda>u. done_with True) s
              else done_with True s)
      | _ \<Rightarrow> done_with True s)"

primrec pump_loop :: "nat \<Rightarrow> host \<Rightarrow> ring_host \<Rightarrow> rx_mem \<Rightarrow> bytes \<Rightarrow> unit nv_run" where
  "pump_loop 0 H R M raw = (\<lambda>s. None)"
| "pump_loop (Suc fuel) H R M raw = try_op (next_packet R raw) (\<lambda>(p, raw).
     case p of None \<Rightarrow> done_with ()
     | Some (desc, raw_len) \<Rightarrow> try_op (pump_packet H R M desc raw raw_len) (\<lambda>more.
         if more then pump_loop fuel H R M raw else done_with ()))"

definition pump_channel :: "nat \<Rightarrow> host \<Rightarrow> ring_host \<Rightarrow> rx_mem \<Rightarrow> unit nv_run" where
  "pump_channel fuel H R M = pump_loop fuel H R M (zeros 512)"

definition nv_has_tx_space :: "nat \<Rightarrow> host \<Rightarrow> ring_host \<Rightarrow> rx_mem \<Rightarrow> bool nv_run" where
  "nv_has_tx_space fuel H R M = try_op (ignore_result (pump_channel fuel H R M))
     (\<lambda>u s. done_with (send_section_free (fst s)) s)"

definition nv_has_rx_packet :: "nat \<Rightarrow> host \<Rightarrow> ring_host \<Rightarrow> rx_mem \<Rightarrow> bool nv_run" where
  "nv_has_rx_packet fuel H R M = try_op (ignore_result (pump_channel fuel H R M))
     (\<lambda>u s. done_with (nv_pending_rx (fst s) \<noteq> None) s)"

definition build_and_send :: "host \<Rightarrow> ring_host \<Rightarrow> nat \<Rightarrow> 'r on_slice \<Rightarrow> 'r nv_run" where
  "build_and_send H R frame_len f s = (let rndis_len = RNDIS_PACKET_HDR_SIZE + frame_len in
     try_op (write_send_buf 0 (rndis_packet_header frame_len)) (\<lambda>u s. do {
       payload \<leftarrow> slice RNDIS_PACKET_HDR_SIZE rndis_len (nv_send_mem (fst s));
       let (payload, result) = f payload in
       try_op (write_send_buf RNDIS_PACKET_HDR_SIZE payload) (\<lambda>u.
       try_op take_txid (\<lambda>txid.
       try_op (set_section_free False) (\<lambda>u.
       try_op (on_channel (nv_send H R (nvsp_message_padded
         (build_nvsp_send_rndis_pkt 0 0 (of_nat rndis_len))) txid)) (\<lambda>u.
       done_with result)))) s }) s)"

definition nv_transmit_with :: "nat \<Rightarrow> host \<Rightarrow> ring_host \<Rightarrow> rx_mem \<Rightarrow> nat \<Rightarrow> 'r on_slice \<Rightarrow> 'r nv_run" where
  "nv_transmit_with fuel H R M frame_len f s = do {
     assert_run (RNDIS_PACKET_HDR_SIZE + frame_len \<le> NETVSC_SEND_BUF_SIZE);
     if send_section_free (fst s) then build_and_send H R frame_len f s
     else try_op (ignore_result (pump_channel fuel H R M)) (\<lambda>u s.
       if send_section_free (fst s) then build_and_send H R frame_len f s
       else fail_with Timeout s) s }"

definition nv_recv_with :: "'r on_slice \<Rightarrow> netvsc_device \<Rightarrow> ('r option \<times> netvsc_device) run" where
  "nv_recv_with f d = (case nv_pending_rx d of None \<Rightarrow> Ret (None, d)
     | Some frame \<Rightarrow> do {
         bs \<leftarrow> slice 0 (rx_len frame) (rx_data frame);
         Ret (Some (snd (f bs)), d\<lparr>nv_pending_rx := None\<rparr>) })"

section \<open>Control requests\<close>

text \<open>
  Both waits poll the channel, look at the clock, and go to sleep until the channel's waker is woken;
  a poll of the future is one round of the loop.
\<close>

definition rndis_response_poll :: "nat \<Rightarrow> host \<Rightarrow> ring_host \<Rightarrow> rx_mem \<Rightarrow> nat \<Rightarrow> u64 \<Rightarrow> netvsc_device \<times> world \<Rightarrow>
   ((bytes, hv_error) result poll \<times> netvsc_device \<times> world) option" where
  "rndis_response_poll fuel H R M buf_len deadline s = do {
     (r, s) \<leftarrow> poll_channel fuel H R M s;
     case r of Err e \<Rightarrow> Some (Ready (Err e), s)
     | Ok p \<Rightarrow> (case s of (d, w) \<Rightarrow>
         if ctrl_resp_ready d then
           (let len = min (ctrl_resp_len d) buf_len in do {
            bs \<leftarrow> slice 0 len (ctrl_resp d);
            Some (Ready (Ok bs), d\<lparr>ctrl_resp_ready := False\<rparr>, w) })
         else
           let (t, w) = now H w in
           if t \<ge> deadline then Some (Ready (Err Timeout), d, w) else Some (Pending, d, w)) }"

definition recv_rndis_response :: "nat \<Rightarrow> host \<Rightarrow> ring_host \<Rightarrow> rx_mem \<Rightarrow> nat \<Rightarrow> bytes nv_run" where
  "recv_rndis_response fuel H R M buf_len s = (case s of (d, w) \<Rightarrow>
     let d = d\<lparr>ctrl_resp_ready := False\<rparr>; (t, w) = now H w in do {
     deadline \<leftarrow> instant_add t 5000000;
     block_on_with fuel (rndis_response_poll fuel H R M buf_len deadline) (\<lambda>s. s) (d, w) })"

definition send_section_poll :: "nat \<Rightarrow> host \<Rightarrow> ring_host \<Rightarrow> rx_mem \<Rightarrow> u64 \<Rightarrow> netvsc_device \<times> world \<Rightarrow>
   ((unit, hv_error) result poll \<times> netvsc_device \<times> world) option" where
  "send_section_poll fuel H R M deadline s = do {
     (r, s) \<leftarrow> poll_channel fuel H R M s;
     case r of Err e \<Rightarrow> Some (Ready (Err e), s)
     | Ok p \<Rightarrow> (case s of (d, w) \<Rightarrow>
         if send_section_free d then Some (Ready (Ok ()), d, w)
         else
           let (t, w) = now H w in
           if t \<ge> deadline then Some (Ready (Err Timeout), d, w) else Some (Pending, d, w)) }"

definition wait_for_send_section :: "nat \<Rightarrow> host \<Rightarrow> ring_host \<Rightarrow> rx_mem \<Rightarrow> unit nv_run" where
  "wait_for_send_section fuel H R M s = (case s of (d, w) \<Rightarrow>
     let (t, w) = now H w in do {
     deadline \<leftarrow> instant_add t 2000000;
     block_on_with fuel (send_section_poll fuel H R M deadline) (\<lambda>s. s) (d, w) })"

definition send_rndis_control :: "nat \<Rightarrow> host \<Rightarrow> ring_host \<Rightarrow> rx_mem \<Rightarrow> bytes \<Rightarrow> unit nv_run" where
  "send_rndis_control fuel H R M rndis_msg s =
     try_op (\<lambda>s. if send_section_free (fst s) then done_with () s else wait_for_send_section fuel H R M s) (\<lambda>u s. do {
       assert_run (length rndis_msg \<le> NETVSC_SEND_BUF_SIZE);
       try_op (write_send_buf 0 rndis_msg) (\<lambda>u.
       try_op (set_section_free False) (\<lambda>u.
       try_op take_txid (\<lambda>txid.
       on_channel (nv_send H R (nvsp_message_padded
         (build_nvsp_send_rndis_pkt 1 0 (of_nat (length rndis_msg)))) txid)))) s }) s"

text \<open>Send a control message and parse the response that arrives for it.\<close>

definition rndis_exchange :: "nat \<Rightarrow> host \<Rightarrow> ring_host \<Rightarrow> rx_mem \<Rightarrow> bytes \<Rightarrow> rndis_response option nv_run" where
  "rndis_exchange fuel H R M msg =
     try_op (send_rndis_control fuel H R M msg) (\<lambda>u.
     try_op (recv_rndis_response fuel H R M 256) (\<lambda>resp s. do {
       r \<leftarrow> parse_rndis_response resp; done_with r s }))"

definition rndis_init :: "nat \<Rightarrow> host \<Rightarrow> ring_host \<Rightarrow> rx_mem \<Rightarrow> unit nv_run" where
  "rndis_init fuel H R M = try_op take_request_id (\<lambda>req_id s.
     let msg = build_rndis_init req_id 0x4000 in do {
     bytes \<leftarrow> slice 0 (unat (get32 4 msg)) msg;
     try_op (rndis_exchange fuel H R M bytes) (\<lambda>r.
       case r of Some (RnInitComplete q st a b c e f) \<Rightarrow>
         if rndis_status_is_success st then done_with () else fail_with (HypercallFailed (ucast st))
       | _ \<Rightarrow> fail_with VersionRejected) s })"

text \<open>A query with an empty information buffer, built in a 64-byte array.\<close>

definition rndis_query :: "nat \<Rightarrow> host \<Rightarrow> ring_host \<Rightarrow> rx_mem \<Rightarrow> u32 \<Rightarrow> rndis_response option nv_run" where
  "rndis_query fuel H R M oid = try_op take_request_id (\<lambda>req_id s. do {
     (len, msg) \<leftarrow> build_rndis_query req_id oid [] (zeros 64);
     bytes \<leftarrow> slice 0 len msg;
     rndis_exchange fuel H R M bytes s })"

primrec query_mac_loop :: "nat \<Rightarrow> host \<Rightarrow> ring_host \<Rightarrow> rx_mem \<Rightarrow> u32 list \<Rightarrow> unit nv_run" where
  "query_mac_loop fuel H R M [] = done_with ()"
| "query_mac_loop fuel H R M (oid # oids) = try_op (rndis_query fuel H R M oid) (\<lambda>r s.
     case r of Some (RnQueryComplete q st info) \<Rightarrow>
       if rndis_status_is_success st \<and> length info \<ge> 6
       then done_with () ((fst s)\<lparr>nv_mac := take 6 info\<rparr>, snd s)
       else query_mac_loop fuel H R M oids s
     | _ \<Rightarrow> query_mac_loop fuel H R M oids s)"

definition rndis_query_mac :: "nat \<Rightarrow> host \<Rightarrow> ring_host \<Rightarrow> rx_mem \<Rightarrow> unit nv_run" where
  "rndis_query_mac fuel H R M = query_mac_loop fuel H R M [ETH_CURRENT_ADDRESS, ETH_PERMANENT_ADDRESS]"

definition rndis_query_mtu :: "nat \<Rightarrow> host \<Rightarrow> ring_host \<Rightarrow> rx_mem \<Rightarrow> unit nv_run" where
  "rndis_query_mtu fuel H R M = try_op (rndis_query fuel H R M GEN_MAXIMUM_FRAME_SIZE) (\<lambda>r s.
     case r of Some (RnQueryComplete q st info) \<Rightarrow>
       if rndis_status_is_success st \<and> length info \<ge> 4
       then done_with () ((fst s)\<lparr>nv_mtu := get32 0 info\<rparr>, snd s)
       else done_with () s
     | _ \<Rightarrow> done_with () s)"

definition rndis_set_packet_filter :: "nat \<Rightarrow> host \<Rightarrow> ring_host \<Rightarrow> rx_mem \<Rightarrow> unit nv_run" where
  "rndis_set_packet_filter fuel H R M = try_op take_request_id (\<lambda>req_id s. do {
     (len, msg) \<leftarrow> build_rndis_set req_id GEN_CURRENT_PACKET_FILTER (le32 FILTER_STANDARD) (zeros 64);
     bytes \<leftarrow> slice 0 len msg;
     try_op (rndis_exchange fuel H R M bytes) (\<lambda>r.
       case r of Some (RnSetComplete q st) \<Rightarrow> done_with ()
       | _ \<Rightarrow> fail_with VersionRejected) s })"

section \<open>Set-up\<close>

text \<open>Receive into a 256-byte buffer and parse what arrived.\<close>

definition recv_nvsp :: "nat \<Rightarrow> host \<Rightarrow> ring_host \<Rightarrow> u64 \<Rightarrow> nvsp_response option ch_run" where
  "recv_nvsp fuel H R timeout_us = try_op (nv_recv fuel H R (zeros 256) timeout_us) (\<lambda>(n, resp) s. do {
     bs \<leftarrow> slice 0 n resp; r \<leftarrow> parse_nvsp_response bs; done_with r s })"

primrec negotiate_loop :: "nat \<Rightarrow> host \<Rightarrow> ring_host \<Rightarrow> nvsp_version list \<Rightarrow> u32 ch_run" where
  "negotiate_loop fuel H R [] = fail_with VersionRejected"
| "negotiate_loop fuel H R (ver # vers) =
     try_op (nv_send H R (nvsp_message_padded (build_nvsp_init (nvsp_version_as_u32 ver))) 0) (\<lambda>u.
     try_op (recv_nvsp fuel H R 2000000) (\<lambda>r.
       case r of Some (NvInitComplete a b st) \<Rightarrow>
         if st = NVSP_STAT_SUCCESS then
           (if ver \<noteq> V1 then
              try_op (nv_send_raw H R (nvsp_message_padded (build_nvsp_send_ndis_config 1528 1)) 99)
                (\<lambda>u. done_with (nvsp_version_as_u32 ver))
            else done_with (nvsp_version_as_u32 ver))
         else negotiate_loop fuel H R vers
       | _ \<Rightarrow> negotiate_loop fuel H R vers))"

definition negotiate_nvsp_version :: "nat \<Rightarrow> host \<Rightarrow> ring_host \<Rightarrow> u32 ch_run" where
  "negotiate_nvsp_version fuel H R = negotiate_loop fuel H R NEGOTIATE_ORDER"

definition nvsp_request_single_queue :: "nat \<Rightarrow> host \<Rightarrow> ring_host \<Rightarrow> unit ch_run" where
  "nvsp_request_single_queue fuel H R =
     try_op (nv_send H R (nvsp_message_padded (build_nvsp_subchannel_request 0)) 0) (\<lambda>u.
     try_op (recv_nvsp fuel H R 2000000) (\<lambda>r. done_with ()))"

text \<open>
  Set-up runs on the channel, the world and the static counter of GPADL handles, until the device
  exists.
\<close>

type_synonym 'a setup_run = "(channel \<times> world \<times> u32, 'a, hv_error) try_run"

definition on_setup :: "'a ch_run \<Rightarrow> 'a setup_run" where
  "on_setup m s = (case s of (ch, w, g) \<Rightarrow> do {
     (r, ch, w) \<leftarrow> m (ch, w);
     Ret (r, ch, w, g) })"

text \<open>Allocate a buffer and announce its pages: the region and its handle.\<close>

definition setup_buffer :: "nat \<Rightarrow> host \<Rightarrow> hypercall_page \<Rightarrow> u32 \<Rightarrow> nat \<Rightarrow> (dma_region \<times> u32) setup_run" where
  "setup_buffer fuel H hp relid sz s = (case s of (ch, w, g) \<Rightarrow>
     let (region, w) = alloc_coherent H sz 4096 w in do {
     (r, w) \<leftarrow> create_gpadl fuel H hp relid g sz (pfn_list region) w;
     Ret (case r of Ok u \<Rightarrow> Ok (region, g) | Err e \<Rightarrow> Err e, ch, w, g + 1) })"

text \<open>Receive until a packet has a payload.\<close>

primrec recv_nonempty :: "nat \<Rightarrow> host \<Rightarrow> ring_host \<Rightarrow> u64 \<Rightarrow> bytes \<Rightarrow> bytes ch_run" where
  "recv_nonempty 0 H R timeout_us buf = (\<lambda>s. None)"
| "recv_nonempty (Suc fuel) H R timeout_us buf = try_op (nv_recv (Suc fuel) H R buf timeout_us) (\<lambda>(n, buf) s.
     if n > 0 then do { bs \<leftarrow> slice 0 n buf; done_with bs s }
     else recv_nonempty fuel H R timeout_us buf s)"

definition setup_reply :: "nat \<Rightarrow> host \<Rightarrow> ring_host \<Rightarrow> u64 \<Rightarrow> nvsp_response option ch_run" where
  "setup_reply fuel H R timeout_us = try_op (recv_nonempty fuel H R timeout_us (zeros 256)) (\<lambda>bs s. do {
     r \<leftarrow> parse_nvsp_response bs; done_with r s })"

definition check_status :: "u32 \<Rightarrow> unit ch_run" where
  "check_status st = (if st \<noteq> NVSP_STAT_SUCCESS then fail_with (HypercallFailed (ucast st)) else done_with ())"

definition ndis_version_for :: "u32 \<Rightarrow> u32 \<times> u32" where
  "ndis_version_for v = (if v > nvsp_version_as_u32 V4 then (6, 30) else (6, 1))"

definition netvsc_new :: "channel \<Rightarrow> dma_region \<times> u32 \<Rightarrow> dma_region \<times> u32 \<Rightarrow> u32 \<Rightarrow> netvsc_device" where
  "netvsc_new ch rb sb v = \<lparr>nv_channel = ch, nv_recv_buf = fst rb, nv_recv_gpadl = snd rb,
     nv_send_buf = fst sb, nv_send_gpadl = snd sb, nv_version = v, nv_mac = zeros 6, nv_mtu = 1514,
     next_request_id = 1, next_txid = 100, ctrl_resp = zeros 256, ctrl_resp_len = 0,
     ctrl_resp_ready = False, send_section_free = True, nv_pending_rx = None,
     nv_send_mem = zeros NETVSC_SEND_BUF_SIZE\<rparr>"

definition nvsp_setup :: "nat \<Rightarrow> host \<Rightarrow> ring_host \<Rightarrow> hypercall_page \<Rightarrow> u32 \<Rightarrow> netvsc_device setup_run" where
  "nvsp_setup fuel H R hp relid =
     try_op (on_setup (negotiate_nvsp_version fuel H R)) (\<lambda>v.
     let (major, minor) = ndis_version_for v in
     try_op (on_setup (nv_send_raw H R (nvsp_message_padded (build_nvsp_send_ndis_version major minor)) 98)) (\<lambda>u.
     try_op (setup_buffer fuel H hp relid NETVSC_RECV_BUF_SIZE) (\<lambda>rb.
     try_op (on_setup (nv_send H R (nvsp_message_padded (build_nvsp_send_recv_buf (snd rb) RECEIVE_BUFFER_ID)) 1)) (\<lambda>u.
     try_op (on_setup (setup_reply fuel H R 5000000)) (\<lambda>r.
     try_op (on_setup (case r of Some (NvRecvBufComplete st n secs) \<Rightarrow> check_status st
       | _ \<Rightarrow> fail_with (HypercallFailed 0xFFFF))) (\<lambda>u.
     try_op (setup_buffer fuel H hp relid NETVSC_SEND_BUF_SIZE) (\<lambda>sb.
     try_op (on_setup (nv_send H R (nvsp_message_padded (build_nvsp_send_send_buf (snd sb) SEND_BUFFER_ID)) 2)) (\<lambda>u.
     try_op (on_setup (setup_reply fuel H R 2000000)) (\<lambda>r.
     try_op (on_setup (case r of Some (NvSendBufComplete st section_size) \<Rightarrow> check_status st
       | _ \<Rightarrow> fail_with (HypercallFailed 0xFFFF))) (\<lambda>u s.
     done_with (netvsc_new (fst s) rb sb v) s))))))))))"

definition rndis_setup :: "nat \<Rightarrow> host \<Rightarrow> ring_host \<Rightarrow> rx_mem \<Rightarrow> unit nv_run" where
  "rndis_setup fuel H R M =
     try_op (rndis_init fuel H R M) (\<lambda>u.
     try_op (repeat_while 10000 (poll_channel fuel H R M)) (\<lambda>u.
     try_op (rndis_query_mac fuel H R M) (\<lambda>u.
     try_op (rndis_query_mtu fuel H R M) (\<lambda>u.
     try_op (rndis_set_packet_filter fuel H R M) (\<lambda>u s.
     try_op (if nv_version (fst s) \<ge> nvsp_version_as_u32 V5
         then on_channel (nvsp_request_single_queue fuel H R) else done_with ()) (\<lambda>u s. do {
       assert_run (unat (nv_mtu (fst s)) + 14 \<le> RX_FRAME_MAX);
       done_with () s }) s)))))"

definition netvsc_init :: "nat \<Rightarrow> host \<Rightarrow> ring_host \<Rightarrow> rx_mem \<Rightarrow> u32 \<Rightarrow> vmbus \<Rightarrow> u32 \<Rightarrow> world \<Rightarrow>
   ((netvsc_device, hv_error) result \<times> u32 \<times> world) option" where
  "netvsc_init fuel H R M crash vb g w = (case find_offer NETVSC vb of
       None \<Rightarrow> Some (Err NotHyperV, g, w)
     | Some offer \<Rightarrow> do {
         (r, g, w) \<leftarrow> open_channel fuel H crash offer NETVSC_RING_SIZE (hcall vb) g w;
         case r of Err e \<Rightarrow> Some (Err e, g, w)
         | Ok ch \<Rightarrow> do {
             (r, ch, w, g) \<leftarrow> nvsp_setup fuel H R (hcall vb) (child_relid offer) (ch, w, g);
             case r of Err e \<Rightarrow> Some (Err e, g, w)
             | Ok d \<Rightarrow> do {
                 (r, d, w) \<leftarrow> rndis_setup fuel H R M (d, w);
                 Some (case r of Ok u \<Rightarrow> Ok d | Err e \<Rightarrow> Err e, g, w) } } })"

section \<open>Lemmas: buffers and frames\<close>

lemma netvsc_sizes:
  "RNDIS_HEADER_SIZE = 8" "RNDIS_PACKET_HDR_SIZE = 44" "RNDIS_PACKET_SIZE = 36" "RX_FRAME_MAX = 1600"
  by (simp_all add: RNDIS_HEADER_SIZE_def RNDIS_PACKET_HDR_SIZE_def RNDIS_PACKET_SIZE_def RX_FRAME_MAX_def)

definition rx_mem_ok :: "rx_mem \<Rightarrow> bool" where
  "rx_mem_ok M \<longleftrightarrow> (\<forall>n. length (M n) = NETVSC_RECV_BUF_SIZE)"

lemma patch_total: "length bs \<le> length xs \<Longrightarrow> patch 0 bs xs = Ret (bs @ drop (length bs) xs)"
  by (simp add: patch_def write_at_def)

lemma parse_xfer_total:
  assumes "length mem = NETVSC_RECV_BUF_SIZE"
  obtains (none) "parse_xfer_page_packet mem raw out = Ret (0, out)"
  | (some) n off where "0 < n \<or> out = []" "n \<le> length out" "off + n \<le> NETVSC_RECV_BUF_SIZE"
      "parse_xfer_page_packet mem raw out = Ret (n, take n (drop off mem) @ drop n out)"
proof -
  let ?k = "unat (get32 4 raw)" and ?c = "unat (get32 8 raw)" and ?o = "unat (get32 12 raw)"
  consider "length raw < 8 \<or> ?k = 0 \<or> length raw < 8 + ?k * 8 \<or> ?o + ?c > NETVSC_RECV_BUF_SIZE \<or> ?c = 0"
    | "\<not> length raw < 8" "\<not> (?k = 0 \<or> length raw < 8 + ?k * 8)"
      "\<not> (?o + ?c > NETVSC_RECV_BUF_SIZE \<or> ?c = 0)" by argo
  then show ?thesis
  proof cases
    case 1
    then show ?thesis using none by (auto simp: parse_xfer_page_packet_def Let_def)
  next
    case 2
    let ?n = "min ?c (length out)"
    have le: "?o + ?n \<le> NETVSC_RECV_BUF_SIZE" using 2(3) by linarith
    then have sl: "slice ?o (?o + ?n) mem = Ret (take ?n (drop ?o mem))"
      using assms by (simp add: slice_def)
    have len: "length (take ?n (drop ?o mem)) = ?n" using le assms by simp
    have "parse_xfer_page_packet mem raw out = Ret (?n, take ?n (drop ?o mem) @ drop ?n out)"
      unfolding parse_xfer_page_packet_def Let_def if_not_P [OF 2(1)] if_not_P [OF 2(2)] if_not_P [OF 2(3)] sl
      using patch_total [of "take ?n (drop ?o mem)" out] len by simp
    moreover have "0 < ?n \<or> out = []" using 2(3) by auto
    ultimately show ?thesis using some [of ?n ?o] le by simp
  qed
qed

lemma extract_eth_frame_Ret:
  assumes "8 \<le> n" "n \<le> length buf" "8 \<le> unat (get32 4 buf)"
  obtains (none) "extract_eth_frame buf n = Ret (None, buf)"
  | (some) off len where "8 + off + len \<le> n"
      "extract_eth_frame buf n = Ret (Some len, take len (drop (8 + off) buf) @ drop len buf)"
proof -
  have g: "get32 4 (take n buf) = get32 4 buf" using assms(1) by (simp add: get32_def take_drop min_def)
  have "8 \<le> length (take n buf)" using assms by simp
  from parse_rndis_ret [OF this] g assms(3) obtain r where r: "parse_rndis_response (take n buf) = Ret r" by auto
  have sl: "slice 0 n buf = Ret (take n buf)" using assms by (simp add: slice_def)
  show ?thesis
  proof (cases "\<exists>o' l m. r = Some (RnPacket o' l m) \<and> 8 + unat o' + unat l \<le> n")
    case True
    then obtain o' l m where m: "r = Some (RnPacket o' l m)" "8 + unat o' + unat l \<le> n" by blast
    let ?f = "take (unat l) (drop (8 + unat o') buf)"
    have "slice (8 + unat o') (8 + unat o' + unat l) buf = Ret ?f"
      using m(2) assms(2) by (simp add: slice_def)
    moreover have "length ?f = unat l" using m(2) assms(2) by simp
    ultimately have "extract_eth_frame buf n = Ret (Some (unat l), ?f @ drop (unat l) buf)"
      using r m assms sl patch_total [of ?f buf] by (simp add: extract_eth_frame_def netvsc_sizes Let_def)
    then show ?thesis using some m(2) by blast
  next
    case False
    then have "extract_eth_frame buf n = Ret (None, buf)"
      using r assms sl
      by (auto simp: extract_eth_frame_def netvsc_sizes Let_def split: option.split rndis_response.split)
    then show ?thesis by (rule none)
  qed
qed

lemma extract_eth_frame_abort:
  assumes "8 \<le> n" "n \<le> length buf" "unat (get32 4 buf) < 8"
  shows "extract_eth_frame buf n = Panic"
proof -
  have g: "get32 4 (take n buf) = get32 4 buf" using assms(1) by (simp add: get32_def take_drop min_def)
  have "parse_rndis_response (take n buf) = Panic"
    using assms g by (simp add: parse_rndis_response_def netvsc_sizes Let_def slice_def)
  then show ?thesis using assms by (simp add: extract_eth_frame_def netvsc_sizes slice_def)
qed

section \<open>Lemmas: the device invariant\<close>

text \<open>
  The rings are well-formed, the buffers have their sizes, and a queued frame lies within its
  buffer, so that handing it out cannot abort.
\<close>

definition nv_inv :: "netvsc_device \<times> world \<Rightarrow> bool" where
  "nv_inv s \<longleftrightarrow> (case s of (d, w) \<Rightarrow> chan_inv (nv_channel d) \<and>
     length (nv_send_mem d) = NETVSC_SEND_BUF_SIZE \<and> length (ctrl_resp d) = 256 \<and>
     ctrl_resp_len d \<le> 256 \<and> length (nv_mac d) = 6 \<and>
     (case nv_pending_rx d of None \<Rightarrow> True
      | Some p \<Rightarrow> length (rx_data p) = RX_FRAME_MAX \<and> rx_len p \<le> RX_FRAME_MAX))"

lemma on_channel_safe:
  assumes "safe (\<lambda>(ch, w). chan_inv ch) m"
  shows "safe nv_inv (on_channel m)"
  unfolding safe_def
proof (intro allI impI)
  fix s assume i: "nv_inv s"
  then obtain d w where s: "s = (d, w)" "chan_inv (nv_channel d)" by (cases s) (simp add: nv_inv_def)
  then obtain r ch w' where "m (nv_channel d, w) = Ret (r, ch, w')" "chan_inv ch"
    using assms unfolding safe_def by fastforce
  then show "\<exists>r s'. on_channel m s = Ret (r, s') \<and> nv_inv s'"
    using i s by (simp add: on_channel_def nv_inv_def)
qed

lemma sends_safe:
  assumes "ring_host_ok R"
  shows "safe (\<lambda>(ch, w). chan_inv ch) (nv_send H R payload tid)"
    and "safe (\<lambda>(ch, w). chan_inv ch) (nv_send_raw H R payload tid)"
    and "safe (\<lambda>(ch, w). chan_inv ch) (nv_completion H R payload tid)"
  using sends_total [OF assms]
  by (fastforce simp: safe_def nv_send_def nv_send_raw_def nv_completion_def)+

lemma write_send_buf_safe:
  "off + length bs \<le> NETVSC_SEND_BUF_SIZE \<Longrightarrow> safe nv_inv (write_send_buf off bs)"
  by (auto simp: safe_def write_send_buf_def patch_def nv_inv_def)

lemma set_section_free_safe: "safe nv_inv (set_section_free b)"
  by (auto simp: safe_def set_section_free_def nv_inv_def)

lemma send_rndis_control_inner_safe:
  assumes "ring_host_ok R" "length msg \<le> NETVSC_SEND_BUF_SIZE"
  shows "safe nv_inv (send_rndis_control_inner H R msg)"
proof -
  have "safe nv_inv (try_op (write_send_buf 0 msg) (\<lambda>u. on_channel (nv_send H R (nvsp_message_padded
          (build_nvsp_send_rndis_pkt 1 0 (of_nat (length msg)))) 0)))"
    using assms by (intro safe_try_op write_send_buf_safe on_channel_safe sends_safe) simp_all
  then show ?thesis
    by (auto simp: safe_def send_rndis_control_inner_def fail_with_def)
qed

lemma keepalive_cmplt:
  "build_rndis_keepalive_cmplt q (zeros 16) =
     Ret (16, le32 (rndis_message_type_as_u32 RmKeepAliveComplete) @ le32 16 @ le32 q @ zeros 4)"
  by (simp add: build_rndis_keepalive_cmplt_def patch_def write_at_def zeros_def numeral_eq_Suc)

lemma answer_keepalive_safe:
  assumes "ring_host_ok R"
  shows "safe nv_inv (answer_keepalive H R q)"
proof -
  have "answer_keepalive H R q = ignore_result (send_rndis_control_inner H R
      (le32 (rndis_message_type_as_u32 RmKeepAliveComplete) @ le32 16 @ le32 q @ zeros 4))"
    by (rule ext) (simp add: answer_keepalive_def keepalive_cmplt slice_def)
  moreover have "16 \<le> NETVSC_SEND_BUF_SIZE" by (simp add: NETVSC_SEND_BUF_SIZE_def)
  ultimately show ?thesis
    using send_rndis_control_inner_safe [OF assms] by (simp add: safe_ignore)
qed

lemma free_on_completion_safe:
  "off + 4 \<le> length raw \<Longrightarrow> safe nv_inv (free_on_completion raw off)"
  using set_section_free_safe [of True]
  by (auto simp: safe_def free_on_completion_def slice_def done_with_def)

lemma next_packet_keeps:
  assumes "ring_host_ok R" "nv_inv (d, w)"
  shows "\<exists>r d'. next_packet R raw (d, w) = Ret (r, d', w) \<and> nv_inv (d', w) \<and>
    (case r of Ok (p, raw') \<Rightarrow> length raw' = length raw \<and> (\<forall>e n. p = Some (e, n) \<longrightarrow> n \<le> length raw)
     | Err e \<Rightarrow> True)"
proof -
  have "chan_inv (nv_channel d)" using assms(2) by (simp add: nv_inv_def)
  from try_recv_raw_total [OF assms(1) this, of raw] obtain r raw' ch where
    t: "try_recv_raw R (nv_channel d) raw = Ret (r, raw', ch)" "chan_inv ch" "length raw' = length raw"
      "case r of Ok (Some (d, n)) \<Rightarrow> n \<le> length raw | _ \<Rightarrow> True" by blast
  then show ?thesis
    using assms(2) by (cases r) (auto simp: next_packet_def nv_inv_def split: option.splits)
qed

text \<open>The received messages on which the data path aborts: data or keepalive with a length below 8.\<close>

definition short_message :: "bytes \<Rightarrow> nat \<Rightarrow> bool" where
  "short_message buf n \<longleftrightarrow> 8 \<le> n \<and> unat (get32 4 buf) < 8 \<and>
     get32 0 buf \<in> {rndis_message_type_as_u32 RmPacket, rndis_message_type_as_u32 RmKeepAlive}"

lemma parse_prefix:
  assumes "8 \<le> n" "n \<le> length buf"
  shows "parse_rndis_response (take n buf) = Panic \<longleftrightarrow> unat (get32 4 buf) < 8"
proof -
  have g: "get32 4 (take n buf) = get32 4 buf" using assms(1) by (simp add: get32_def take_drop min_def)
  have l: "8 \<le> length (take n buf)" using assms by simp
  show ?thesis
  proof (cases "8 \<le> unat (get32 4 buf)")
    case True
    then show ?thesis using parse_rndis_ret [OF l] g by auto
  next
    case False
    then show ?thesis
      using assms g by (simp add: parse_rndis_response_def netvsc_sizes Let_def slice_def)
  qed
qed

lemma queue_frame_cases:
  assumes "ring_host_ok R" "nv_inv s" "length buf = RX_FRAME_MAX" "n \<le> RX_FRAME_MAX"
  obtains (abort) "short_message buf n" "queue_frame H R buf n s = Panic"
  | (ret) s' where "\<not> short_message buf n" "queue_frame H R buf n s = Ret (Ok (), s')" "nv_inv s'"
proof -
  let ?pk = "get32 0 buf = rndis_message_type_as_u32 RmPacket"
  let ?ka = "get32 0 buf = rndis_message_type_as_u32 RmKeepAlive"
  consider (small) "\<not> 8 \<le> n" | (other) "8 \<le> n" "\<not> ?pk" "\<not> ?ka" | (short) "8 \<le> n" "?pk \<or> ?ka" "unat (get32 4 buf) < 8"
    | (packet) "8 \<le> n" "?pk" "8 \<le> unat (get32 4 buf)" | (keepalive) "8 \<le> n" "?ka" "8 \<le> unat (get32 4 buf)"
    by linarith
  then show ?thesis
  proof cases
    case short
    then have a: "extract_eth_frame buf n = Panic" "parse_rndis_response (take n buf) = Panic"
      using extract_eth_frame_abort [of n buf] parse_prefix [of n buf] assms(3,4) by simp_all
    show ?thesis
      by (rule abort) (use short a assms(3,4) in \<open>auto simp: short_message_def queue_frame_def netvsc_sizes slice_def\<close>)
  next
    case packet
    have n: "\<not> short_message buf n" using packet by (simp add: short_message_def)
    have "n \<le> length buf" using assms(3,4) by simp
    from packet(1) this packet(3) show ?thesis
    proof (cases rule: extract_eth_frame_Ret)
      case none
      then show ?thesis using ret [OF n _ assms(2)] packet by (simp add: queue_frame_def netvsc_sizes done_with_def)
    next
      case (some off len)
      have l: "len \<le> RX_FRAME_MAX" "8 + off + len \<le> RX_FRAME_MAX" using some(1) assms(4) by linarith+
      then have "length (take len (drop (8 + off) buf) @ drop len buf) = RX_FRAME_MAX"
        using assms(3) by simp
      then have "nv_inv ((fst s)\<lparr>nv_pending_rx := Some \<lparr>rx_data = take len (drop (8 + off) buf) @ drop len buf, rx_len = len\<rparr>\<rparr>, snd s)"
        using assms(2) l(1) by (cases s) (simp add: nv_inv_def)
      then show ?thesis
        using ret [OF n] some(2) packet by (simp add: queue_frame_def netvsc_sizes done_with_def)
    qed
  next
    case keepalive
    have n: "\<not> short_message buf n" using keepalive by (simp add: short_message_def)
    have "parse_rndis_response (take n buf) \<noteq> Panic"
      using parse_prefix [of n buf] keepalive assms(3,4) by simp
    then obtain r where r: "parse_rndis_response (take n buf) = Ret r" by blast
    have ka: "\<exists>s'. answer_keepalive H R q s = Ret (Ok (), s') \<and> nv_inv s'" for q
    proof -
      obtain x s' where "answer_keepalive H R q s = Ret (x, s')" "nv_inv s'"
        using answer_keepalive_safe [OF assms(1)] assms(2) by (rule safeE)
      moreover from this have "x = Ok ()"
        by (auto simp: answer_keepalive_def keepalive_cmplt slice_def ignore_result_def split: option.splits)
      ultimately show ?thesis by simp
    qed
    have "queue_frame H R buf n s = (case r of Some (RnKeepAlive q) \<Rightarrow> answer_keepalive H R q s | _ \<Rightarrow> Ret (Ok (), s))"
      using keepalive r assms(3,4) by (simp add: queue_frame_def netvsc_sizes slice_def done_with_def)
    moreover have "\<exists>s'. (case r of Some (RnKeepAlive q) \<Rightarrow> answer_keepalive H R q s | _ \<Rightarrow> Ret (Ok (), s)) = Ret (Ok (), s') \<and> nv_inv s'"
      using ka assms(2) by (cases s) (auto split: option.split rndis_response.split)
    ultimately show ?thesis using ret [OF n] by metis
  qed (use ret [OF _ _ assms(2)] in \<open>simp_all add: short_message_def queue_frame_def netvsc_sizes done_with_def\<close>)
qed

text \<open>One packet on the data path.\<close>

lemma completion_ok:
  assumes "ring_host_ok R" "nv_inv s"
  obtains s' where "ignore_result (on_channel (nv_completion H R payload tid)) s = Ret (Ok (), s')" "nv_inv s'"
proof -
  have "safe nv_inv (on_channel (nv_completion H R payload tid))"
    using assms(1) by (intro on_channel_safe sends_safe)
  with assms(2) show ?thesis using that by (auto simp: ignore_result_def elim!: safeE)
qed

definition xfer_message :: "bytes \<Rightarrow> bytes \<Rightarrow> nat \<times> bytes" where
  "xfer_message mem body = the (parse_xfer_page_packet mem body (zeros RX_FRAME_MAX))"

lemma xfer_message:
  assumes "length mem = NETVSC_RECV_BUF_SIZE"
  shows "parse_xfer_page_packet mem body (zeros RX_FRAME_MAX) = Ret (xfer_message mem body)"
    and "fst (xfer_message mem body) \<le> RX_FRAME_MAX" and "length (snd (xfer_message mem body)) = RX_FRAME_MAX"
  using assms by (cases rule: parse_xfer_total [where raw = body and out = "zeros RX_FRAME_MAX"];
    simp add: xfer_message_def)+

lemma pump_packet_cases:
  assumes "ring_host_ok R" "rx_mem_ok M" "nv_inv (d, w)" "n \<le> length raw"
  defines "msg \<equiv> xfer_message (M (ch_turns (nv_channel d))) (take n raw)"
  obtains (abort) "vmbus_packet_type_from_u16 (packet_type e) = Some DataUsingXferPages" "nv_pending_rx d = None"
      "short_message (snd msg) (fst msg)" "pump_packet H R M e raw n (d, w) = Panic"
  | (full) "vmbus_packet_type_from_u16 (packet_type e) = Some DataUsingXferPages" "nv_pending_rx d \<noteq> None"
      "pump_packet H R M e raw n (d, w) = Ret (Ok False, d, w)"
  | (step) s' where "vmbus_packet_type_from_u16 (packet_type e) = Some DataUsingXferPages \<Longrightarrow>
        nv_pending_rx d = None \<and> \<not> short_message (snd msg) (fst msg)"
      "pump_packet H R M e raw n (d, w) = Ret (Ok True, s')" "nv_inv s'"
proof (cases "vmbus_packet_type_from_u16 (packet_type e) = Some DataUsingXferPages")
  case True
  note ab = abort
  show ?thesis
  proof (cases "nv_pending_rx d")
    case None
    have "length (M (ch_turns (nv_channel d))) = NETVSC_RECV_BUF_SIZE"
      using assms(2) by (simp add: rx_mem_ok_def)
    note m = xfer_message [OF this, of "take n raw", folded msg_def]
    obtain s1 where s1: "ignore_result (on_channel (nv_completion H R rx_completion (transaction_id e))) (d, w) =
        Ret (Ok (), s1)" "nv_inv s1" using assms(1,3) by (rule completion_ok)
    have eq: "pump_packet H R M e raw n (d, w) =
        try_op (queue_frame H R (snd msg) (fst msg)) (\<lambda>u. done_with True) s1"
      unfolding pump_packet_def
      using True None assms(4) m(1) s1(1) by (simp add: slice_def case_prod_beta try_op_Ok)
    from assms(1) s1(2) m(3,2) show ?thesis
    proof (cases rule: queue_frame_cases [where H = H])
      case abort
      then show ?thesis using ab True None eq by (simp add: try_op_def)
    next
      case (ret s')
      then show ?thesis using step True None eq by (simp add: try_op_def done_with_def)
    qed
  next
    case (Some p)
    then show ?thesis using full True by (simp add: pump_packet_def done_with_def)
  qed
next
  case False
  note go = step
  have stay: ?thesis if "pump_packet H R M e raw n (d, w) = Ret (Ok True, d, w)"
    by (rule go [OF _ that assms(3)]) (use False in simp)
  show ?thesis
  proof (cases "\<exists>off. vmbus_packet_type_from_u16 (packet_type e) = Some Completion \<and>
      nvsp_offset e = Some off \<and> off + 4 \<le> n")
    case True
    then obtain off where off: "vmbus_packet_type_from_u16 (packet_type e) = Some Completion"
      "nvsp_offset e = Some off" "off + 4 \<le> n" by blast
    show ?thesis
    proof (rule go)
      let ?d = "if get32 0 (take 4 (drop off raw)) = nvsp_message_type_as_u32 MtSendRndisPktComplete
        then d\<lparr>send_section_free := True\<rparr> else d"
      show "pump_packet H R M e raw n (d, w) = Ret (Ok True, ?d, w)"
        using off assms(4) by (simp add: pump_packet_def free_on_completion_def slice_def set_section_free_def
            try_op_def done_with_def)
      show "nv_inv (?d, w)" using assms(3) by (simp add: nv_inv_def)
    qed (use off in simp)
  next
    case c: False
    then show ?thesis
      using False
      by (intro stay) (auto simp: pump_packet_def done_with_def split: option.split vmbus_packet_type.split)
  qed
qed

section \<open>Lemmas: draining the receive ring\<close>

text \<open>While the host does not touch the rings, sends leave the receive ring alone.\<close>

definition ring_host_idle :: "ring_host \<Rightarrow> bool" where
  "ring_host_idle R \<longleftrightarrow> (\<forall>n p. R n p = p)"

lemma idle_ok: "ring_host_idle R \<Longrightarrow> ring_host_ok R"
  by (simp add: ring_host_idle_def ring_host_ok_def)

definition recv_is :: "ring_half \<Rightarrow> netvsc_device \<times> world \<Rightarrow> bool" where
  "recv_is r s \<longleftrightarrow> ch_recv (nv_channel (fst s)) = r"

lemma idle_turn: "ring_host_idle R \<Longrightarrow> ring_turn R ch = ch\<lparr>ch_turns := Suc (ch_turns ch)\<rparr>"
  by (simp add: ring_host_idle_def ring_turn_def)

lemma finish_send_recv:
  "finish_send H ch w sent = Ret (r, ch', w') \<Longrightarrow> ch_recv ch' = ch_recv ch"
  by (auto simp: finish_send_def Let_def bind_eq_Some_conv split: result.split_asm)

lemma recv_is_sends:
  assumes "ring_host_idle R"
  shows "keeps (recv_is r) (on_channel (nv_send H R payload tid))"
    and "keeps (recv_is r) (on_channel (nv_completion H R payload tid))"
  using finish_send_recv
  by (fastforce simp: keeps_def recv_is_def on_channel_def nv_send_def nv_completion_def chan_send_def
      send_completion_def idle_turn [OF assms] Let_def bind_eq_Some_conv)+

lemma recv_is_local:
  "keeps (recv_is r) (write_send_buf off bs)" "keeps (recv_is r) (set_section_free b)"
  by (auto simp: keeps_def recv_is_def write_send_buf_def set_section_free_def bind_eq_Some_conv)

lemma recv_is_keepalive:
  assumes "ring_host_idle R"
  shows "keeps (recv_is r) (answer_keepalive H R q)"
proof -
  have "keeps (recv_is r) (send_rndis_control_inner H R msg)" for msg
  proof -
    have "keeps (recv_is r) (try_op (write_send_buf 0 msg) (\<lambda>u. on_channel (nv_send H R (nvsp_message_padded
          (build_nvsp_send_rndis_pkt 1 0 (of_nat (length msg)))) 0)))"
      by (intro keeps_try_op recv_is_local recv_is_sends assms)
    then show ?thesis
      by (auto simp: keeps_def send_rndis_control_inner_def fail_with_def split: if_splits)
  qed
  then have "keeps (recv_is r) (ignore_result (send_rndis_control_inner H R msg))" for msg
    by (rule keeps_ignore)
  then show ?thesis
    by (simp add: keeps_def answer_keepalive_def keepalive_cmplt slice_def)
qed

lemma keepalive_or_skip:
  assumes "(case r of RnKeepAlive q \<Rightarrow> f q | _ \<Rightarrow> g) = y"
  shows "(\<exists>q. f q = y) \<or> g = y"
  using assms by (cases r) auto

text \<open>What the parts of the data path keep, its packet handler keeps.\<close>

lemma pump_packet_keeps:
  assumes comp: "\<And>payload tid. keeps I (on_channel (nv_completion H R payload tid))"
    and ka: "\<And>q. keeps I (answer_keepalive H R q)"
    and free: "keeps I (set_section_free True)"
    and pend: "\<And>d w p. I (d, w) \<Longrightarrow> I (d\<lparr>nv_pending_rx := Some p\<rparr>, w)"
  shows "keeps I (pump_packet H R M e raw n)"
proof -
  have queue: "keeps I (queue_frame H R buf k)" for buf k
    unfolding keeps_def
  proof (intro allI impI)
    fix s x s' assume i: "I s" and q: "queue_frame H R buf k s = Ret (x, s')"
    have "s' = s \<or> (\<exists>p. s' = ((fst s)\<lparr>nv_pending_rx := Some p\<rparr>, snd s)) \<or> (\<exists>k. answer_keepalive H R k s = Ret (x, s'))"
      using q by (auto simp: queue_frame_def done_with_def bind_eq_Some_conv
          split: if_splits option.split_asm dest!: keepalive_or_skip)
    then show "I s'"
    proof (elim disjE exE)
      show "I s'" if "answer_keepalive H R k s = Ret (x, s')" for k
        using ka that i by (rule keeps_D)
    qed (use i pend [of "fst s" "snd s"] in simp_all)
  qed
  note k = keeps_try_op [OF keeps_ignore [OF comp] keeps_try_op [OF queue keeps_done]]
  have f: "keeps I (try_op (free_on_completion raw off) (\<lambda>u. done_with True))" for off
  proof (intro keeps_try_op keeps_done)
    show "keeps I (free_on_completion raw off)"
      using free by (auto simp: keeps_def free_on_completion_def done_with_def bind_eq_Some_conv split: if_splits)
  qed
  show ?thesis
    unfolding keeps_def pump_packet_def
    by (auto simp: done_with_def bind_eq_Some_conv split: option.split_asm vmbus_packet_type.split_asm if_splits
        dest: keeps_D [OF k] keeps_D [OF f])
qed

lemma pump_loop_keeps:
  assumes "\<And>raw. keeps I (next_packet R raw)" "\<And>e raw n. keeps I (pump_packet H R M e raw n)"
  shows "keeps I (pump_loop fuel H R M raw)"
proof (induction fuel arbitrary: raw)
  case (Suc fuel)
  have "keeps I (case x of (p, raw) \<Rightarrow> case p of None \<Rightarrow> done_with ()
     | Some (desc, raw_len) \<Rightarrow> try_op (pump_packet H R M desc raw raw_len) (\<lambda>more.
         if more then pump_loop fuel H R M raw else done_with ()))" for x
    using Suc assms(2) by (auto simp: keeps_done intro!: keeps_try_op split: prod.split option.split)
  with assms(1) show ?case by (simp add: keeps_try_op)
qed (simp add: keeps_def)

lemma recv_is_pump: "ring_host_idle R \<Longrightarrow> keeps (recv_is r) (pump_packet H R M e raw n)"
  by (intro pump_packet_keeps recv_is_sends recv_is_keepalive recv_is_local) (simp_all add: recv_is_def)

text \<open>The section and what is in it: nothing writes to the send buffer while its section is in use.\<close>

definition untouched :: "bool \<Rightarrow> bytes \<Rightarrow> netvsc_device \<times> world \<Rightarrow> bool" where
  "untouched free mem s \<longleftrightarrow> send_section_free (fst s) \<or> (nv_send_mem (fst s) = mem \<and> \<not> free)"

lemma untouched_on_channel: "keeps (untouched b m) (on_channel c)"
  by (auto simp: keeps_def untouched_def on_channel_def bind_eq_Some_conv)

lemma untouched_next_packet: "keeps (untouched b m) (next_packet R raw)"
  by (auto simp: keeps_def untouched_def next_packet_def bind_eq_Some_conv)

lemma untouched_keepalive: "keeps (untouched b m) (answer_keepalive H R q)"
proof -
  have c: "keeps (\<lambda>s. send_section_free (fst s)) (try_op (write_send_buf 0 msg) (\<lambda>u. on_channel c))" for msg and c :: "unit ch_run"
    by (intro keeps_try_op) (auto simp: keeps_def write_send_buf_def on_channel_def bind_eq_Some_conv)
  have "keeps (untouched b m) (send_rndis_control_inner H R msg)" for msg
    unfolding keeps_def
  proof (intro allI impI)
    fix s r s' assume "untouched b m s" "send_rndis_control_inner H R msg s = Ret (r, s')"
    then show "untouched b m s'"
      using keeps_D [OF c [of msg "nv_send H R (nvsp_message_padded
          (build_nvsp_send_rndis_pkt 1 0 (of_nat (length msg)))) 0"], of s r s']
      by (cases "send_section_free (fst s)") (simp_all add: send_rndis_control_inner_def untouched_def fail_with_def)
  qed
  then have "keeps (untouched b m) (ignore_result (send_rndis_control_inner H R msg))" for msg
    by (rule keeps_ignore)
  then show ?thesis
    by (simp add: keeps_def answer_keepalive_def keepalive_cmplt slice_def)
qed

lemma untouched_pump: "keeps (untouched b m) (pump_channel fuel H R M)"
  unfolding pump_channel_def
  by (intro pump_loop_keeps pump_packet_keeps untouched_on_channel untouched_keepalive untouched_next_packet)
    (auto simp: keeps_def untouched_def set_section_free_def)

lemma next_packet_idle:
  assumes "ring_host_idle R" "ring_holds (ch_recv (nv_channel d)) ps"
  shows "ps = [] \<Longrightarrow> next_packet R raw (d, w) =
      Ret (Ok (None, raw), d\<lparr>nv_channel := (nv_channel d)\<lparr>ch_turns := Suc (ch_turns (nv_channel d))\<rparr>\<rparr>, w)"
    and "ps = (e, body) # ps' \<Longrightarrow> \<exists>r. ring_holds r ps' \<and> next_packet R raw (d, w) =
      Ret (Ok (Some (e, min (length body) (length raw)), write_at 0 (take (length raw) body) raw),
        d\<lparr>nv_channel := (nv_channel d)\<lparr>ch_turns := Suc (ch_turns (nv_channel d)), ch_recv := r\<rparr>\<rparr>, w)"
proof -
  assume "ps = []"
  then show "next_packet R raw (d, w) =
      Ret (Ok (None, raw), d\<lparr>nv_channel := (nv_channel d)\<lparr>ch_turns := Suc (ch_turns (nv_channel d))\<rparr>\<rparr>, w)"
    using assms recv_head_empty [of "ch_recv (nv_channel d)"]
    by (simp add: next_packet_def try_recv_raw_def idle_turn recv_packet_raw_def map_ring_err_def)
next
  assume "ps = (e, body) # ps'"
  then have h: "ring_holds (ch_recv (nv_channel d)) ((e, body) # ps')" using assms(2) by simp
  show "\<exists>r. ring_holds r ps' \<and> next_packet R raw (d, w) =
      Ret (Ok (Some (e, min (length body) (length raw)), write_at 0 (take (length raw) body) raw),
        d\<lparr>nv_channel := (nv_channel d)\<lparr>ch_turns := Suc (ch_turns (nv_channel d)), ch_recv := r\<rparr>\<rparr>, w)"
    using advance_read_holds [OF h] recv_packet_raw_cons [OF h]
    by (intro exI [of _ "advance_read (ch_recv (nv_channel d)) (16 + length body)"])
      (simp add: next_packet_def try_recv_raw_def idle_turn [OF assms(1)] map_ring_err_def)
qed

lemma pump_loop_drains:
  assumes "ring_host_idle R" "rx_mem_ok M" "nv_inv (d, w)" "ring_holds (ch_recv (nv_channel d)) ps"
    and "\<And>e body k. (e, body) \<in> set ps \<Longrightarrow>
      \<not> short_message (snd (xfer_message (M k) (take 512 body))) (fst (xfer_message (M k) (take 512 body)))"
    and "length ps < fuel" "length raw = 512"
  shows "\<exists>d' w' pre ps'. pump_loop fuel H R M raw (d, w) = Ret (Ok (), d', w') \<and> nv_inv (d', w') \<and>
    ps = pre @ ps' \<and> ring_holds (ch_recv (nv_channel d')) ps' \<and> (ps' = [] \<or> nv_pending_rx d' \<noteq> None)"
  using assms(3-)
proof (induction ps arbitrary: d w fuel raw)
  case Nil
  then obtain f where f: "fuel = Suc f" by (cases fuel) auto
  let ?d = "d\<lparr>nv_channel := (nv_channel d)\<lparr>ch_turns := Suc (ch_turns (nv_channel d))\<rparr>\<rparr>"
  have "pump_loop fuel H R M raw (d, w) = Ret (Ok (), ?d, w)"
    using next_packet_idle(1) [OF assms(1) Nil.prems(2)] f by (simp add: try_op_def done_with_def)
  then show ?case using Nil.prems(1,2) by (auto simp: nv_inv_def chan_inv_def)
next
  case (Cons p ps)
  obtain e body where p: "p = (e, body)" by (cases p)
  obtain f where f: "fuel = Suc f" "length ps < f" using Cons.prems(4) by (cases fuel) auto
  let ?n = "min (length body) (length raw)" and ?raw = "write_at 0 (take (length raw) body) raw"
  from next_packet_idle(2) [OF assms(1) Cons.prems(2) [unfolded p] refl, of raw w] obtain r where
    r: "ring_holds r ps" "next_packet R raw (d, w) = Ret (Ok (Some (e, ?n), ?raw),
        d\<lparr>nv_channel := (nv_channel d)\<lparr>ch_turns := Suc (ch_turns (nv_channel d)), ch_recv := r\<rparr>\<rparr>, w)"
    by blast
  define d1 where "d1 = d\<lparr>nv_channel := (nv_channel d)\<lparr>ch_turns := Suc (ch_turns (nv_channel d)), ch_recv := r\<rparr>\<rparr>"
  have i1: "nv_inv (d1, w)" and h1: "ring_holds (ch_recv (nv_channel d1)) ps"
    using Cons.prems(1) r(1) by (simp_all add: d1_def nv_inv_def chan_inv_def ring_holds_def)
  have lr: "length ?raw = 512" "?n \<le> length ?raw" "take ?n ?raw = take 512 body"
    using Cons.prems(5) by (simp_all add: min_def write_at_def)
  have eq: "pump_loop fuel H R M raw (d, w) = try_op (pump_packet H R M e ?raw ?n) (\<lambda>more.
         if more then pump_loop f H R M ?raw else done_with ()) (d1, w)"
    using r(2) f(1) by (simp add: try_op_Ok d1_def)
  from idle_ok [OF assms(1)] assms(2) i1 lr(2) show ?case
  proof (cases rule: pump_packet_cases [where H = H and e = e])
    case abort
    then show ?thesis using Cons.prems(3) [of e body] p lr(3) by simp
  next
    case full
    then have "pump_loop fuel H R M raw (d, w) = Ret (Ok (), d1, w)"
      unfolding eq by (simp add: try_op_def done_with_def)
    then show ?thesis using i1 h1 full(2) by (intro exI [of _ d1] exI [of _ w] exI [of _ "[p]"] exI [of _ ps]) simp
  next
    case (step s')
    obtain d2 w2 where s': "s' = (d2, w2)" by (cases s')
    have "recv_is (ch_recv (nv_channel d1)) s'"
      using recv_is_pump [OF assms(1)] step(2) by (rule keeps_D) (simp add: recv_is_def)
    then have h2: "ring_holds (ch_recv (nv_channel d2)) ps" using h1 s' by (simp add: recv_is_def)
    have eq2: "pump_loop fuel H R M raw (d, w) = pump_loop f H R M ?raw (d2, w2)"
      unfolding eq using step(2) s' by (simp add: try_op_Ok)
    from Cons.IH [OF step(3) [unfolded s'] h2 _ f(2) lr(1)] Cons.prems(3) obtain d' w' pre ps' where
      "pump_loop f H R M ?raw (d2, w2) = Ret (Ok (), d', w')" "nv_inv (d', w')" "ps = pre @ ps'"
      "ring_holds (ch_recv (nv_channel d')) ps'" "ps' = [] \<or> nv_pending_rx d' \<noteq> None"
      by (metis list.set_intros(2))
    then show ?thesis unfolding eq2
      by (intro exI [of _ d'] exI [of _ w'] exI [of _ "p # pre"] exI [of _ ps']) simp
  qed
qed

section \<open>Lemmas: transmitting\<close>

lemma length_rndis_packet_header [simp]: "length (rndis_packet_header n) = 44"
  by (simp add: rndis_packet_header_def)

lemma header_wire:
  assumes "length frame = n"
  shows "rndis_packet_header n @ frame = rndis_wire RmPacket
     (le32 36 @ le32 (of_nat n) @ zeros 12 @ le32 36 @ zeros 12 @ frame)"
  using assms by (simp add: rndis_packet_header_def rndis_wire_def netvsc_sizes)

lemma extract_own_frame:
  assumes "length frame = n" "44 + n \<le> NETVSC_SEND_BUF_SIZE"
  shows "extract_eth_frame (rndis_packet_header n @ frame @ rest) (44 + n) =
    Ret (Some n, frame @ drop n (rndis_packet_header n @ frame @ rest))"
proof -
  let ?body = "le32 36 @ le32 (of_nat n) @ zeros 12 @ le32 36 @ zeros 12 @ frame"
  let ?buf = "rndis_packet_header n @ frame @ rest"
  have n: "n < 2 ^ 31" using assms(2) by (simp add: NETVSC_SEND_BUF_SIZE_def)
  then have un: "unat (of_nat n :: u32) = n" by (simp add: unat_of_nat)
  have lb: "length ?body < 2 ^ 31 + 64" using n assms(1) by simp
  have c: "cast_ref 36 ?body = Some (take 36 ?body)" by (simp add: cast_ref_def)
  have "get32 0 (take 36 ?body) = 36" "get32 4 (take 36 ?body) = of_nat n"
    by (simp_all add: slice_simps)
  then have p: "parse_rndis_response (rndis_packet_header n @ frame) =
      Ret (Some (RnPacket 36 (of_nat n) (rndis_packet_header n @ frame)))"
    using parse_rndis_wire [OF lb, of RmPacket "[]"] c header_wire [OF assms(1)] by simp
  have t: "take (44 + n) ?buf = rndis_packet_header n @ frame" using assms(1) by simp
  have f: "slice 44 (44 + n) ?buf = Ret frame" using assms(1) by (simp add: slice_def)
  have "slice 0 (44 + n) ?buf = Ret (rndis_packet_header n @ frame)"
    using t assms(1) by (simp add: slice_def)
  then show ?thesis
    using p f un assms(1) by (simp add: extract_eth_frame_def netvsc_sizes Let_def patch_total)
qed

lemma write_at_app: "length bs \<le> length xs \<Longrightarrow> write_at 0 bs xs = bs @ drop (length bs) xs"
  by (simp add: write_at_def)

text \<open>Room for one NVSP message, 64 bytes with its descriptor and trailer, in the outgoing ring at the next send.\<close>

definition send_room :: "ring_host \<Rightarrow> channel \<Rightarrow> bool" where
  "send_room R ch \<longleftrightarrow> (let q = ch_send (ring_turn R ch) in 64 < data_size q - fill q)"

lemma chan_send_result:
  assumes "ring_host_ok R" "chan_inv ch" "length payload = 40"
  shows "\<exists>ch' w'. chan_send H R ch payload tid w =
    Ret (if send_room R ch then Ok () else Err (HypercallFailed 0xFFFF), ch', w') \<and> chan_inv ch'"
proof -
  let ?q = "ch_send (ring_turn R ch)"
  have q: "ring_inv ?q" using ring_turn_inv [OF assms(1,2)] by (simp add: chan_inv_def)
  have n: "align8 (16 + length payload) + 8 = 64" using assms(3) by (simp add: align8_def)
  from chan_send_total [OF assms(1,2)] obtain r ch' w' where
    c: "chan_send H R ch payload tid w = Ret (r, ch', w')" "chan_inv ch'" by blast
  have "r = (if send_room R ch then Ok () else Err (HypercallFailed 0xFFFF))"
  proof (cases "send_room R ch")
    case True
    then have sp: "data_size ?q - fill ?q > align8 (16 + length payload) + 8" by (simp add: n send_room_def Let_def)
    obtain d body where f: "(d, body) = frame_packet 16 VM_PKT_DATA_INBAND VMBUS_DATA_PACKET_FLAG_COMPLETION_REQUESTED tid
        (concat []) payload"
      by (metis surj_pair)
    from send_frame_stream [OF q sp _ f] obtain q' where
      "send_packet ?q payload tid VMBUS_DATA_PACKET_FLAG_COMPLETION_REQUESTED = Ret (Ok (), q')"
      by (auto simp: send_packet_def)
    then show ?thesis using c True by (simp add: chan_send_def finish_send_def Let_def)
  next
    case False
    then have "data_size ?q - fill ?q \<le> align8 (16 + length payload) + 8" by (simp add: n send_room_def Let_def)
    from send_frame_Full [OF q this]
    have "send_packet ?q payload tid VMBUS_DATA_PACKET_FLAG_COMPLETION_REQUESTED = Ret (Err Full, ?q)"
      by (simp add: send_packet_def)
    then show ?thesis using c False by (simp add: chan_send_def finish_send_def Let_def)
  qed
  then show ?thesis using c by blast
qed

lemma build_and_send_spec:
  fixes f :: "'r on_slice"
  assumes "ring_host_ok R" "nv_inv (d, w)" "44 + n \<le> NETVSC_SEND_BUF_SIZE" "next_txid d \<noteq> - 1"
    and kl: "keeps_length f"
  obtains p r d' w' where "length p = n" "build_and_send H R n f (d, w) = Ret (r, d', w')"
    "nv_inv (d', w')" "\<not> send_section_free d'" "next_txid d' = next_txid d + 1"
    "nv_send_mem d' = rndis_packet_header n @ fst (f p) @ drop (44 + n) (nv_send_mem d)"
    "r = (if send_room R (nv_channel d) then Ok (snd (f p)) else Err (HypercallFailed 0xFFFF))"
proof -
  note len = kl [unfolded keeps_length_def, rule_format]
  let ?h = "rndis_packet_header n"
  let ?msg = "nvsp_message_padded (build_nvsp_send_rndis_pkt 0 0 (of_nat (44 + n)))"
  have l: "length (nv_send_mem d) = NETVSC_SEND_BUF_SIZE" using assms(2) by (simp add: nv_inv_def)
  define p where "p = take n (drop 44 (nv_send_mem d))"
  have lp: "length p = n" using l assms(3) by (simp add: p_def)
  define mem where "mem = ?h @ fst (f p) @ drop (44 + n) (nv_send_mem d)"
  have lm: "length mem = NETVSC_SEND_BUF_SIZE" using l assms(3) lp len by (simp add: mem_def)
  have w1: "patch 0 ?h (nv_send_mem d) = Ret (?h @ drop 44 (nv_send_mem d))"
    using patch_total [of ?h "nv_send_mem d"] l assms(3) by simp
  have w2: "slice 44 (44 + n) (?h @ drop 44 (nv_send_mem d)) = Ret p"
    using l assms(3) by (simp add: slice_def p_def)
  have w3: "patch 44 (fst (f p)) (?h @ drop 44 (nv_send_mem d)) = Ret mem"
    using l assms(3) lp len [of p] by (simp add: patch_def write_at_def mem_def add.commute)
  define d1 where "d1 = d\<lparr>nv_send_mem := mem, next_txid := next_txid d + 1, send_section_free := False\<rparr>"
  have i1: "nv_inv (d1, w)" using assms(2) lm by (simp add: d1_def nv_inv_def)
  have eq: "build_and_send H R n f (d, w) =
      try_op (on_channel (nv_send H R ?msg (next_txid d))) (\<lambda>u. done_with (snd (f p))) (d1, w)"
    using w1 w2 w3 assms(4)
    by (simp add: build_and_send_def Let_def netvsc_sizes write_send_buf_def try_op_def take_txid_def
        set_section_free_def case_prod_beta d1_def)
  have "chan_inv (nv_channel d1)" using i1 by (simp add: nv_inv_def)
  moreover have "length ?msg = 40"
    by (simp add: nvsp_message_padded_def NVSP_MESSAGE_SIZE_def build_nvsp_send_rndis_pkt_def nvsp_message_def)
  ultimately obtain ch w' where s: "chan_send H R (nv_channel d1) ?msg (next_txid d) w =
      Ret (if send_room R (nv_channel d) then Ok () else Err (HypercallFailed 0xFFFF), ch, w')" "chan_inv ch"
    using chan_send_result [OF assms(1)] by (force simp: d1_def)
  have "build_and_send H R n f (d, w) =
      Ret (if send_room R (nv_channel d) then Ok (snd (f p)) else Err (HypercallFailed 0xFFFF), d1\<lparr>nv_channel := ch\<rparr>, w')"
    unfolding eq using s by (simp add: try_op_def on_channel_def nv_send_def done_with_def)
  then show ?thesis by (rule that [OF lp]) (use i1 s(2) in \<open>simp_all add: d1_def nv_inv_def mem_def\<close>)
qed

lemma build_and_send_never: "never Timeout (build_and_send H R n f)"
proof -
  have w: "never Timeout (write_send_buf off bs)" for off bs
    by (auto simp: never_def write_send_buf_def bind_eq_Some_conv)
  have c: "never Timeout (on_channel (nv_send H R payload tid))" for payload tid
    by (auto simp: never_def on_channel_def nv_send_def chan_send_def finish_send_def Let_def bind_eq_Some_conv
        split: result.split_asm)
  have tail: "never Timeout (try_op (write_send_buf RNDIS_PACKET_HDR_SIZE payload) (\<lambda>u.
       try_op take_txid (\<lambda>txid. try_op (set_section_free False) (\<lambda>u.
       try_op (on_channel (nv_send H R (nvsp_message_padded
         (build_nvsp_send_rndis_pkt 0 0 (of_nat (RNDIS_PACKET_HDR_SIZE + n)))) txid)) (\<lambda>u. done_with res)))))"
    for payload and res :: 'a
    by (intro never_try_op w c never_done) (simp_all add: never_def take_txid_def set_section_free_def)
  have "never Timeout (try_op (write_send_buf 0 (rndis_packet_header n)) (\<lambda>u s. do {
       payload \<leftarrow> slice RNDIS_PACKET_HDR_SIZE (RNDIS_PACKET_HDR_SIZE + n) (nv_send_mem (fst s));
       let (payload, result) = f payload in
       try_op (write_send_buf RNDIS_PACKET_HDR_SIZE payload) (\<lambda>u.
       try_op take_txid (\<lambda>txid. try_op (set_section_free False) (\<lambda>u.
       try_op (on_channel (nv_send H R (nvsp_message_padded
         (build_nvsp_send_rndis_pkt 0 0 (of_nat (RNDIS_PACKET_HDR_SIZE + n)))) txid)) (\<lambda>u. done_with result)))) s }))"
    using tail by (intro never_try_op w) (auto simp: never_def bind_eq_Some_conv case_prod_beta Let_def)
  then show ?thesis by (simp add: never_def build_and_send_def Let_def)
qed

section \<open>Runs of the data path\<close>

text \<open>
  The states a driver reaches from \<open>s0\<close> by any sequence of the four operations the network stack
  calls, with closures that keep the length of the slice they are given.
\<close>

inductive nv_reach :: "host \<Rightarrow> ring_host \<Rightarrow> rx_mem \<Rightarrow> netvsc_device \<times> world \<Rightarrow> netvsc_device \<times> world \<Rightarrow> bool"
  for H R M s0 where
  reach_init: "nv_reach H R M s0 s0"
| reach_tx_space: "nv_reach H R M s0 s \<Longrightarrow> nv_has_tx_space fuel H R M s = Ret (r, s') \<Longrightarrow> nv_reach H R M s0 s'"
| reach_rx_packet: "nv_reach H R M s0 s \<Longrightarrow> nv_has_rx_packet fuel H R M s = Ret (r, s') \<Longrightarrow> nv_reach H R M s0 s'"
| reach_transmit: "nv_reach H R M s0 s \<Longrightarrow> keeps_length f \<Longrightarrow>
    nv_transmit_with fuel H R M n (f :: unit on_slice) s = Ret (r', s') \<Longrightarrow> nv_reach H R M s0 s'"
| reach_recv: "nv_reach H R M s0 (d, w) \<Longrightarrow> nv_recv_with (g :: unit on_slice) d = Ret (r'', d') \<Longrightarrow> nv_reach H R M s0 (d', w)"

lemma pump_channel_inv:
  assumes "ring_host_ok R" "rx_mem_ok M"
  shows "keeps nv_inv (pump_channel fuel H R M)"
proof -
  have "nv_inv s'" if "pump_loop fuel H R M raw s = Ret (r, s')" "nv_inv s" "length raw = 512" for raw s r s'
    using that
  proof (induction fuel arbitrary: raw s)
    case (Suc fuel)
    obtain d w where s: "s = (d, w)" by (cases s)
    from next_packet_keeps [OF assms(1) Suc.prems(2) [unfolded s], of raw] obtain x d1 where
      n: "next_packet R raw s = Ret (x, d1, w)" "nv_inv (d1, w)"
        "case x of Ok (p, raw') \<Rightarrow> length raw' = length raw \<and> (\<forall>e n. p = Some (e, n) \<longrightarrow> n \<le> length raw) | Err e \<Rightarrow> True"
      using s by blast
    show ?case
    proof (cases x)
      case (Err e)
      then show ?thesis using n Suc.prems(1) by (simp add: try_op_def)
    next
      case (Ok y)
      obtain p raw' where y: "y = (p, raw')" by (cases y)
      show ?thesis
      proof (cases p)
        case None
        then show ?thesis using n y Ok Suc.prems(1) by (simp add: try_op_def done_with_def)
      next
        case (Some q)
        obtain e k where q: "q = (e, k)" by (cases q)
        have k: "k \<le> length raw'" "length raw' = 512" using n(3) Suc.prems(3) Ok y Some q by auto
        have eq: "pump_loop (Suc fuel) H R M raw s = try_op (pump_packet H R M e raw' k) (\<lambda>more.
            if more then pump_loop fuel H R M raw' else done_with ()) (d1, w)"
          using n(1) y Ok Some q by (simp add: try_op_Ok)
        from assms n(2) k(1) show ?thesis
        proof (cases rule: pump_packet_cases [where H = H and e = e])
          case (step s1)
          then have "pump_loop fuel H R M raw' s1 = Ret (r, s')"
            using Suc.prems(1) eq by (simp add: try_op_def)
          then show ?thesis using Suc.IH step(3) k(2) by blast
        qed (use Suc.prems(1) eq n(2) in \<open>auto simp: try_op_def done_with_def\<close>)
      qed
    qed
  qed simp
  then show ?thesis by (auto simp: keeps_def pump_channel_def)
qed

lemma transmit_inv:
  assumes "ring_host_ok R" "rx_mem_ok M" "keeps_length f"
  shows "keeps nv_inv (nv_transmit_with fuel H R M n f)"
proof -
  have b: "nv_inv s'" if "build_and_send H R n f s = Ret (r, s')" "nv_inv s" "44 + n \<le> NETVSC_SEND_BUF_SIZE" for s r s'
  proof -
    obtain d w where s: "s = (d, w)" by (cases s)
    have "next_txid d \<noteq> - 1"
    proof
      assume t: "next_txid d = - 1"
      have "build_and_send H R n f s = Panic"
        using t s
        by (auto simp: build_and_send_def Let_def try_op_def write_send_buf_def take_txid_def case_prod_beta
            split: option.split prod.split bind_split)
      with that(1) show False by simp
    qed
    with build_and_send_spec [OF assms(1) that(2) [unfolded s] that(3) _ assms(3)] that(1) s
    show ?thesis by (metis option.inject prod.inject)
  qed
  show ?thesis
    unfolding keeps_def
  proof (intro allI impI)
    fix s r s' assume i: "nv_inv s" and t: "nv_transmit_with fuel H R M n f s = Ret (r, s')"
    have le: "44 + n \<le> NETVSC_SEND_BUF_SIZE"
      using t by (simp add: nv_transmit_with_def assert_run_def netvsc_sizes split: if_splits)
    consider "build_and_send H R n f s = Ret (r, s')"
      | s1 where "ignore_result (pump_channel fuel H R M) s = Ret (Ok (), s1)"
        "build_and_send H R n f s1 = Ret (r, s') \<or> s' = s1"
      using t by (fastforce simp: nv_transmit_with_def assert_run_def ignore_result_def try_op_def fail_with_def
          split: if_splits option.split_asm)
    then show "nv_inv s'"
    proof cases
      case 2
      have "nv_inv s1"
        using keeps_ignore [OF pump_channel_inv [OF assms(1,2)]] 2(1) i by (rule keeps_D)
      then show ?thesis using 2(2) b le by blast
    qed (use b i le in blast)
  qed
qed

section \<open>Properties\<close>

text \<open>
  C2.  On every state a driver reaches by calling \<open>has_tx_space\<close>, \<open>has_rx_packet\<close>, \<open>transmit_with\<close> and
  \<open>recv_with\<close> in any order, against a host that writes arbitrary packets and arbitrary bytes into the
  rings and the receive buffer (but keeps ring indices inside the rings), the device invariant
  holds: rings well-formed, buffers of their sizes, a queued frame within its buffer.  Hence taking
  out a received frame never aborts, and it passes the stack a frame of at most 1600 bytes.
\<close>

theorem nv_reachable_safe:
  assumes "ring_host_ok R" "rx_mem_ok M" "nv_inv s0" "nv_reach H R M s0 s"
  shows "nv_inv s \<and> (\<exists>r d'. nv_recv_with f (fst s) = Ret (r, d') \<and> nv_pending_rx d' = None \<and>
    (\<forall>x. r = Some x \<longrightarrow> (\<exists>frame. x = snd (f frame) \<and> length frame \<le> RX_FRAME_MAX)))"
proof -
  have recv: "\<exists>r d'. nv_recv_with f d = Ret (r, d') \<and> nv_pending_rx d' = None \<and> nv_inv (d', w) \<and>
      (\<forall>x. r = Some x \<longrightarrow> (\<exists>frame. x = snd (f frame) \<and> length frame \<le> RX_FRAME_MAX))"
    if "nv_inv (d, w)" for d w and f :: "'z on_slice"
    using that by (cases "nv_pending_rx d") (force simp: nv_recv_with_def nv_inv_def slice_def)+
  note pump = keeps_ignore [OF pump_channel_inv [OF assms(1,2)]]
  have "nv_inv s" using assms(4,3)
  proof (induction rule: nv_reach.induct)
    case (reach_tx_space s fuel r s')
    have "keeps nv_inv (nv_has_tx_space fuel H R M)"
      unfolding nv_has_tx_space_def by (intro keeps_try_op pump) (simp add: keeps_def done_with_def)
    then show ?case using reach_tx_space by (blast dest: keeps_D)
  next
    case (reach_rx_packet s fuel r s')
    have "keeps nv_inv (nv_has_rx_packet fuel H R M)"
      unfolding nv_has_rx_packet_def by (intro keeps_try_op pump) (simp add: keeps_def done_with_def)
    then show ?case using reach_rx_packet by (blast dest: keeps_D)
  next
    case (reach_transmit s f fuel n r' s')
    then show ?case using keeps_D [OF transmit_inv [OF assms(1,2)]] by blast
  next
    case (reach_recv d w g r'' d')
    then show ?case using recv [of d w g] by auto
  qed simp
  then show ?thesis using recv [of "fst s" "snd s" f] by auto
qed

definition packet_ring :: "u16 \<Rightarrow> ring_half" where
  "packet_ring ty = \<lparr>write_index = 24, read_index = 0, feature_bits = 1, data_size = 64,
     ring_data = desc_bytes \<lparr>packet_type = ty, offset8 = 2, len8 = 2, flags = 0, transaction_id = 5\<rparr> @ zeros 48\<rparr>"

definition demo_nic :: "u16 \<Rightarrow> pending_rx option \<Rightarrow> netvsc_device" where
  "demo_nic ty queued = (netvsc_new \<lparr>ch_child_relid = 4, ch_connection_id = 7, ch_ring_buf = dma_at demo_host 0,
     ch_gpadl_handle = 1, ch_send = packet_ring 6, ch_recv = packet_ring ty,
     ch_hcall = \<lparr>hp_page = dma_at demo_host 0, msg_buffer = dma_at demo_host 1\<rparr>, ch_turns = 0\<rparr>
     (dma_at demo_host 2, 2) (dma_at demo_host 3, 3) 0x50000)\<lparr>nv_pending_rx := queued\<rparr>"

lemma packet_ring_holds: "ring_holds (packet_ring ty)
    [(\<lparr>packet_type = ty, offset8 = 2, len8 = 2, flags = 0, transaction_id = 5\<rparr>, [])]"
proof -
  have i: "ring_inv (packet_ring ty)" by (simp add: ring_inv_def ring_shape_def packet_ring_def)
  have f: "fill (packet_ring ty) = 24" by (simp add: fill_def packet_ring_def)
  have "stream (packet_ring ty) = take 24 (ring_data (packet_ring ty))"
    unfolding stream_def f by (rule nth_equalityI) (simp_all add: packet_ring_def del: take_append)
  then show ?thesis using i by (simp add: ring_holds_def packet_ring_def)
qed

lemma demo_nic_inv:
  "ring_host_ok (\<lambda>n p. p)" "ring_host_idle (\<lambda>n p. p)" "rx_mem_ok (\<lambda>n. zeros NETVSC_RECV_BUF_SIZE)"
  "(\<forall>p. queued = Some p \<longrightarrow> length (rx_data p) = RX_FRAME_MAX \<and> rx_len p \<le> RX_FRAME_MAX) \<Longrightarrow> nv_inv (demo_nic ty queued, w)"
  using packet_ring_holds
  by (auto simp: ring_host_ok_def ring_host_idle_def rx_mem_ok_def nv_inv_def demo_nic_def netvsc_new_def
      chan_inv_def ring_holds_def split: option.split)

theorem nv_reachable_safe_witness:
  "\<exists>r d'. nv_recv_with (\<lambda>p. (p, length p)) (demo_nic 7 (Some \<lparr>rx_data = zeros RX_FRAME_MAX, rx_len = 60\<rparr>)) = Ret (r, d') \<and>
     nv_inv (demo_nic 7 (Some \<lparr>rx_data = zeros RX_FRAME_MAX, rx_len = 60\<rparr>), demo_world) \<and>
     (\<forall>x. r = Some x \<longrightarrow> (\<exists>frame. x = length frame \<and> length (frame :: bytes) \<le> RX_FRAME_MAX))"
proof -
  have i: "nv_inv (demo_nic 7 (Some \<lparr>rx_data = zeros RX_FRAME_MAX, rx_len = 60\<rparr>), demo_world)"
    by (rule demo_nic_inv) (simp add: RX_FRAME_MAX_def)
  from nv_reachable_safe [OF demo_nic_inv(1,3) i reach_init, of "\<lambda>p. (p, length p)"] i show ?thesis by auto
qed

text \<open>
  C13.  A frame built by \<open>transmit_with\<close> is exactly what a receiver decodes: on a free section the send
  buffer then holds the RNDIS header and the bytes the closure wrote, from which
  \<open>extract_eth_frame\<close> recovers those bytes; the section is in use and the transaction id advanced.
  The operation succeeds with the closure's result or, when the ring is full, reports the failed
  send; in that case too the section stays marked in use, although no completion will free it.
\<close>

theorem transmit_frame_roundtrip:
  assumes "ring_host_ok R" "nv_inv (d, w)" "44 + n \<le> NETVSC_SEND_BUF_SIZE" "next_txid d \<noteq> - 1"
    and "send_section_free d" and "keeps_length f"
  shows "\<exists>p r d' w'. nv_transmit_with fuel H R M n f (d, w) = Ret (r, d', w') \<and> nv_inv (d', w') \<and>
    \<not> send_section_free d' \<and> next_txid d' = next_txid d + 1 \<and>
    r = (if send_room R (nv_channel d) then Ok (snd (f p)) else Err (HypercallFailed 0xFFFF)) \<and>
    length (fst (f p)) = n \<and> take (44 + n) (nv_send_mem d') = rndis_packet_header n @ fst (f p) \<and>
    (\<exists>buf. extract_eth_frame (nv_send_mem d') (44 + n) = Ret (Some n, buf) \<and> take n buf = fst (f p))"
proof -
  from build_and_send_spec [OF assms(1-4,6)] obtain p r d' w' where b:
    "length p = n" "build_and_send H R n f (d, w) = Ret (r, d', w')" "nv_inv (d', w')"
    "\<not> send_section_free d'" "next_txid d' = next_txid d + 1"
    "nv_send_mem d' = rndis_packet_header n @ fst (f p) @ drop (44 + n) (nv_send_mem d)"
    "r = (if send_room R (nv_channel d) then Ok (snd (f p)) else Err (HypercallFailed 0xFFFF))" by blast
  have l: "length (fst (f p)) = n" using assms(6) b(1) by (simp add: keeps_length_def)
  from extract_own_frame [OF l assms(3)] have
    "extract_eth_frame (nv_send_mem d') (44 + n) = Ret (Some n, fst (f p) @ drop n (nv_send_mem d'))"
    using b(6) by simp
  moreover have "nv_transmit_with fuel H R M n f (d, w) = Ret (r, d', w')"
    using b(2) assms(3,5) by (simp add: nv_transmit_with_def assert_run_def netvsc_sizes)
  ultimately show ?thesis using b l by (intro exI [of _ p] exI [of _ r] exI [of _ d'] exI [of _ w']) simp
qed

theorem transmit_frame_roundtrip_witness:
  "\<exists>r d' w' buf. nv_transmit_with 0 demo_host (\<lambda>n p. p) (\<lambda>n. zeros NETVSC_RECV_BUF_SIZE) 60
      (\<lambda>p. (replicate (length p) 9, ())) (demo_nic 6 None, demo_world) = Ret (r, d', w') \<and>
     extract_eth_frame (nv_send_mem d') 104 = Ret (Some 60, buf)"
proof -
  have i: "nv_inv (demo_nic 6 None, demo_world)" by (rule demo_nic_inv) simp
  have "44 + 60 \<le> NETVSC_SEND_BUF_SIZE" "next_txid (demo_nic 6 None) \<noteq> - 1" "send_section_free (demo_nic 6 None)"
    by (simp_all add: NETVSC_SEND_BUF_SIZE_def demo_nic_def netvsc_new_def)
  from transmit_frame_roundtrip [OF demo_nic_inv(1) i this,
      of "\<lambda>p. (replicate (length p) 9, ())" 0 demo_host "\<lambda>n. zeros NETVSC_RECV_BUF_SIZE"]
  show ?thesis by (fastforce simp: keeps_length_def)
qed

text \<open>
  C31.  While a transmitted message is in flight the send buffer is not written: if a pass over the
  channel ends with the section still in use, it was in use before and the buffer's bytes are
  unchanged; in particular a \<open>transmit_with\<close> that gives up with \<open>Timeout\<close>, and keepalives that
  arrive meanwhile, leave the outgoing frame intact.
\<close>

theorem inflight_untouched:
  assumes "pump_channel fuel H R M (d, w) = Ret (r, d', w') \<or>
      nv_transmit_with fuel H R M n f (d, w) = Ret (Err Timeout, d', w')"
    and "\<not> send_section_free d'"
  shows "\<not> send_section_free d \<and> nv_send_mem d' = nv_send_mem d"
proof -
  have start: "untouched (send_section_free d) (nv_send_mem d) (d, w)" by (simp add: untouched_def)
  have sent: "rr \<noteq> Err Timeout" if "build_and_send H R n f s = Ret (rr, s')" for s rr s'
    using build_and_send_never [of H R n f] that unfolding never_def by blast
  have "untouched (send_section_free d) (nv_send_mem d) (d', w')"
    using assms(1)
  proof
    assume "pump_channel fuel H R M (d, w) = Ret (r, d', w')"
    with untouched_pump show ?thesis using start by (rule keeps_D)
  next
    assume t: "nv_transmit_with fuel H R M n f (d, w) = Ret (Err Timeout, d', w')"
    have nf: "\<not> send_section_free d"
      using t sent [of "(d, w)" "Err Timeout"]
      by (auto simp: nv_transmit_with_def assert_run_def split: if_splits)
    have "ignore_result (pump_channel fuel H R M) (d, w) = Ret (Ok (), d', w')"
    proof (cases "pump_channel fuel H R M (d, w)")
      case None
      then show ?thesis using t nf
        by (simp add: nv_transmit_with_def assert_run_def ignore_result_def try_op_def split: if_splits)
    next
      case (Some y)
      obtain x s1 where y: "y = (x, s1)" by (cases y)
      have "(if send_section_free (fst s1) then build_and_send H R n f s1 else fail_with Timeout s1) =
          Ret (Err Timeout, d', w')"
        using t nf Some y
        by (simp add: nv_transmit_with_def assert_run_def ignore_result_def try_op_def split: if_splits)
      then have "s1 = (d', w')"
        using sent [of s1 "Err Timeout"] by (auto simp: fail_with_def split: if_splits)
      then show ?thesis using Some y by (simp add: ignore_result_def)
    qed
    with keeps_ignore [OF untouched_pump] show ?thesis using start by (rule keeps_D)
  qed
  then show ?thesis using assms(2) by (auto simp: untouched_def)
qed

theorem inflight_untouched_witness:
  "\<exists>d' w'. pump_channel (Suc (Suc 0)) demo_host (\<lambda>n p. p) (\<lambda>n. zeros NETVSC_RECV_BUF_SIZE)
     ((demo_nic 1 None)\<lparr>send_section_free := False\<rparr>, demo_world) = Ret (Ok (), d', w') \<and>
     \<not> send_section_free d' \<and> nv_send_mem d' = nv_send_mem (demo_nic 1 None)"
proof -
  let ?d = "(demo_nic 1 None)\<lparr>send_section_free := False\<rparr>"
  have h: "ring_holds (ch_recv (nv_channel ?d))
      [(\<lparr>packet_type = 1, offset8 = 2, len8 = 2, flags = 0, transaction_id = 5\<rparr>, [])]"
    using packet_ring_holds by (simp add: demo_nic_def netvsc_new_def)
  from next_packet_idle(2) [OF demo_nic_inv(2) h refl, of "zeros 512" demo_world] obtain r where
    r: "ring_holds r []" "next_packet (\<lambda>n p. p) (zeros 512) (?d, demo_world) =
      Ret (Ok (Some (\<lparr>packet_type = 1, offset8 = 2, len8 = 2, flags = 0, transaction_id = 5\<rparr>, 0),
        write_at 0 (take 512 []) (zeros 512)),
        ?d\<lparr>nv_channel := (nv_channel ?d)\<lparr>ch_turns := Suc (ch_turns (nv_channel ?d)), ch_recv := r\<rparr>\<rparr>, demo_world)"
    by auto
  let ?d1 = "?d\<lparr>nv_channel := (nv_channel ?d)\<lparr>ch_turns := Suc (ch_turns (nv_channel ?d)), ch_recv := r\<rparr>\<rparr>"
  have "ring_holds (ch_recv (nv_channel ?d1)) []" using r(1) by simp
  note n2 = next_packet_idle(1) [OF demo_nic_inv(2) this refl, of "write_at 0 (take 512 []) (zeros 512)" demo_world]
  let ?d2 = "?d1\<lparr>nv_channel := (nv_channel ?d1)\<lparr>ch_turns := Suc (ch_turns (nv_channel ?d1))\<rparr>\<rparr>"
  have p: "pump_channel (Suc (Suc 0)) demo_host (\<lambda>n p. p) (\<lambda>n. zeros NETVSC_RECV_BUF_SIZE) (?d, demo_world) =
      Ret (Ok (), ?d2, demo_world)"
    using r(2) n2
    by (simp add: pump_channel_def try_op_def pump_packet_def vmbus_packet_type_from_u16_def done_with_def)
  have nf: "\<not> send_section_free ?d2" by simp
  from inflight_untouched [OF disjI1 [OF p] nf] p show ?thesis by auto
qed

text \<open>
  C14.  Draining: on rings the host leaves alone, and with no malformed message among them, a pass
  with more fuel than there are packets returns successfully, having taken packets strictly from
  the front of the receive ring, and stops only when the ring is empty or a received frame waits
  to be picked up.
\<close>

theorem pump_channel_drains:
  assumes "ring_host_idle R" "rx_mem_ok M" "nv_inv (d, w)" "ring_holds (ch_recv (nv_channel d)) ps"
    and "\<And>e body k. (e, body) \<in> set ps \<Longrightarrow>
      \<not> short_message (snd (xfer_message (M k) (take 512 body))) (fst (xfer_message (M k) (take 512 body)))"
    and "length ps < fuel"
  shows "\<exists>d' w' pre ps'. pump_channel fuel H R M (d, w) = Ret (Ok (), d', w') \<and> nv_inv (d', w') \<and>
    ps = pre @ ps' \<and> ring_holds (ch_recv (nv_channel d')) ps' \<and> (ps' = [] \<or> nv_pending_rx d' \<noteq> None)"
  unfolding pump_channel_def by (rule pump_loop_drains [OF assms]) simp_all

theorem pump_channel_drains_witness:
  "\<exists>d' w' ps'. pump_channel (Suc (Suc 0)) demo_host (\<lambda>n p. p) (\<lambda>n. zeros NETVSC_RECV_BUF_SIZE)
     (demo_nic 7 None, demo_world) = Ret (Ok (), d', w') \<and> nv_inv (d', w') \<and>
     ring_holds (ch_recv (nv_channel d')) ps' \<and> (ps' = [] \<or> nv_pending_rx d' \<noteq> None)"
proof -
  have i: "nv_inv (demo_nic 7 None, demo_world)" by (rule demo_nic_inv) simp
  have h: "ring_holds (ch_recv (nv_channel (demo_nic 7 None)))
      [(\<lparr>packet_type = 7, offset8 = 2, len8 = 2, flags = 0, transaction_id = 5\<rparr>, [])]"
    using packet_ring_holds by (simp add: demo_nic_def netvsc_new_def)
  from pump_channel_drains [OF demo_nic_inv(2,3) i h, of "Suc (Suc 0)" demo_host] show ?thesis
    by (fastforce simp: xfer_message_def parse_xfer_page_packet_def short_message_def)
qed

text \<open>
  C32.  A received packet can be lost: when a frame is already queued, a pass takes the next data
  packet off the ring and drops it.  The packet is gone from the ring, the queued frame is
  unchanged, and nothing is put on the send ring, so the host never gets its completion.
\<close>

theorem pump_channel_loses:
  assumes "ring_host_idle R" "ring_holds (ch_recv (nv_channel d)) ((e, body) # ps)"
    and "packet_type e = VM_PKT_DATA_USING_XFER_PAGES" "nv_pending_rx d = Some p"
  shows "\<exists>d'. pump_channel (Suc fuel) H R M (d, w) = Ret (Ok (), d', w) \<and>
    ring_holds (ch_recv (nv_channel d')) ps \<and> nv_pending_rx d' = Some p \<and>
    ch_send (nv_channel d') = ch_send (nv_channel d)"
proof -
  from next_packet_idle(2) [OF assms(1,2) refl, of "zeros 512" w] obtain r where
    r: "ring_holds r ps" "next_packet R (zeros 512) (d, w) =
      Ret (Ok (Some (e, min (length body) 512), write_at 0 (take 512 body) (zeros 512)),
        d\<lparr>nv_channel := (nv_channel d)\<lparr>ch_turns := Suc (ch_turns (nv_channel d)), ch_recv := r\<rparr>\<rparr>, w)" by auto
  have "vmbus_packet_type_from_u16 (packet_type e) = Some DataUsingXferPages"
    using assms(3) by (simp add: vmbus_packet_type_from_u16_def VM_PKT_DATA_USING_XFER_PAGES_def)
  then show ?thesis
    using r assms(4) by (simp add: pump_channel_def try_op_def pump_packet_def done_with_def)
qed

theorem pump_channel_loses_witness:
  "\<exists>d'. pump_channel (Suc 0) demo_host (\<lambda>n p. p) (\<lambda>n. zeros NETVSC_RECV_BUF_SIZE)
     (demo_nic 7 (Some \<lparr>rx_data = zeros RX_FRAME_MAX, rx_len = 60\<rparr>), demo_world) = Ret (Ok (), d', demo_world) \<and>
     ring_holds (ch_recv (nv_channel d')) []"
proof -
  let ?q = "\<lparr>rx_data = zeros RX_FRAME_MAX, rx_len = 60\<rparr>"
  have h: "ring_holds (ch_recv (nv_channel (demo_nic 7 (Some ?q))))
      [(\<lparr>packet_type = 7, offset8 = 2, len8 = 2, flags = 0, transaction_id = 5\<rparr>, [])]"
    using packet_ring_holds by (simp add: demo_nic_def netvsc_new_def)
  have "nv_pending_rx (demo_nic 7 (Some ?q)) = Some ?q" by (simp add: demo_nic_def)
  from pump_channel_loses [OF demo_nic_inv(2) h _ this, of 0 demo_host "\<lambda>n. zeros NETVSC_RECV_BUF_SIZE" demo_world]
  show ?thesis by (auto simp: VM_PKT_DATA_USING_XFER_PAGES_def)
qed

text \<open>
  C33.  The only packets on which the data path aborts: a transfer-page packet, taken while no frame is
  queued, whose message is a data packet or a keepalive with a length field below eight.
\<close>

theorem pump_packet_aborts_iff:
  assumes "ring_host_ok R" "rx_mem_ok M" "nv_inv (d, w)" "n \<le> length raw"
    and "(rndis_len, buf) = xfer_message (M (ch_turns (nv_channel d))) (take n raw)"
  shows "pump_packet H R M e raw n (d, w) = Panic \<longleftrightarrow>
    packet_type e = VM_PKT_DATA_USING_XFER_PAGES \<and> nv_pending_rx d = None \<and> short_message buf rndis_len"
proof -
  have ty: "vmbus_packet_type_from_u16 (packet_type e) = Some DataUsingXferPages \<longleftrightarrow>
      packet_type e = VM_PKT_DATA_USING_XFER_PAGES"
    by (simp add: vmbus_packet_type_from_u16_def VM_PKT_DATA_USING_XFER_PAGES_def)
  have m: "fst (xfer_message (M (ch_turns (nv_channel d))) (take n raw)) = rndis_len"
    "snd (xfer_message (M (ch_turns (nv_channel d))) (take n raw)) = buf"
    using assms(5) by (metis fst_conv, metis snd_conv)
  from assms(1-4) show ?thesis
    by (cases rule: pump_packet_cases [where H = H and e = e]) (auto simp: ty m)
qed

theorem pump_packet_aborts_iff_witness:
  "pump_packet demo_host (\<lambda>n p. p) (\<lambda>n. write_at 0 (le32 1 @ le32 7) (zeros NETVSC_RECV_BUF_SIZE))
     \<lparr>packet_type = 7, offset8 = 2, len8 = 4, flags = 0, transaction_id = 5\<rparr>
     (le32 0 @ le32 1 @ le32 8 @ le32 0) 16 (demo_nic 7 None, demo_world) = Panic"
proof -
  let ?mem = "write_at 0 (le32 1 @ le32 7) (zeros NETVSC_RECV_BUF_SIZE)" and ?raw = "le32 0 @ le32 1 @ le32 8 @ le32 0"
  have i: "nv_inv (demo_nic 7 None, demo_world)" by (rule demo_nic_inv) simp
  have sz: "NETVSC_RECV_BUF_SIZE \<ge> 8" by (simp add: NETVSC_RECV_BUF_SIZE_def)
  then have m: "rx_mem_ok (\<lambda>n. ?mem)" by (simp add: rx_mem_ok_def)
  have f: "get32 4 ?raw = 1" "get32 8 ?raw = 8" "get32 12 ?raw = 0" by (simp_all add: slice_simps)
  have s: "slice 0 8 ?mem = Ret (le32 1 @ le32 7)" using sz by (simp add: slice_def write_at_def)
  have x: "xfer_message ?mem ?raw = (8, le32 1 @ le32 7 @ zeros 1592)"
    using sz f s by (simp add: xfer_message_def parse_xfer_page_packet_def Let_def netvsc_sizes patch_total zeros_def)
  have sh: "short_message (le32 1 @ le32 7 @ zeros 1592) 8"
    by (simp add: short_message_def slice_simps)
  have p: "nv_pending_rx (demo_nic 7 None) = None" by (simp add: demo_nic_def)
  have "(8, le32 1 @ le32 7 @ zeros 1592) =
      xfer_message ((\<lambda>n. ?mem) (ch_turns (nv_channel (demo_nic 7 None)))) (take 16 ?raw)"
    using x by simp
  from pump_packet_aborts_iff [OF demo_nic_inv(1) m i _ this] show ?thesis
    using sh p by (simp add: VM_PKT_DATA_USING_XFER_PAGES_def)
qed

end
