(* ===== verification/Nic.thy ===== *)
theory Nic
  imports E1000 Tulip Hv_Netvsc
begin

text \<open>
  The network-device interface of \<open>crates/embclox-driver/src/nic.rs\<close> and its three implementations in
  \<open>crates/embclox-driver/src/drivers\<close>.

  A trait object \<open>dyn EmbcloxNic\<close> is a record of operations on a state; the state is the device
  together with a flag that says whether its static waker holds a registered waker.  The callbacks
  are closures on a slice with a result, which the token's \<open>consume\<close> returns; an \<open>expect\<close> on a
  missing result is an abort.  Two locales state the halves of the trait's contract, \<open>recv_with\<close>
  after \<open>rx_ready\<close> and \<open>transmit_with\<close> after \<open>tx_ready\<close>; a third joins them.  They are interpreted on
  the three drivers as far as these keep them.
\<close>

section \<open>The trait and the adapter\<close>

record ('s, 'r) embclox_nic =
  rx_ready :: "'s \<Rightarrow> (bool \<times> 's) run"
  tx_ready :: "'s \<Rightarrow> (bool \<times> 's) run"
  register_waker :: "'s \<Rightarrow> 's"
  nic_recv_with :: "'r on_slice \<Rightarrow> 's \<Rightarrow> ('r \<times> 's) run"
  nic_transmit_with :: "nat \<Rightarrow> 'r on_slice \<Rightarrow> 's \<Rightarrow> ('r \<times> 's) run"

text \<open>\<open>DynNic::receive\<close> and \<open>transmit\<close>: whether tokens are handed out; if not, the waker is registered.\<close>

definition dyn_receive :: "('s, 'r) embclox_nic \<Rightarrow> 's \<Rightarrow> (bool \<times> 's) run" where
  "dyn_receive nic s = do {
     (rx, s) \<leftarrow> rx_ready nic s;
     (both, s) \<leftarrow> (if rx then tx_ready nic s else Ret (False, s));
     Ret (both, if both then s else register_waker nic s) }"

definition dyn_transmit :: "('s, 'r) embclox_nic \<Rightarrow> 's \<Rightarrow> (bool \<times> 's) run" where
  "dyn_transmit nic s = do {
     (tx, s) \<leftarrow> tx_ready nic s;
     Ret (tx, if tx then s else register_waker nic s) }"

definition rx_token_consume :: "('s, 'r) embclox_nic \<Rightarrow> 'r on_slice \<Rightarrow> 's \<Rightarrow> ('r \<times> 's) run" where
  "rx_token_consume nic f s = nic_recv_with nic f s"

definition tx_token_consume :: "('s, 'r) embclox_nic \<Rightarrow> nat \<Rightarrow> 'r on_slice \<Rightarrow> 's \<Rightarrow> ('r \<times> 's) run" where
  "tx_token_consume nic len f s = nic_transmit_with nic len f s"

section \<open>The drivers\<close>

definition expect_some :: "('r option \<times> 's) \<Rightarrow> ('r \<times> 's) run" where
  "expect_some p = (case fst p of Some r \<Rightarrow> Ret (r, snd p) | None \<Rightarrow> Panic)"

definition on_device :: "('d \<Rightarrow> ('a \<times> 'd) run) \<Rightarrow> 'd \<times> bool \<Rightarrow> ('a \<times> 'd \<times> bool) run" where
  "on_device m s = do { (r, d) \<leftarrow> m (fst s); Ret (r, d, snd s) }"

definition wait_registered :: "'d \<times> bool \<Rightarrow> 'd \<times> bool" where
  "wait_registered s = (fst s, True)"

definition nic_e1000 :: "reg_hw \<Rightarrow> (e1000 \<times> bool, 'r) embclox_nic" where
  "nic_e1000 hw = \<lparr>rx_ready = on_device (e_has_rx_packet hw), tx_ready = on_device (e_has_tx_space hw),
     register_waker = wait_registered,
     nic_recv_with = (\<lambda>f. on_device (\<lambda>e. do { p \<leftarrow> e_recv_with hw f e; expect_some p })),
     nic_transmit_with = (\<lambda>len f. on_device (\<lambda>e. do { p \<leftarrow> e_transmit_with hw len f e; expect_some p }))\<rparr>"

definition nic_tulip :: "(tulip \<times> bool, 'r) embclox_nic" where
  "nic_tulip = \<lparr>rx_ready = on_device (\<lambda>t. do { b \<leftarrow> t_has_rx_packet t; Ret (b, t) }),
     tx_ready = on_device (\<lambda>t. do { b \<leftarrow> t_has_tx_space t; Ret (b, t) }),
     register_waker = wait_registered,
     nic_recv_with = (\<lambda>f. on_device (\<lambda>t. do { p \<leftarrow> t_recv_with f t; expect_some p })),
     nic_transmit_with = (\<lambda>len f. on_device (\<lambda>t. do { p \<leftarrow> t_transmit_with len f t; expect_some p }))\<rparr>"

text \<open>NetVSC: its readiness calls return no error; \<open>transmit_with\<close> returns a result.\<close>

definition expect_ok :: "('a, 'e) result \<times> 's \<Rightarrow> ('a \<times> 's) run" where
  "expect_ok p = (case fst p of Ok r \<Rightarrow> Ret (r, snd p) | Err e \<Rightarrow> Panic)"

definition nic_netvsc :: "nat \<Rightarrow> host \<Rightarrow> ring_host \<Rightarrow> rx_mem \<Rightarrow> ((netvsc_device \<times> world) \<times> bool, 'r) embclox_nic" where
  "nic_netvsc fuel H R M = \<lparr>
     rx_ready = on_device (\<lambda>s. do { p \<leftarrow> nv_has_rx_packet fuel H R M s; expect_ok p }),
     tx_ready = on_device (\<lambda>s. do { p \<leftarrow> nv_has_tx_space fuel H R M s; expect_ok p }),
     register_waker = wait_registered,
     nic_recv_with = (\<lambda>f. on_device (\<lambda>s. do {
       (r, d) \<leftarrow> nv_recv_with f (fst s);
       expect_some (r, d, snd s) })),
     nic_transmit_with = (\<lambda>len f. on_device (\<lambda>s. do { p \<leftarrow> nv_transmit_with fuel H R M len f s; expect_ok p }))\<rparr>"

text \<open>\<open>capabilities\<close>: the largest frame the stack sends.\<close>

definition pci_mtu :: nat where "pci_mtu = 1514"

definition netvsc_mtu :: "netvsc_device \<Rightarrow> nat" where
  "netvsc_mtu d = unat (nv_mtu d)"

text \<open>The interrupt handlers: what they do to the device, and the waker and EOI they issue.\<close>

datatype isr_event = WakeTask | LapicEoi

definition e1000_handler :: "reg_hw \<Rightarrow> nat \<Rightarrow> e1000 \<Rightarrow> isr_event list \<times> e1000" where
  "e1000_handler hw regs_base e =
     ([WakeTask, LapicEoi], if regs_base \<noteq> 0 then snd (read_reg hw (0x000C0 div 4) e) else e)"

definition tulip_handler :: "csr_hw \<Rightarrow> csr_access option \<Rightarrow> tulip \<Rightarrow> (isr_event list \<times> tulip) run" where
  "tulip_handler hw csr_for_isr t = do {
     t \<leftarrow> (case csr_for_isr of None \<Rightarrow> Ret t
       | Some c \<Rightarrow> do {
           t' \<leftarrow> csr_write CSR7 0 (t\<lparr>t_csr := c\<rparr>);
           (status, t') \<leftarrow> csr_read hw CSR5 t';
           t' \<leftarrow> csr_write CSR5 status t';
           t' \<leftarrow> csr_write CSR7 (CSR7_TIE OR CSR7_RIE OR CSR7_NIE OR CSR7_AIE) t';
           Ret (t'\<lparr>t_csr := t_csr t\<rparr>) });
     Ret ([WakeTask, LapicEoi], t) }"

section \<open>The contract\<close>

text \<open>\<open>recv_with\<close> after an observed \<open>rx_ready\<close>, with a \<open>tx_ready\<close> in between as in \<open>receive\<close>.\<close>

locale nic_rx =
  fixes nic :: "('s, 'r) embclox_nic"
    and inv :: "'s \<Rightarrow> bool"
    and rx_avail :: "'s \<Rightarrow> bool"
  assumes rx_ready_law: "inv s \<Longrightarrow> rx_ready nic s = Ret (b, s') \<Longrightarrow> inv s' \<and> (b \<longrightarrow> rx_avail s')"
    and tx_ready_rx: "inv s \<Longrightarrow> tx_ready nic s = Ret (b, s') \<Longrightarrow> inv s' \<and> (rx_avail s \<longrightarrow> rx_avail s')"
    and register_law: "inv s \<Longrightarrow> inv (register_waker nic s)"
    and recv_law: "inv s \<Longrightarrow> rx_avail s \<Longrightarrow> keeps_length f \<Longrightarrow> \<exists>r s'. nic_recv_with nic f s = Ret (r, s') \<and> inv s'"
begin

lemma receive_usable:
  assumes "inv s" "dyn_receive nic s = Ret (tokens, s')"
  shows "inv s' \<and> (tokens \<longrightarrow> rx_avail s')"
proof -
  obtain rx s1 where s1: "rx_ready nic s = Ret (rx, s1)"
    using assms(2) by (auto simp: dyn_receive_def bind_eq_Some_conv)
  note a = rx_ready_law [OF assms(1) s1]
  show ?thesis
  proof (cases rx)
    case False
    then show ?thesis using assms(2) s1 a register_law by (auto simp: dyn_receive_def)
  next
    case True
    then obtain both s2 where s2: "tx_ready nic s1 = Ret (both, s2)"
      using assms(2) s1 by (auto simp: dyn_receive_def bind_eq_Some_conv)
    then show ?thesis
      using tx_ready_rx [OF conjunct1 [OF a] s2] a True assms(2) s1 register_law
      by (auto simp: dyn_receive_def split: if_splits)
  qed
qed

lemma receive_consume:
  assumes "inv s" "dyn_receive nic s = Ret (True, s')" "keeps_length f"
  shows "\<exists>r s''. rx_token_consume nic f s' = Ret (r, s'') \<and> inv s''"
  using receive_usable [OF assms(1,2)] recv_law [of s' f] assms(3) by (simp add: rx_token_consume_def)

end

locale nic_tx =
  fixes nic :: "('s, 'r) embclox_nic"
    and inv :: "'s \<Rightarrow> bool"
    and tx_avail :: "'s \<Rightarrow> bool"
    and mtu :: nat
  assumes tx_ready_law: "inv s \<Longrightarrow> tx_ready nic s = Ret (b, s') \<Longrightarrow> inv s' \<and> (b \<longrightarrow> tx_avail s')"
    and transmit_law: "inv s \<Longrightarrow> tx_avail s \<Longrightarrow> len \<le> mtu \<Longrightarrow> keeps_length f \<Longrightarrow>
      \<exists>r s'. nic_transmit_with nic len f s = Ret (r, s') \<and> inv s'"
begin

lemma transmit_consume:
  assumes "inv s" "dyn_transmit nic s = Ret (True, s')" "len \<le> mtu" "keeps_length f"
  shows "\<exists>r s''. tx_token_consume nic len f s' = Ret (r, s'') \<and> inv s''"
proof -
  have "tx_ready nic s = Ret (True, s')"
    using assms(2) by (auto simp: dyn_transmit_def bind_eq_Some_conv split: if_splits)
  from tx_ready_law [OF assms(1) this] show ?thesis
    using transmit_law assms(3,4) by (auto simp: tx_token_consume_def)
qed

end

text \<open>A device that keeps both halves, answers its readiness calls and receives without losing TX space.\<close>

locale full_nic = nic_rx nic inv rx_avail + nic_tx nic inv tx_avail mtu
  for nic :: "('s, 'r) embclox_nic" and inv rx_avail tx_avail and mtu :: nat +
  assumes ready_total: "inv s \<Longrightarrow> rx_ready nic s \<noteq> Panic \<and> tx_ready nic s \<noteq> Panic"
    and recv_tx: "inv s \<Longrightarrow> tx_avail s \<Longrightarrow> keeps_length f \<Longrightarrow> nic_recv_with nic f s = Ret (r, s') \<Longrightarrow> tx_avail s'"
begin

lemma receive_total: "inv s \<Longrightarrow> \<exists>tokens s'. dyn_receive nic s = Ret (tokens, s') \<and> (tokens \<longrightarrow> tx_avail s')"
proof -
  assume i: "inv s"
  then obtain rx s1 where s1: "rx_ready nic s = Ret (rx, s1)" "inv s1" using ready_total rx_ready_law by fastforce
  then obtain tx s2 where s2: "tx_ready nic s1 = Ret (tx, s2)" using ready_total by fastforce
  with s1 show ?thesis using tx_ready_law [OF s1(2) s2] by (cases rx) (auto simp: dyn_receive_def)
qed

text \<open>One poll of the network stack: receive, read the frame, perhaps send a reply.\<close>

lemma poll_safe:
  assumes "inv s" "keeps_length f" "\<And>r. keeps_length (reply r)" "\<And>r. len r \<le> mtu"
  shows "\<exists>tokens s'. dyn_receive nic s = Ret (tokens, s') \<and> inv s' \<and> (tokens \<longrightarrow>
    (\<exists>r s2. rx_token_consume nic f s' = Ret (r, s2) \<and> inv s2 \<and>
      (\<exists>x s3. tx_token_consume nic (len r) (reply r) s2 = Ret (x, s3) \<and> inv s3)))"
proof -
  from receive_total [OF assms(1)] obtain tokens s' where s':
    "dyn_receive nic s = Ret (tokens, s')" "tokens \<longrightarrow> tx_avail s'" by blast
  note u = receive_usable [OF assms(1) s'(1)]
  have "\<exists>r s2. rx_token_consume nic f s' = Ret (r, s2) \<and> inv s2 \<and>
      (\<exists>x s3. tx_token_consume nic (len r) (reply r) s2 = Ret (x, s3) \<and> inv s3)" if tokens
  proof -
    have "dyn_receive nic s = Ret (True, s')" using s'(1) that by simp
    from receive_consume [OF assms(1) this assms(2)] obtain r s2 where
      s2: "rx_token_consume nic f s' = Ret (r, s2)" "inv s2" by blast
    moreover have "tx_avail s2" using recv_tx [of s' f r s2] u s'(2) that s2(1) assms(2) by (simp add: rx_token_consume_def)
    ultimately show ?thesis using transmit_law [of s2 "len r" "reply r"] assms(3,4) by (auto simp: tx_token_consume_def)
  qed
  then show ?thesis using s'(1) u by blast
qed

end

section \<open>The PCI drivers keep the contract\<close>

text \<open>
  For the e1000: every complete descriptor holds a frame received without error, which is what the
  device stores unless it is told to keep bad packets.
\<close>

definition e1000_good :: "reg_hw \<Rightarrow> e1000 \<times> bool \<Rightarrow> bool" where
  "e1000_good hw s \<longleftrightarrow> tails_hold hw \<and> tx_shape (fst s) \<and> rx_armed (fst s) \<and>
     (\<forall>d \<in> set (e_rx (fst s)). complete d \<longrightarrow> rd_errors d = 0)"

definition e1000_rx_avail :: "e1000 \<times> bool \<Rightarrow> bool" where
  "e1000_rx_avail s \<longleftrightarrow> e_filled (fst s) (e_head (fst s))"

definition e1000_tx_avail :: "e1000 \<times> bool \<Rightarrow> bool" where
  "e1000_tx_avail s \<longleftrightarrow> \<not> e_busy (fst s) (e_tail (fst s))"

lemma e1000_parts:
  assumes "tx_part e' = tx_part e"
  shows "tx_shape e' = tx_shape e" "e1000_tx_avail (e', w) = e1000_tx_avail (e, w')"
  using assms by (simp_all add: tx_part_def tx_shape_def e1000_tx_avail_def e_busy_def e_tail_def)

lemma e1000_rx_parts:
  assumes "rx_part e' = rx_part e"
  shows "rx_armed e' = rx_armed e" "e_rx e' = e_rx e" "e1000_rx_avail (e', w) = e1000_rx_avail (e, w')"
  using assms by (simp_all add: rx_part_def rx_armed_def rx_shape_def e1000_rx_avail_def e_filled_def e_head_def)

lemma nic_e1000_ready:
  assumes "e1000_good hw (e, w)"
  shows "rx_ready (nic_e1000 hw) (e, w) = Ret (e1000_rx_avail (e, w), e\<lparr>e_reads := Suc (e_reads e)\<rparr>, w)"
    "tx_ready (nic_e1000 hw) (e, w) = Ret (e1000_tx_avail (e, w), e\<lparr>e_reads := Suc (e_reads e)\<rparr>, w)"
  using assms e_has_rx_packet_iff [of hw e] e_has_tx_space_iff [of hw e]
  by (simp_all add: nic_e1000_def on_device_def e1000_good_def e1000_rx_avail_def e1000_tx_avail_def)

lemma e1000_good_reads [simp]:
  "e1000_good hw (e\<lparr>e_reads := n\<rparr>, w) = e1000_good hw (e, w)"
  "e1000_rx_avail (e\<lparr>e_reads := n\<rparr>, w) = e1000_rx_avail (e, w)"
  "e1000_tx_avail (e\<lparr>e_reads := n\<rparr>, w) = e1000_tx_avail (e, w)"
  by (simp_all add: e1000_good_def tx_shape_def rx_armed_def rx_shape_def e1000_rx_avail_def e_filled_def
      e_head_def e1000_tx_avail_def e_busy_def e_tail_def)

lemma nic_e1000_recv:
  assumes "e1000_good hw (e, w)" "e1000_rx_avail (e, w)" "keeps_length f"
  shows "\<exists>r e'. nic_recv_with (nic_e1000 hw) f (e, w) = Ret (r, e', w) \<and> e1000_good hw (e', w) \<and>
    e1000_tx_avail (e', w) = e1000_tx_avail (e, w)"
proof -
  let ?h = "e_head e"
  have h: "?h < 256" by (simp add: e_head_def)
  have g: "tails_hold hw" "rx_armed e" "tx_shape e" "e_filled e ?h"
    using assms(1,2) by (simp_all add: e1000_good_def e1000_rx_avail_def)
  have "snd (e_content e ?h)"
    using assms(1) g(4) rx_armed_nth(4) [OF g(2) h] h by (auto simp: e1000_good_def e_content_def e_filled_def)
  from e_recv_frame [OF g(1) conjunct1 [OF g(2) [unfolded rx_armed_def]] g(4) this assms(3) rx_armed_nth(1) [OF g(2) h]] obtain r e' buf where e':
    "e_recv_with hw f e = Ret (Some r, e')" "length buf = 2048"
    "rx_part e' = (of_nat ?h, (e_rx e)[?h := (e_rx e ! ?h)\<lparr>rd_status := 0\<rparr>], (e_rx_bufs e)[?h := buf])"
    "tx_part e' = tx_part e" by blast
  have "rx_armed e'" using rx_armed_update [OF g(2) e'(3,2)] rx_armed_nth(1) [OF g(2) h] by simp
  moreover have "\<forall>d \<in> set (e_rx e'). complete d \<longrightarrow> rd_errors d = 0"
    using assms(1) e'(3) by (auto simp: rx_part_def e1000_good_def dest!: set_update_subset_insert [THEN subsetD])
  ultimately show ?thesis using e'(1) e1000_parts [OF e'(4)] g
    by (simp add: nic_e1000_def on_device_def expect_some_def e1000_good_def)
qed

lemma nic_e1000_transmit:
  assumes "e1000_good hw (e, w)" "e1000_tx_avail (e, w)" "keeps_length f"
  shows "\<exists>r e'. nic_transmit_with (nic_e1000 hw) len f (e, w) = Ret (r, e', w) \<and> e1000_good hw (e', w)"
proof -
  let ?t = "unat (e_regs e TDT)" and ?k = "min len 2048"
  have g: "tails_hold hw" "rx_armed e" "tx_shape e" "\<not> in_flight (e_tx e ! ?t)"
    using assms(1,2) by (simp_all add: e1000_good_def e1000_tx_avail_def e_busy_def e_tail_def)
  from e_transmit_accepted [OF g(1) assms(3) g(3,4), of len] obtain r e' where e':
    "e_transmit_with hw len f e = Ret (Some r, e')" "rx_part e' = rx_part e" "tx_shape e'" by blast
  then show ?thesis using e1000_rx_parts [OF e'(2)] assms(1)
    by (simp add: nic_e1000_def on_device_def expect_some_def e1000_good_def)
qed

interpretation e1000_if: full_nic "nic_e1000 hw" "e1000_good hw" e1000_rx_avail e1000_tx_avail pci_mtu for hw
proof (unfold_locales, goal_cases)
  case (1 s b s')
  then show ?case by (cases s) (auto simp: nic_e1000_ready)
next
  case (2 s b s')
  then show ?case by (cases s) (auto simp: nic_e1000_ready)
next
  case (3 s)
  then show ?case by (cases s) (simp add: nic_e1000_def wait_registered_def e1000_good_def)
next
  case (4 s f)
  then show ?case using nic_e1000_recv by (cases s) blast
next
  case (5 s b s')
  then show ?case by (cases s) (auto simp: nic_e1000_ready)
next
  case (6 s len f)
  then show ?case using nic_e1000_transmit by (cases s) blast
next
  case (7 s)
  then show ?case by (cases s) (simp add: nic_e1000_ready)
next
  case (8 s f r s')
  obtain e w where s: "s = (e, w)" by (cases s)
  have ok: "rx_shape e" "tails_hold hw" using 8(1) s by (simp_all add: e1000_good_def rx_armed_def)
  have "e1000_rx_avail (e, w)"
  proof (rule ccontr)
    assume "\<not> e1000_rx_avail (e, w)"
    then have "e_recv_with hw f e = Ret (None, e\<lparr>e_reads := Suc (e_reads e)\<rparr>)"
      using e_recv_nothing [OF ok(2,1)] by (simp add: e1000_rx_avail_def)
    with 8(4) s show False by (simp add: nic_e1000_def on_device_def expect_some_def)
  qed
  with nic_e1000_recv [of hw e w f] 8 s show ?case by auto
qed

definition tulip_good :: "tulip \<times> bool \<Rightarrow> bool" where
  "tulip_good s \<longleftrightarrow> tulip_rx_ok (fst s)"

definition tulip_rx_avail :: "tulip \<times> bool \<Rightarrow> bool" where
  "tulip_rx_avail s \<longleftrightarrow> t_filled (fst s) (t_rx_next (fst s))"

definition tulip_tx_avail :: "tulip \<times> bool \<Rightarrow> bool" where
  "tulip_tx_avail s \<longleftrightarrow> \<not> t_busy (fst s) (t_tx_next (fst s))"

lemma nic_tulip_ready:
  assumes "tulip_good s"
  shows "rx_ready nic_tulip s = Ret (tulip_rx_avail s, s)" "tx_ready nic_tulip s = Ret (tulip_tx_avail s, s)"
  using assms t_has_rx_packet_iff [of "fst s"] t_has_tx_space_iff [of "fst s"]
  by (simp_all add: nic_tulip_def on_device_def tulip_good_def tulip_rx_ok_def tulip_rx_avail_def tulip_tx_avail_def)

lemma nic_tulip_recv:
  assumes "tulip_good (t, w)" "tulip_rx_avail (t, w)" "keeps_length f"
  shows "\<exists>r t'. nic_recv_with nic_tulip f (t, w) = Ret (r, t', w) \<and> tulip_good (t', w) \<and>
    tulip_tx_avail (t', w) = tulip_tx_avail (t, w)"
proof -
  let ?i = "t_rx_next t"
  have ok: "tulip_ok t" and fi: "t_filled t ?i" and l: "length (t_rx t) = 16" "?i < 16" "length (t_rx_mem t) = 32768"
    using assms(1,2) by (simp_all add: tulip_good_def tulip_rx_avail_def tulip_rx_ok_def tulip_ok_def)
  define len where "len = rx_frame_length (d_status (t_rx t ! ?i))"
  define buf where "buf = take len (drop (?i * 2048) (t_rx_mem t))"
  have len: "len \<le> 2048"
    using assms(1) fi l by (auto simp: len_def tulip_good_def tulip_rx_ok_def t_filled_def)
  then have "?i * 2048 + rx_frame_length (d_status (t_rx t ! ?i)) \<le> 32768" using l(2) by (simp add: len_def)
  then obtain t' where t':
    "t_recv_with f t = Ret (Some (snd (f buf)), t')" "t_csr t' = t_csr t" "t_tx t' = t_tx t" "t_tx_mem t' = t_tx_mem t"
    "t_tx_next t' = t_tx_next t" "t_rx_next t' = (?i + 1) mod 16"
    "t_rx t' = (t_rx t)[?i := (t_rx t ! ?i)\<lparr>d_control := tulip_rx_control ?i, d_status := DESC_OWN\<rparr>]"
    "t_rx_mem t' = take (?i * 2048) (t_rx_mem t) @ fst (f buf) @ drop (?i * 2048 + len) (t_rx_mem t)"
    unfolding buf_def len_def by (rule t_recv_frame [OF ok fi assms(3)])
  have "length (fst (f buf)) = len" using assms(3) len l by (simp add: keeps_length_def buf_def)
  then have "tulip_ok t'" using ok t'(2-8) len l by (simp add: tulip_ok_def)
  then have "tulip_good (t', w)" using assms(1) t'(7)
    by (auto simp: tulip_good_def tulip_rx_ok_def tulip_owned_def dest!: set_update_subset_insert [THEN subsetD])
  then show ?thesis using t'(1,3,5)
    by (simp add: nic_tulip_def on_device_def expect_some_def tulip_tx_avail_def t_busy_def)
qed

lemma nic_tulip_transmit:
  assumes "tulip_good (t, w)" "tulip_tx_avail (t, w)" "len \<le> 2048" "keeps_length f"
  shows "\<exists>r t'. nic_transmit_with nic_tulip len f (t, w) = Ret (r, t', w) \<and> tulip_good (t', w)"
proof -
  let ?i = "t_tx_next t"
  have ok: "tulip_ok t" and fr: "\<not> t_busy t ?i" and l: "length (t_tx_mem t) = 32768" "?i < 16"
    using assms(1,2) by (simp_all add: tulip_good_def tulip_tx_avail_def tulip_rx_ok_def tulip_ok_def)
  from t_transmit_accepted [OF ok fr assms(3,4)] obtain r t' where t':
    "t_transmit_with len f t = Ret (Some r, t')"
    "t_csr t' = t_csr t" "t_rx t' = t_rx t" "t_rx_mem t' = t_rx_mem t" "t_rx_next t' = t_rx_next t"
    "t_tx_next t' = (?i + 1) mod 16"
    "t_tx t' = (t_tx t)[?i := (t_tx t ! ?i)\<lparr>d_control := (of_nat len AND 0x7FF) OR TDES1_FS OR TDES1_LS OR tulip_last ?i,
       d_status := DESC_OWN\<rparr>]"
    "t_tx_mem t' = take (?i * 2048) (t_tx_mem t) @ fst (f (t_slot t len)) @ drop (?i * 2048 + len) (t_tx_mem t)"
    by blast
  have "length (fst (f (t_slot t len))) = len" using assms(3,4) l by (simp add: keeps_length_def t_slot_def)
  then have "tulip_ok t'" using ok t'(2-8) assms(3) l by (simp add: tulip_ok_def)
  then have "tulip_good (t', w)" using assms(1) t'(3) by (simp add: tulip_good_def tulip_rx_ok_def)
  then show ?thesis using t'(1) by (simp add: nic_tulip_def on_device_def expect_some_def)
qed

interpretation tulip_if: full_nic nic_tulip tulip_good tulip_rx_avail tulip_tx_avail pci_mtu
proof (unfold_locales, goal_cases)
  case (3 s)
  then show ?case by (simp add: nic_tulip_def wait_registered_def tulip_good_def)
next
  case (4 s f)
  then show ?case using nic_tulip_recv by (cases s) blast
next
  case (6 s len f)
  then have "len \<le> 2048" by (simp add: pci_mtu_def)
  with 6 show ?case using nic_tulip_transmit by (cases s) blast
next
  case (8 s f r s')
  obtain t w where s: "s = (t, w)" by (cases s)
  have "tulip_rx_avail s"
  proof (rule ccontr)
    assume "\<not> tulip_rx_avail s"
    then have "t_recv_with f t = Ret (None, t)"
      using 8(1) s t_recv_empty [of t f] by (simp add: tulip_good_def tulip_rx_ok_def tulip_rx_avail_def)
    with 8(4) s show False by (simp add: nic_tulip_def on_device_def expect_some_def)
  qed
  with nic_tulip_recv [of t w f] 8 s show ?case by auto
qed (auto simp: nic_tulip_ready)

section \<open>NetVSC keeps the receive half\<close>

lemma pending_kept:
  fixes P :: "netvsc_device \<times> world \<Rightarrow> bool"
  defines "P \<equiv> \<lambda>s. nv_pending_rx (fst s) \<noteq> None"
  shows "keeps P (pump_channel fuel H R M)"
proof -
  have on: "keeps P (on_channel c)" for c :: "'a ch_run"
    by (auto simp: keeps_def P_def on_channel_def bind_eq_Some_conv)
  have n: "keeps P (next_packet R raw)" for raw
    by (auto simp: keeps_def P_def next_packet_def bind_eq_Some_conv)
  have w: "keeps P (write_send_buf 0 msg)" for msg
    by (auto simp: keeps_def P_def write_send_buf_def bind_eq_Some_conv)
  have "keeps P (send_rndis_control_inner H R msg)" for msg
    unfolding keeps_def
  proof (intro allI impI)
    fix s r s' assume "P s" "send_rndis_control_inner H R msg s = Ret (r, s')"
    then show "P s'"
      using keeps_D [OF keeps_try_op [OF w [of msg] on], of "\<lambda>u. nv_send H R (nvsp_message_padded
          (build_nvsp_send_rndis_pkt 1 0 (of_nat (length msg)))) 0" s r s']
      by (auto simp: send_rndis_control_inner_def fail_with_def split: if_splits)
  qed
  then have "keeps P (ignore_result (send_rndis_control_inner H R msg))" for msg by (rule keeps_ignore)
  then have ka: "keeps P (answer_keepalive H R q)" for q
    by (simp add: keeps_def answer_keepalive_def keepalive_cmplt slice_def)
  show ?thesis
    unfolding pump_channel_def
    by (intro pump_loop_keeps pump_packet_keeps on ka n) (auto simp: keeps_def P_def set_section_free_def)
qed

definition netvsc_good :: "ring_host \<Rightarrow> rx_mem \<Rightarrow> (netvsc_device \<times> world) \<times> bool \<Rightarrow> bool" where
  "netvsc_good R M s \<longleftrightarrow> ring_host_ok R \<and> rx_mem_ok M \<and> nv_inv (fst s)"

definition netvsc_rx_avail :: "(netvsc_device \<times> world) \<times> bool \<Rightarrow> bool" where
  "netvsc_rx_avail s \<longleftrightarrow> nv_pending_rx (fst (fst s)) \<noteq> None"

lemma nic_netvsc_ready_eq:
  "rx_ready (nic_netvsc fuel H R M) (d, w) = do { (r, d) \<leftarrow> pump_channel fuel H R M d; Ret (nv_pending_rx (fst d) \<noteq> None, d, w) }"
  "tx_ready (nic_netvsc fuel H R M) (d, w) = do { (r, d) \<leftarrow> pump_channel fuel H R M d; Ret (send_section_free (fst d), d, w) }"
  by (cases "pump_channel fuel H R M d"; simp add: nic_netvsc_def on_device_def expect_ok_def nv_has_rx_packet_def
      nv_has_tx_space_def try_op_def ignore_result_def done_with_def case_prod_beta)+

lemma nic_netvsc_ready:
  assumes "netvsc_good R M (d, w)" "pump_channel fuel H R M d = Ret (r, d')"
  shows "netvsc_good R M (d', w)" "netvsc_rx_avail (d, w) \<longrightarrow> netvsc_rx_avail (d', w)"
proof -
  have "ring_host_ok R" "rx_mem_ok M" "nv_inv d" using assms(1) by (simp_all add: netvsc_good_def)
  then show "netvsc_good R M (d', w)"
    using keeps_D [OF pump_channel_inv assms(2)] by (simp add: netvsc_good_def)
  show "netvsc_rx_avail (d, w) \<longrightarrow> netvsc_rx_avail (d', w)"
    using keeps_D [OF pending_kept assms(2)] by (simp add: netvsc_rx_avail_def)
qed

interpretation netvsc_if: nic_rx "nic_netvsc fuel H R M" "netvsc_good R M" netvsc_rx_avail for fuel H R M
proof (unfold_locales, goal_cases)
  case (1 s b s')
  obtain d w where s: "s = (d, w)" by (cases s)
  with 1(2) obtain r d' where "pump_channel fuel H R M d = Ret (r, d')" "s' = (d', w)" "b = netvsc_rx_avail s'"
    by (auto simp: nic_netvsc_ready_eq netvsc_rx_avail_def bind_eq_Some_conv)
  then show ?case using nic_netvsc_ready 1(1) s by blast
next
  case (2 s b s')
  obtain d w where s: "s = (d, w)" by (cases s)
  with 2(2) obtain r d' where "pump_channel fuel H R M d = Ret (r, d')" "s' = (d', w)"
    by (auto simp: nic_netvsc_ready_eq bind_eq_Some_conv)
  then show ?case using nic_netvsc_ready 2(1) s by blast
next
  case (3 s)
  then show ?case by (simp add: nic_netvsc_def wait_registered_def netvsc_good_def)
next
  case (4 s f)
  obtain d w v where s: "s = ((d, w), v)" by (cases s) auto
  with 4 obtain p where p: "nv_pending_rx d = Some p" "rx_len p \<le> length (rx_data p)" "nv_inv (d, w)"
    by (auto simp: netvsc_good_def netvsc_rx_avail_def nv_inv_def)
  then have "nic_recv_with (nic_netvsc fuel H R M) f s =
      Ret (snd (f (take (rx_len p) (rx_data p))), (d\<lparr>nv_pending_rx := None\<rparr>, w), v)"
    using s by (simp add: nic_netvsc_def on_device_def expect_some_def nv_recv_with_def slice_def)
  moreover have "netvsc_good R M ((d\<lparr>nv_pending_rx := None\<rparr>, w), v)"
    using 4(1) p(3) by (simp add: netvsc_good_def nv_inv_def)
  ultimately show ?case by blast
qed

section \<open>Properties\<close>

text \<open>
  One poll of the network stack on a device: it asks for tokens; if it gets them it reads a frame
  through the first and sends a reply of its choice through the second.  Nothing aborts and the
  device is fit for the next poll.
\<close>

definition poll_ok :: "('s, 'r) embclox_nic \<Rightarrow> ('s \<Rightarrow> bool) \<Rightarrow> 'r on_slice \<Rightarrow> ('r \<Rightarrow> nat) \<Rightarrow> ('r \<Rightarrow> 'r on_slice) \<Rightarrow> 's \<Rightarrow> bool" where
  "poll_ok nic I f len reply s \<longleftrightarrow> (\<exists>tokens s'. dyn_receive nic s = Ret (tokens, s') \<and> I s' \<and> (tokens \<longrightarrow>
     (\<exists>r s2. rx_token_consume nic f s' = Ret (r, s2) \<and> I s2 \<and>
       (\<exists>x s3. tx_token_consume nic (len r) (reply r) s2 = Ret (x, s3) \<and> I s3))))"

text \<open>
  C15.  A poll of the network stack never aborts on the PCI drivers: the tokens \<open>receive\<close> hands out can both be consumed,
  the receive token first and then the transmit token with any frame up to the announced maximum,
  and the device invariant holds afterwards.  For the e1000 this is under the premise that no
  completed descriptor carries an error.
\<close>

theorem pci_poll_safe:
  assumes "e1000_good hw e" "tulip_good t" "keeps_length f" "\<And>r. keeps_length (reply r)" "\<And>r. len r \<le> 1514"
  shows "poll_ok (nic_e1000 hw) (e1000_good hw) f len reply e \<and> poll_ok nic_tulip tulip_good f len reply t"
proof -
  have l: "\<And>r. len r \<le> pci_mtu" using assms(5) by (simp add: pci_mtu_def)
  show ?thesis
    unfolding poll_ok_def
    using e1000_if.poll_safe [OF assms(1,3,4) l] tulip_if.poll_safe [OF assms(2-4) l] by (rule conjI)
qed

theorem pci_poll_safe_witness:
  "\<exists>t0. tulip_new (\<lambda>n a. 0) (\<lambda>_. 0) demo_tulip_dma (Io 0xC000) = Ret t0 \<and>
     poll_ok (nic_e1000 plain_hw) (e1000_good plain_hw) (\<lambda>b. (b, length b)) (\<lambda>r. 60) (\<lambda>r b. (b, r))
       (e_new plain_hw demo_dma blank_e1000, False) \<and>
     poll_ok nic_tulip tulip_good (\<lambda>b. (b, length b)) (\<lambda>r. 60) (\<lambda>r b. (b, r)) (t0, False)"
proof -
  obtain t0 where t0: "tulip_new (\<lambda>n a. 0) (\<lambda>_. 0) demo_tulip_dma (Io 0xC000) = Ret t0" "tulip_rx_ok t0"
    using tulip_new_ok [OF demo_tulip, of "\<lambda>n a. 0" "\<lambda>_. 0"] by blast
  let ?e = "e_new plain_hw demo_dma blank_e1000"
  have d: "dma_range_ok (demo_dma 3) (256 * 2048)" by (simp add: dma_range_ok_def demo_dma_def)
  have "rx_armed ?e" by (rule e_new_rx(1) [of demo_dma, OF d])
  moreover have "tx_shape ?e" by (rule e_new_tx(1))
  moreover have "e_rx ?e = map (init_rx_desc (demo_dma 3)) [0..<256]" by (simp add: e_new_def init_lists del: upt_rec_numeral)
  then have "\<forall>d \<in> set (e_rx ?e). rd_errors d = 0" by (simp add: init_rx_desc_def del: upt_rec_numeral)
  ultimately have e: "e1000_good plain_hw (?e, False)" by (simp add: e1000_good_def)
  have t: "tulip_good (t0, False)" using t0(2) by (simp add: tulip_good_def)
  have "keeps_length (\<lambda>b::bytes. (b, length b))" "\<And>r. keeps_length (\<lambda>b::bytes. (b, r :: nat))"
    by (simp_all add: keeps_length_def)
  note k = this
  have "poll_ok (nic_e1000 plain_hw) (e1000_good plain_hw) (\<lambda>b. (b, length b)) (\<lambda>r. 60) (\<lambda>r b. (b, r)) (?e, False) \<and>
      poll_ok nic_tulip tulip_good (\<lambda>b. (b, length b)) (\<lambda>r. 60) (\<lambda>r b. (b, r)) (t0, False)"
    by (rule pci_poll_safe [OF e t k]) simp
  then show ?thesis using t0(1) by blast
qed

text \<open>
  C36.  The e1000 driver does not keep the promise of \<open>rx_ready\<close> for every packet: after an observed \<open>rx_ready\<close> its
  \<open>recv_with\<close> aborts exactly when the descriptor lacks the end-of-packet bit or carries an error,
  since \<open>has_rx_packet\<close> looks at the done bit only.
\<close>

theorem e1000_recv_aborts_iff:
  assumes "tails_hold hw" "rx_shape e" "keeps_length f" "rx_ready (nic_e1000 hw) (e, w) = Ret (True, s)"
  shows "nic_recv_with (nic_e1000 hw) f s = Panic \<longleftrightarrow>
    \<not> complete (e_rx e ! e_head e) \<or> rd_errors (e_rx e ! e_head e) \<noteq> 0"
proof -
  let ?h = "e_head e" and ?e = "e\<lparr>e_reads := Suc (e_reads e)\<rparr>"
  have h: "?h < 256" by (simp add: e_head_def)
  have s: "s = (?e, w)" "rd_addr (e_rx e ! ?h) \<noteq> 0"
    using assms(4) rx_shape_nth(2) [OF assms(2) h] h
    by (simp_all add: nic_e1000_def on_device_def e_has_rx_packet_def read_tails [OF assms(1)] e_head_Suc
        nth_run_def e1000_sizes Let_def)
  have sh: "rx_shape ?e" "e_head ?e = ?h" "e_rx ?e = e_rx e" using assms(2) by (simp_all add: rx_shape_def e_head_def)
  consider (part) "\<not> complete (e_rx e ! ?h)" | (bad) "complete (e_rx e ! ?h)" "rd_errors (e_rx e ! ?h) \<noteq> 0"
    | (good) "complete (e_rx e ! ?h)" "rd_errors (e_rx e ! ?h) = 0" by blast
  then show ?thesis
  proof cases
    case part
    then have "e_recv_with hw f ?e = Ret (None, ?e\<lparr>e_reads := Suc (e_reads ?e)\<rparr>)"
      using e_recv_nothing [OF assms(1) sh(1)] sh by (simp add: e_filled_def)
    then show ?thesis using part s(1) by (simp add: nic_e1000_def on_device_def expect_some_def)
  next
    case bad
    then obtain e' where "e_recv_with hw f ?e = Ret (None, e')"
      using e_recv_error [OF assms(1) sh(1), of f] s(2) sh(2,3) by (auto simp: e_filled_def e_content_def)
    then show ?thesis using bad s(1) by (simp add: nic_e1000_def on_device_def expect_some_def)
  next
    case good
    have "e_filled ?e (e_head ?e)" "snd (e_content ?e (e_head ?e))" "rd_addr (e_rx ?e ! e_head ?e) \<noteq> 0"
      using good s(2) sh by (simp_all add: e_filled_def e_content_def)
    from e_recv_frame [OF assms(1) sh(1) this(1,2) assms(3) this(3)] obtain r e' where
      "e_recv_with hw f ?e = Ret (Some r, e')" by blast
    then show ?thesis using good s(1) by (simp add: nic_e1000_def on_device_def expect_some_def)
  qed
qed

definition demo_bad_frame :: e1000 where
  "demo_bad_frame = (let e = e_new plain_hw demo_dma blank_e1000 in
     e\<lparr>e_rx := (e_rx e)[0 := (init_rx_desc (demo_dma 3) 0)\<lparr>rd_status := 3, rd_errors := 1\<rparr>]\<rparr>)"

theorem e1000_recv_aborts_iff_witness:
  "rx_ready (nic_e1000 plain_hw) (demo_bad_frame, False) = Ret (True, demo_bad_frame\<lparr>e_reads := Suc (e_reads demo_bad_frame)\<rparr>, False) \<and>
   nic_recv_with (nic_e1000 plain_hw) (\<lambda>b. (b, b)) (demo_bad_frame\<lparr>e_reads := Suc (e_reads demo_bad_frame)\<rparr>, False) = Panic"
proof -
  have h: "e_head demo_bad_frame = 0" by (simp add: demo_bad_frame_def Let_def e_head_def e_new_def init_tails)
  have d: "e_rx demo_bad_frame ! 0 = (init_rx_desc (demo_dma 3) 0)\<lparr>rd_status := 3, rd_errors := 1\<rparr>" "length (e_rx demo_bad_frame) = 256"
    by (simp_all add: demo_bad_frame_def Let_def e_new_def init_lists)
  have sh: "rx_shape demo_bad_frame"
    by (simp add: demo_bad_frame_def Let_def rx_shape_def e_new_def init_lists e1000_sizes)
  have r: "rx_ready (nic_e1000 plain_hw) (demo_bad_frame, False) = Ret (True, demo_bad_frame\<lparr>e_reads := Suc (e_reads demo_bad_frame)\<rparr>, False)"
    using h d by (auto simp: nic_e1000_def on_device_def e_has_rx_packet_def read_tails e_head_Suc nth_run_def e1000_sizes
        init_rx_desc_def demo_dma_def RXD_STAT_DD_def Let_def)
  have "keeps_length (\<lambda>b::bytes. (b, b))" by (simp add: keeps_length_def)
  from e1000_recv_aborts_iff [OF plain_tails sh this r] r show ?thesis unfolding h d by simp
qed

text \<open>
  C37.  Nor does NetVSC keep the promise of \<open>tx_ready\<close>: with its send section free, which is all \<open>has_tx_space\<close> checks,
  \<open>transmit_with\<close> aborts exactly when the outgoing ring has no room for the message.
\<close>

theorem netvsc_transmit_aborts_iff:
  assumes "ring_host_ok R" "nv_inv (d, w)" "send_section_free d" "44 + n \<le> NETVSC_SEND_BUF_SIZE"
    "next_txid d \<noteq> - 1" "keeps_length f"
  shows "nic_transmit_with (nic_netvsc fuel H R M) n f ((d, w), v) = Panic \<longleftrightarrow> \<not> send_room R (nv_channel d)"
proof -
  obtain p r d' w' where
    b: "build_and_send H R n f (d, w) = Ret (r, d', w')"
    "r = (if send_room R (nv_channel d) then Ok (snd (f p)) else Err (HypercallFailed 0xFFFF))"
    by (rule build_and_send_spec [OF assms(1,2,4,5,6)])
  then have "nv_transmit_with fuel H R M n f (d, w) = Ret (r, d', w')"
    using assms(3,4) by (simp add: nv_transmit_with_def assert_run_def netvsc_sizes)
  then have "nic_transmit_with (nic_netvsc fuel H R M) n f ((d, w), v) =
      (case r of Ok x \<Rightarrow> Ret (x, (d', w'), v) | Err e \<Rightarrow> Panic)"
    by (simp add: nic_netvsc_def on_device_def expect_ok_def split: result.split)
  then show ?thesis unfolding b(2) by simp
qed

theorem netvsc_transmit_aborts_iff_witness:
  "nic_transmit_with (nic_netvsc 0 demo_host (\<lambda>n p. p) (\<lambda>n. zeros NETVSC_RECV_BUF_SIZE)) 60 (\<lambda>b. (b, ()))
     ((demo_nic 6 None, demo_world), False) = Panic"
proof -
  have i: "nv_inv (demo_nic 6 None, demo_world)" by (rule demo_nic_inv) simp
  have c: "send_section_free (demo_nic 6 None)" "44 + 60 \<le> NETVSC_SEND_BUF_SIZE" "next_txid (demo_nic 6 None) \<noteq> - 1"
    by (simp_all add: NETVSC_SEND_BUF_SIZE_def demo_nic_def netvsc_new_def)
  have k: "keeps_length (\<lambda>b::bytes. (b, ()))" by (simp add: keeps_length_def)
  have "\<not> send_room (\<lambda>n p. p) (nv_channel (demo_nic 6 None))"
    by (simp add: send_room_def Let_def demo_nic_def netvsc_new_def ring_turn_def packet_ring_def fill_def)
  then show ?thesis using netvsc_transmit_aborts_iff [OF demo_nic_inv(1) i c k] by simp
qed

end
