(* ===== verification/Driver_Registry.thy ===== *)
theory Driver_Registry
  imports Hal_Irq Hal_Pci Hal_Memory Hal_Cmdline Nic
begin

text \<open>
  Drivers and probing: \<open>crates/embclox-driver/src/registry.rs\<close>, \<open>driver.rs\<close>, \<open>defaults.rs\<close>, the
  probe functions of \<open>drivers/e1000.rs\<close>, \<open>tulip.rs\<close> and \<open>netvsc.rs\<close>, and the choice of the NIC in
  \<open>examples-kernel/src/main.rs\<close>.

  A driver is a record of its trait's operations on a probe context of any type; the probe loop and
  its lemmas are generic in it.  The context of the in-tree drivers joins the states of the components
  they call: configuration space, memory mapper and page tables, interrupt routing, DMA memory and
  the VMBus.  What the machine does (registers of the devices, the heap, the page tables, the
  Hyper-V host) is the record \<open>probe_env\<close>.
\<close>

section \<open>The registry\<close>

record ('d, 'c, 'n) driver =
  drv_name :: string
  drv_priority :: u8
  drv_matches :: "'d \<Rightarrow> bool"
  drv_probe :: "'d \<Rightarrow> 'c \<Rightarrow> (('n, probe_error) result \<times> 'c) run"

record 'n probed_nic =
  pn_driver :: 'n
  pn_priority :: u8
  pn_name :: string

record ('c, 'n) registry =
  reg_pci :: "(pci_device, 'c, 'n) driver list"
  reg_vmbus :: "(channel_offer, 'c, 'n) driver list"

definition PROBE_BUDGET :: nat where "PROBE_BUDGET = 4"

definition registry_new :: "('c, 'n) registry" where
  "registry_new = \<lparr>reg_pci = [], reg_vmbus = []\<rparr>"

definition register_pci :: "(pci_device, 'c, 'n) driver \<Rightarrow> ('c, 'n) registry \<Rightarrow> ('c, 'n) registry" where
  "register_pci d r = r\<lparr>reg_pci := reg_pci r @ [d]\<rparr>"

definition register_vmbus :: "(channel_offer, 'c, 'n) driver \<Rightarrow> ('c, 'n) registry \<Rightarrow> ('c, 'n) registry" where
  "register_vmbus d r = r\<lparr>reg_vmbus := reg_vmbus r @ [d]\<rparr>"

text \<open>The inner loops of \<open>probe_all\<close>: the first matching driver whose probe succeeds.\<close>

fun probe_drivers :: "('d, 'c, 'n) driver list \<Rightarrow> 'd \<Rightarrow> 'c \<Rightarrow> ('n probed_nic option \<times> 'c) run" where
  "probe_drivers [] dev ctx = Ret (None, ctx)"
| "probe_drivers (drv # drvs) dev ctx =
     (if drv_matches drv dev then do {
        (r, ctx) \<leftarrow> drv_probe drv dev ctx;
        case r of
          Ok nic \<Rightarrow> Ret (Some \<lparr>pn_driver = nic, pn_priority = drv_priority drv, pn_name = drv_name drv\<rparr>, ctx)
        | Err e \<Rightarrow> probe_drivers drvs dev ctx }
      else probe_drivers drvs dev ctx)"

definition dev_key :: "pci_device \<Rightarrow> u8 \<times> u8 \<times> u8" where
  "dev_key d = (pd_bus d, pd_dev d, pd_func d)"

fun scan_pci :: "(pci_device, 'c, 'n) driver list \<Rightarrow> pci_device list \<Rightarrow> 'n probed_nic list \<Rightarrow> (u8 \<times> u8 \<times> u8) set \<Rightarrow> 'c \<Rightarrow>
   ('n probed_nic list \<times> 'c) run" where
  "scan_pci drvs [] nics claimed ctx = Ret (nics, ctx)"
| "scan_pci drvs (dev # devs) nics claimed ctx =
     (if length nics \<ge> PROBE_BUDGET then Ret (nics, ctx)
      else if dev_key dev \<in> claimed then scan_pci drvs devs nics claimed ctx
      else do {
        (r, ctx) \<leftarrow> probe_drivers drvs dev ctx;
        case r of
          Some nic \<Rightarrow> scan_pci drvs devs (nics @ [nic]) (insert (dev_key dev) claimed) ctx
        | None \<Rightarrow> scan_pci drvs devs nics claimed ctx })"

fun scan_vmbus :: "(channel_offer, 'c, 'n) driver list \<Rightarrow> channel_offer list \<Rightarrow> 'n probed_nic list \<Rightarrow> 'c \<Rightarrow>
   ('n probed_nic list \<times> 'c) run" where
  "scan_vmbus drvs [] nics ctx = Ret (nics, ctx)"
| "scan_vmbus drvs (offer # os) nics ctx =
     (if length nics \<ge> PROBE_BUDGET then Ret (nics, ctx)
      else do {
        (r, ctx) \<leftarrow> probe_drivers drvs offer ctx;
        case r of
          Some nic \<Rightarrow> scan_vmbus drvs os (nics @ [nic]) ctx
        | None \<Rightarrow> scan_vmbus drvs os nics ctx })"

text \<open>The two buses: what \<open>enumerate\<close> finds, and the offers of a VMBus if there is one.\<close>

definition probe_all :: "('c \<Rightarrow> pci_device list \<times> 'c) \<Rightarrow> ('c \<Rightarrow> channel_offer list) \<Rightarrow> ('c, 'n) registry \<Rightarrow> 'c \<Rightarrow>
   ('n probed_nic list \<times> 'c) run" where
  "probe_all enum offers_in reg ctx = (case enum ctx of (devs, ctx) \<Rightarrow> do {
     (nics, ctx) \<leftarrow> scan_pci (reg_pci reg) devs [] {} ctx;
     scan_vmbus (reg_vmbus reg) (offers_in ctx) nics ctx })"

text \<open>\<open>min_by_key\<close> returns the first of several smallest elements.\<close>

definition min_by_key :: "('a \<Rightarrow> u8) \<Rightarrow> 'a list \<Rightarrow> 'a option" where
  "min_by_key f xs = (case xs of [] \<Rightarrow> None | x # r \<Rightarrow> Some (foldl (\<lambda>best y. if f y < f best then y else best) x r))"

text \<open>The kernel aborts when no NIC was found.\<close>

definition select_primary :: "'n probed_nic list \<Rightarrow> 'n probed_nic run" where
  "select_primary nics = (if nics = [] then Panic else min_by_key pn_priority nics)"

section \<open>The probe context\<close>

datatype handler = DefaultHandler | E1000Handler | TulipHandler

record 't probe_ctx =
  cx_dma :: boot_dma_allocator
  cx_allocs :: nat
  cx_freed :: "(u64 \<times> nat \<times> nat) list"
  cx_memory :: memory_mapper
  cx_table :: 't
  cx_irq :: "handler irq_ctx"
  cx_pci :: pci_ports
  cx_vmbus :: "vmbus option"
  cx_gpadl :: u32
  cx_world :: world
  e1000_regs_base :: nat
  csr_for_isr :: "csr_access option"

text \<open>The heap gives a pointer for the \<open>k\<close>th allocation of a layout.\<close>

record 't probe_env =
  pe_write :: config_write
  pe_paging :: "'t paging"
  pe_heap :: "nat \<Rightarrow> nat \<Rightarrow> nat \<Rightarrow> u64"
  pe_e1000 :: "pci_device \<Rightarrow> reg_hw \<times> e1000"
  pe_tulip :: "pci_device \<Rightarrow> csr_hw \<times> (nat \<Rightarrow> u32)"
  pe_cpus :: cpu_table
  pe_fuel :: nat
  pe_host :: host
  pe_ring_host :: ring_host
  pe_rx_mem :: rx_mem
  pe_crash :: u32

datatype nic_device = NicE1000 e1000 bytes | NicTulip tulip bytes | NicNetvsc netvsc_device bytes u32

fun alloc_regions :: "'t probe_env \<Rightarrow> nat list \<Rightarrow> 't probe_ctx \<Rightarrow> (dma_region list \<times> 't probe_ctx) run" where
  "alloc_regions env [] ctx = Ret ([], ctx)"
| "alloc_regions env (sz # szs) ctx = do {
     r \<leftarrow> boot_alloc_coherent (pe_heap env (cx_allocs ctx)) (cx_dma ctx) sz PAGE_SIZE;
     (rs, ctx) \<leftarrow> alloc_regions env szs (ctx\<lparr>cx_allocs := Suc (cx_allocs ctx)\<rparr>);
     Ret (r # rs, ctx) }"

fun free_regions :: "dma_region list \<Rightarrow> 't probe_ctx \<Rightarrow> 't probe_ctx run" where
  "free_regions [] ctx = Ret ctx"
| "free_regions (r # rs) ctx = do {
     x \<leftarrow> boot_free_coherent (cx_dma ctx) r;
     free_regions rs (ctx\<lparr>cx_freed := cx_freed ctx @ [x]\<rparr>) }"

definition pci_line :: "pci_device \<Rightarrow> 't probe_ctx \<Rightarrow> u8 \<times> 't probe_ctx" where
  "pci_line dev ctx = (case read_config dev 0x3C (cx_pci ctx) of (w, pci) \<Rightarrow> (ucast (w AND 0xFF), ctx\<lparr>cx_pci := pci\<rparr>))"

definition ctx_install :: "'t probe_env \<Rightarrow> u8 \<Rightarrow> handler \<Rightarrow> 't probe_ctx \<Rightarrow> ((installed_isr, probe_error) result \<times> 't probe_ctx) run" where
  "ctx_install env line h ctx = do {
     (r, irq) \<leftarrow> install_pci_isr (pe_cpus env) line h (cx_irq ctx);
     Ret (r, ctx\<lparr>cx_irq := irq\<rparr>) }"

definition ctx_map_mmio :: "'t probe_env \<Rightarrow> u64 \<Rightarrow> nat \<Rightarrow> 't probe_ctx \<Rightarrow> (mmio_mapping \<times> 't probe_ctx) run" where
  "ctx_map_mmio env phys sz ctx = do {
     (h, m, t) \<leftarrow> map_mmio (pe_paging env) (unat phys) sz (cx_memory ctx) (cx_table ctx);
     Ret (h, ctx\<lparr>cx_memory := m, cx_table := t\<rparr>) }"

section \<open>The drivers\<close>

definition E1000_DEVICES :: "u16 list" where "E1000_DEVICES = [0x100E, 0x100F, 0x10D3]"
definition TULIP_DEVICES :: "u16 list" where "TULIP_DEVICES = [0x0009, 0x0019]"

definition e1000_matches :: "pci_device \<Rightarrow> bool" where
  "e1000_matches d \<longleftrightarrow> pd_vendor d = 0x8086 \<and> pd_device d \<in> set E1000_DEVICES"

text \<open>A failed probe drops the device, which hands back its DMA memory; the mapping stays.\<close>

definition e1000_probe :: "'t probe_env \<Rightarrow> pci_device \<Rightarrow> 't probe_ctx \<Rightarrow> ((nic_device, probe_error) result \<times> 't probe_ctx) run" where
  "e1000_probe env dev ctx = (case pe_e1000 env dev of (hw, regs) \<Rightarrow> do {
     (bar0_phys, pci) \<leftarrow> read_bar dev 0 (cx_pci ctx);
     (mmio, ctx) \<leftarrow> ctx_map_mmio env bar0_phys 0x20000 (ctx\<lparr>cx_pci := pci\<rparr>);
     e \<leftarrow> reset_device hw regs;
     let ctx = ctx\<lparr>cx_pci := enable_bus_mastering (pe_write env) dev (cx_pci ctx)\<rparr>;
     (dma, ctx) \<leftarrow> alloc_regions env (map (\<lambda>n. n * PAGE_SIZE) [TX_RING_PAGES, RX_RING_PAGES, TX_BUF_PAGES, RX_BUF_PAGES]) ctx;
     let (mac, e) = mac_address hw (e_new hw (\<lambda>i. dma ! i) e);
     let ctx = ctx\<lparr>e1000_regs_base := mm_vaddr mmio\<rparr>;
     let (line, ctx) = pci_line dev ctx;
     (r, ctx) \<leftarrow> ctx_install env line E1000Handler ctx;
     case r of
       Err x \<Rightarrow> do { ctx \<leftarrow> free_regions (fst (e_drop hw e)) ctx; Ret (Err x, ctx) }
     | Ok isr \<Rightarrow> Ret (Ok (NicE1000 (e_enable_interrupts hw e) mac), ctx) })"

definition e1000_driver :: "'t probe_env \<Rightarrow> (pci_device, 't probe_ctx, nic_device) driver" where
  "e1000_driver env = \<lparr>drv_name = ''e1000'', drv_priority = 20, drv_matches = e1000_matches, drv_probe = e1000_probe env\<rparr>"

definition TULIP_TX_RING_PAGES :: nat where "TULIP_TX_RING_PAGES = div_ceil (TULIP_TX_RING_SIZE * 16) PAGE_SIZE"
definition TULIP_RX_RING_PAGES :: nat where "TULIP_RX_RING_PAGES = div_ceil (TULIP_RX_RING_SIZE * 16) PAGE_SIZE"
definition TULIP_TX_BUF_PAGES :: nat where "TULIP_TX_BUF_PAGES = div_ceil (TULIP_TX_RING_SIZE * TULIP_MBUF_SIZE) PAGE_SIZE"
definition TULIP_RX_BUF_PAGES :: nat where "TULIP_RX_BUF_PAGES = div_ceil (TULIP_RX_RING_SIZE * TULIP_MBUF_SIZE) PAGE_SIZE"

definition tulip_matches :: "pci_device \<Rightarrow> bool" where
  "tulip_matches d \<longleftrightarrow> pd_vendor d = 0x1011 \<and> pd_device d \<in> set TULIP_DEVICES"

definition tulip_access :: "'t probe_env \<Rightarrow> pci_device \<Rightarrow> 't probe_ctx \<Rightarrow> (csr_access \<times> 't probe_ctx) run" where
  "tulip_access env dev ctx = (case read_config dev 0x10 (cx_pci ctx) of (bar0_raw, pci) \<Rightarrow>
     let ctx = ctx\<lparr>cx_pci := pci\<rparr> in
     if bar0_raw AND 1 \<noteq> 0 then Ret (Io (ucast (bar0_raw AND NOT 0x3)), ctx)
     else do {
       (bar0_phys, pci) \<leftarrow> read_bar dev 0 (cx_pci ctx);
       (mmio, ctx) \<leftarrow> ctx_map_mmio env bar0_phys 0x1000 (ctx\<lparr>cx_pci := pci\<rparr>);
       Ret (Mmio (mm_vaddr mmio), ctx) })"

definition tulip_probe :: "'t probe_env \<Rightarrow> pci_device \<Rightarrow> 't probe_ctx \<Rightarrow> ((nic_device, probe_error) result \<times> 't probe_ctx) run" where
  "tulip_probe env dev ctx = (case pe_tulip env dev of (hw, st) \<Rightarrow> do {
     let ctx = ctx\<lparr>cx_pci := enable_bus_mastering (pe_write env) dev (cx_pci ctx)\<rparr>;
     (csr, ctx) \<leftarrow> tulip_access env dev ctx;
     let ctx = ctx\<lparr>csr_for_isr := Some csr\<rparr>;
     (dma, ctx) \<leftarrow> alloc_regions env (map (\<lambda>n. n * PAGE_SIZE) [TULIP_TX_RING_PAGES, TULIP_RX_RING_PAGES, TULIP_TX_BUF_PAGES, TULIP_RX_BUF_PAGES]) ctx;
     t \<leftarrow> tulip_new hw st (\<lambda>i. dma ! i) csr;
     let mac = t_mac t;
     let (line, ctx) = pci_line dev ctx;
     (r, ctx) \<leftarrow> ctx_install env line TulipHandler ctx;
     case r of
       Err x \<Rightarrow> do { (rs, t) \<leftarrow> t_drop t; ctx \<leftarrow> free_regions rs ctx; Ret (Err x, ctx) }
     | Ok isr \<Rightarrow> do { t \<leftarrow> t_enable_interrupts t; Ret (Ok (NicTulip t mac), ctx) } })"

definition tulip_driver :: "'t probe_env \<Rightarrow> (pci_device, 't probe_ctx, nic_device) driver" where
  "tulip_driver env = \<lparr>drv_name = ''tulip'', drv_priority = 30, drv_matches = tulip_matches, drv_probe = tulip_probe env\<rparr>"

definition netvsc_matches :: "channel_offer \<Rightarrow> bool" where
  "netvsc_matches off \<longleftrightarrow> device_type off = NETVSC"

definition netvsc_probe :: "'t probe_env \<Rightarrow> channel_offer \<Rightarrow> 't probe_ctx \<Rightarrow> ((nic_device, probe_error) result \<times> 't probe_ctx) run" where
  "netvsc_probe env off ctx = (case cx_vmbus ctx of
       None \<Rightarrow> Ret (Err (Driver ''netvsc: vmbus unavailable''), ctx)
     | Some vb \<Rightarrow> do {
         (r, g, w) \<leftarrow> netvsc_init (pe_fuel env) (pe_host env) (pe_ring_host env) (pe_rx_mem env) (pe_crash env) vb (cx_gpadl ctx) (cx_world ctx);
         let ctx = ctx\<lparr>cx_gpadl := g, cx_world := w\<rparr>;
         Ret (case r of Err e \<Rightarrow> Err (Driver ''netvsc: NetvscDevice::init failed'')
              | Ok d \<Rightarrow> Ok (NicNetvsc d (nv_mac d) (nv_mtu d)), ctx) })"

definition netvsc_driver :: "'t probe_env \<Rightarrow> (channel_offer, 't probe_ctx, nic_device) driver" where
  "netvsc_driver env = \<lparr>drv_name = ''netvsc'', drv_priority = 10, drv_matches = netvsc_matches, drv_probe = netvsc_probe env\<rparr>"

type_synonym 't boot_registry = "('t probe_ctx, nic_device) registry"

definition register_default_drivers :: "'t probe_env \<Rightarrow> 't boot_registry \<Rightarrow> 't boot_registry" where
  "register_default_drivers env r =
     register_vmbus (netvsc_driver env) (register_pci (tulip_driver env) (register_pci (e1000_driver env) r))"

definition register_named_driver :: "'t probe_env \<Rightarrow> string \<Rightarrow> 't boot_registry \<Rightarrow> 't boot_registry" where
  "register_named_driver env name r =
     (if name = ''e1000'' then register_pci (e1000_driver env) r
      else if name = ''tulip'' then register_pci (tulip_driver env) r
      else if name = ''netvsc'' then register_vmbus (netvsc_driver env) r
      else r)"

section \<open>Choosing the NIC\<close>

definition boot_registry :: "'t probe_env \<Rightarrow> string \<Rightarrow> 't boot_registry" where
  "boot_registry env cmdline = (case parse_nic_filter cmdline of
     Some name \<Rightarrow> register_named_driver env name registry_new
   | None \<Rightarrow> register_default_drivers env registry_new)"

definition ctx_enumerate :: "'t probe_ctx \<Rightarrow> pci_device list \<times> 't probe_ctx" where
  "ctx_enumerate ctx = (case pci_enumerate (cx_pci ctx) of (devs, p) \<Rightarrow> (devs, ctx\<lparr>cx_pci := p\<rparr>))"

definition ctx_offers :: "'t probe_ctx \<Rightarrow> channel_offer list" where
  "ctx_offers ctx = (case cx_vmbus ctx of Some vb \<Rightarrow> offers vb | None \<Rightarrow> [])"

definition boot_probe :: "'t probe_env \<Rightarrow> string \<Rightarrow> 't probe_ctx \<Rightarrow> (nic_device probed_nic list \<times> 't probe_ctx) run" where
  "boot_probe env cmdline ctx = probe_all ctx_enumerate ctx_offers (boot_registry env cmdline) ctx"

definition boot_nic :: "'t probe_env \<Rightarrow> string \<Rightarrow> 't probe_ctx \<Rightarrow> (nic_device probed_nic \<times> 't probe_ctx) run" where
  "boot_nic env cmdline ctx = do {
     (nics, ctx) \<leftarrow> boot_probe env cmdline ctx;
     p \<leftarrow> select_primary nics;
     Ret (p, ctx) }"

section \<open>Reference\<close>

text \<open>
  Both scans as one: the devices in order, the first driver that takes each, until \<open>k\<close> NICs are found.
\<close>

fun probe_seq :: "('d, 'c, 'n) driver list \<Rightarrow> 'd list \<Rightarrow> nat \<Rightarrow> 'c \<Rightarrow> ('n probed_nic list \<times> 'c) run" where
  "probe_seq drvs devs 0 ctx = Ret ([], ctx)"
| "probe_seq drvs [] (Suc k) ctx = Ret ([], ctx)"
| "probe_seq drvs (dev # devs) (Suc k) ctx = do {
     (r, ctx) \<leftarrow> probe_drivers drvs dev ctx;
     case r of
       None \<Rightarrow> probe_seq drvs devs (Suc k) ctx
     | Some nic \<Rightarrow> do {
         (nics, ctx) \<leftarrow> probe_seq drvs devs k ctx;
         Ret (nic # nics, ctx) } }"

section \<open>Lemmas: the probe loop\<close>

lemma scan_vmbus_eq:
  "scan_vmbus drvs os nics ctx = do { (ns, ctx) \<leftarrow> probe_seq drvs os (PROBE_BUDGET - length nics) ctx; Ret (nics @ ns, ctx) }"
proof (induction drvs os nics ctx rule: scan_vmbus.induct)
  case (1 drvs nics ctx)
  show ?case by (cases "PROBE_BUDGET - length nics") simp_all
next
  case (2 drvs off os nics ctx)
  show ?case
  proof (cases "PROBE_BUDGET - length nics")
    case 0
    then show ?thesis by simp
  next
    case (Suc k)
    then have k: "\<not> PROBE_BUDGET \<le> length nics" "PROBE_BUDGET - Suc (length nics) = k" by auto
    show ?thesis
      using k Suc 2 [OF k(1)] by (auto split: Option.bind_split prod.split option.split)
  qed
qed

lemma scan_pci_eq:
  assumes "distinct (map dev_key devs)" "dev_key ` set devs \<inter> claimed = {}"
  shows "scan_pci drvs devs nics claimed ctx =
    do { (ns, ctx) \<leftarrow> probe_seq drvs devs (PROBE_BUDGET - length nics) ctx; Ret (nics @ ns, ctx) }"
  using assms
proof (induction drvs devs nics claimed ctx rule: scan_pci.induct)
  case (1 drvs nics claimed ctx)
  show ?case by (cases "PROBE_BUDGET - length nics") simp_all
next
  case (2 drvs dev devs nics claimed ctx)
  show ?case
  proof (cases "PROBE_BUDGET - length nics")
    case 0
    then show ?thesis by simp
  next
    case (Suc k)
    then have k: "\<not> PROBE_BUDGET \<le> length nics" "PROBE_BUDGET - Suc (length nics) = k" by auto
    have d: "dev_key dev \<notin> claimed" "distinct (map dev_key devs)" "dev_key ` set devs \<inter> claimed = {}"
        "dev_key ` set devs \<inter> insert (dev_key dev) claimed = {}"
      using "2.prems" by auto
    show ?thesis
      using k Suc d "2.IH"(2,3) [OF k(1) d(1)] by (auto split: Option.bind_split prod.split option.split)
  qed
qed

lemma probe_drivers_sound:
  "probe_drivers drvs dev ctx = Ret (Some n, ctx') \<Longrightarrow>
     \<exists>drv \<in> set drvs. drv_matches drv dev \<and> pn_name n = drv_name drv \<and> pn_priority n = drv_priority drv"
  by (induction drvs dev ctx rule: probe_drivers.induct) (auto split: if_splits Option.bind_splits prod.splits result.splits)

definition from_driver :: "('d, 'c, 'n) driver list \<Rightarrow> 'n probed_nic \<Rightarrow> bool" where
  "from_driver drvs n \<longleftrightarrow> (\<exists>drv \<in> set drvs. pn_name n = drv_name drv \<and> pn_priority n = drv_priority drv)"

lemma probe_seq_sound:
  "probe_seq drvs devs k ctx = Ret (ns, ctx') \<Longrightarrow> length ns \<le> k \<and> (\<forall>n \<in> set ns. from_driver drvs n)"
proof (induction drvs devs k ctx arbitrary: ns rule: probe_seq.induct)
  case (3 drvs dev devs k ctx)
  from "3.prems" obtain r c1 where r: "probe_drivers drvs dev ctx = Ret (r, c1)" by (auto split: Option.bind_splits)
  show ?case
  proof (cases r)
    case None
    then show ?thesis using 3 r by auto
  next
    case (Some n)
    then obtain ms where "probe_seq drvs devs k c1 = Ret (ms, ctx')" "ns = n # ms"
      using "3.prems" r by (auto split: Option.bind_splits)
    then show ?thesis
      using "3.IH"(2) [OF r refl Some] probe_drivers_sound [of drvs dev ctx n c1] r Some by (auto simp: from_driver_def)
  qed
qed auto

lemma min_by_key_Some:
  assumes "xs \<noteq> []"
  shows "\<exists>m. min_by_key f xs = Some m \<and> m \<in> set xs \<and> (\<forall>x \<in> set xs. f m \<le> f x)"
proof -
  have "let m = foldl (\<lambda>best y. if f y < f best then y else best) x r in m \<in> set (x # r) \<and> (\<forall>y \<in> set (x # r). f m \<le> f y)" for x r
  proof (induction r arbitrary: x)
    case (Cons y r)
    show ?case using Cons [of x] Cons [of y] by (auto simp: Let_def)
  qed simp
  then show ?thesis using assms by (cases xs) (auto simp: min_by_key_def Let_def)
qed

lemma ctx_enumerate_keys: "distinct (map dev_key (fst (ctx_enumerate ctx)))"
  unfolding dev_key_def [abs_def]
  using enum_devs_eq [OF refl, of device_slots "[]" "cx_pci ctx"] devices_of_keys [of "config_regs (cx_pci ctx)"]
  by (auto simp: ctx_enumerate_def pci_enumerate_def devices_of_def)

definition probe_reference :: "('c \<Rightarrow> pci_device list \<times> 'c) \<Rightarrow> ('c \<Rightarrow> channel_offer list) \<Rightarrow> ('c, 'n) registry \<Rightarrow> 'c \<Rightarrow>
   ('n probed_nic list \<times> 'c) run" where
  "probe_reference enum offers_in reg ctx = do {
     (pci, ctx) \<leftarrow> probe_seq (reg_pci reg) (fst (enum ctx)) 4 (snd (enum ctx));
     (vm, ctx) \<leftarrow> probe_seq (reg_vmbus reg) (offers_in ctx) (4 - length pci) ctx;
     Ret (pci @ vm, ctx) }"

lemma boot_probe_eq: "boot_probe env cmdline ctx = probe_reference ctx_enumerate ctx_offers (boot_registry env cmdline) ctx"
proof -
  obtain devs c where e: "ctx_enumerate ctx = (devs, c)" by (cases "ctx_enumerate ctx")
  then have "distinct (map dev_key devs)" using ctx_enumerate_keys [of ctx] by simp
  from scan_pci_eq [OF this, of "{}" "reg_pci (boot_registry env cmdline)" "[]" c] show ?thesis
    unfolding boot_probe_def probe_all_def probe_reference_def e
    by (auto simp: scan_vmbus_eq PROBE_BUDGET_def split: Option.bind_split prod.split)
qed

lemma boot_probe_sound:
  assumes "boot_probe env cmdline ctx = Ret (nics, ctx')"
  shows "length nics \<le> 4"
    "n \<in> set nics \<Longrightarrow> from_driver (reg_pci (boot_registry env cmdline)) n \<or> from_driver (reg_vmbus (boot_registry env cmdline)) n"
proof -
  from assms obtain a c b where p: "probe_seq (reg_pci (boot_registry env cmdline)) (fst (ctx_enumerate ctx)) 4 (snd (ctx_enumerate ctx)) = Ret (a, c)"
      "probe_seq (reg_vmbus (boot_registry env cmdline)) (ctx_offers c) (4 - length a) c = Ret (b, ctx')" "nics = a @ b"
    unfolding boot_probe_eq probe_reference_def by (auto split: Option.bind_splits)
  from probe_seq_sound [OF p(1)] probe_seq_sound [OF p(2)] p(3)
  show "length nics \<le> 4"
    "n \<in> set nics \<Longrightarrow> from_driver (reg_pci (boot_registry env cmdline)) n \<or> from_driver (reg_vmbus (boot_registry env cmdline)) n"
    by auto
qed

lemma boot_nics_named:
  assumes "from_driver (reg_pci (boot_registry env cmdline)) n \<or> from_driver (reg_vmbus (boot_registry env cmdline)) n"
  shows "(pn_name n, pn_priority n) \<in> {(''e1000'', 20), (''tulip'', 30), (''netvsc'', 10)}"
    "parse_nic_filter cmdline = Some name \<Longrightarrow> pn_name n = name"
proof -
  show "(pn_name n, pn_priority n) \<in> {(''e1000'', 20), (''tulip'', 30), (''netvsc'', 10)}"
    using assms
    by (cases "parse_nic_filter cmdline")
      (auto simp: boot_registry_def from_driver_def register_named_driver_def register_default_drivers_def register_pci_def
        register_vmbus_def registry_new_def e1000_driver_def tulip_driver_def netvsc_driver_def split: if_splits)
  show "parse_nic_filter cmdline = Some name \<Longrightarrow> pn_name n = name"
    using assms
    by (auto simp: boot_registry_def from_driver_def register_named_driver_def register_pci_def
        register_vmbus_def registry_new_def e1000_driver_def tulip_driver_def netvsc_driver_def split: if_splits)
qed

lemma boot_nic_spec:
  assumes "boot_probe env cmdline ctx = Ret (nics, ctx')" "nics \<noteq> []"
  shows "\<exists>p. boot_nic env cmdline ctx = Ret (p, ctx') \<and> p \<in> set nics \<and> length nics \<le> 4 \<and>
    (\<forall>n \<in> set nics. pn_priority p \<le> pn_priority n) \<and>
    (\<forall>name. parse_nic_filter cmdline = Some name \<longrightarrow> pn_name p = name) \<and>
    pn_name p = (if \<exists>n \<in> set nics. pn_name n = ''netvsc'' then ''netvsc''
                 else if \<exists>n \<in> set nics. pn_name n = ''e1000'' then ''e1000'' else ''tulip'')"
proof -
  obtain p where p: "min_by_key pn_priority nics = Some p" "p \<in> set nics" "\<forall>n \<in> set nics. pn_priority p \<le> pn_priority n"
    using min_by_key_Some [OF assms(2)] by blast
  have b: "boot_nic env cmdline ctx = Ret (p, ctx')" using assms p(1) by (simp add: boot_nic_def select_primary_def)
  note named = boot_nics_named [OF boot_probe_sound(2) [OF assms(1)]]
  have "pn_name p = (if \<exists>n \<in> set nics. pn_name n = ''netvsc'' then ''netvsc''
      else if \<exists>n \<in> set nics. pn_name n = ''e1000'' then ''e1000'' else ''tulip'')"
  proof -
    have c: "pn_name n = ''e1000'' \<and> pn_priority n = 20 \<or> pn_name n = ''tulip'' \<and> pn_priority n = 30 \<or>
        pn_name n = ''netvsc'' \<and> pn_priority n = 10" if "n \<in> set nics" for n
      using named(1) [OF that] by auto
    have l: "pn_priority p \<le> pn_priority n" if "n \<in> set nics" for n using p(3) that by blast
    have v: "pn_name p = ''netvsc''" if "n \<in> set nics" "pn_name n = ''netvsc''" for n
      using c [of n] c [OF p(2)] l [of n] that by auto
    have e: "pn_name p \<noteq> ''tulip''" if "n \<in> set nics" "pn_name n = ''e1000''" for n
      using c [of n] c [OF p(2)] l [of n] that by auto
    show ?thesis using c [OF p(2)] p(2) by (auto dest: v e)
  qed
  then show ?thesis using b p(2,3) boot_probe_sound(1) [OF assms(1)] named(2) [OF p(2)] by blast
qed

section \<open>Lemmas: DMA memory and registers\<close>

text \<open>Every allocation of up to a megabyte succeeds and its physical range is proper.\<close>

definition heap_ok :: "'t probe_env \<Rightarrow> boot_dma_allocator \<Rightarrow> bool" where
  "heap_ok env a \<longleftrightarrow> (\<forall>k sz. sz \<le> 2 ^ 20 \<longrightarrow>
     (\<exists>r. boot_alloc_coherent (pe_heap env k) a sz PAGE_SIZE = Ret r \<and> dma_range_ok r sz))"

text \<open>The regions of consecutive allocations, from the \<open>k\<close>th on.\<close>

definition allocated :: "'t probe_env \<Rightarrow> boot_dma_allocator \<Rightarrow> nat \<Rightarrow> nat list \<Rightarrow> dma_region list \<Rightarrow> bool" where
  "allocated env a k szs rs \<longleftrightarrow> length rs = length szs \<and> (\<forall>i < length szs. szs ! i \<le> 2 ^ 20 \<and>
     boot_alloc_coherent (pe_heap env (k + i)) a (szs ! i) PAGE_SIZE = Ret (rs ! i) \<and> dma_range_ok (rs ! i) (szs ! i))"

lemma allocated_Cons:
  "allocated env a k (sz # szs) (r # rs) \<longleftrightarrow> sz \<le> 2 ^ 20 \<and> boot_alloc_coherent (pe_heap env k) a sz PAGE_SIZE = Ret r \<and>
     dma_range_ok r sz \<and> allocated env a (Suc k) szs rs"
  by (auto simp: allocated_def less_Suc_eq_0_disj)

lemma alloc_regions_ok:
  assumes "heap_ok env (cx_dma ctx)" "list_all (\<lambda>sz. sz \<le> 2 ^ 20) szs"
  shows "\<exists>rs. alloc_regions env szs ctx = Ret (rs, ctx\<lparr>cx_allocs := cx_allocs ctx + length szs\<rparr>) \<and>
    allocated env (cx_dma ctx) (cx_allocs ctx) szs rs"
  using assms
proof (induction szs arbitrary: ctx)
  case Nil
  then show ?case by (simp add: allocated_def)
next
  case (Cons sz szs)
  obtain r where r: "boot_alloc_coherent (pe_heap env (cx_allocs ctx)) (cx_dma ctx) sz PAGE_SIZE = Ret r" "dma_range_ok r sz"
    using Cons.prems unfolding heap_ok_def by (metis list.pred_inject(2))
  obtain rs where rs: "alloc_regions env szs (ctx\<lparr>cx_allocs := Suc (cx_allocs ctx)\<rparr>) =
      Ret (rs, ctx\<lparr>cx_allocs := Suc (cx_allocs ctx) + length szs\<rparr>)" "allocated env (cx_dma ctx) (Suc (cx_allocs ctx)) szs rs"
    using Cons.IH [of "ctx\<lparr>cx_allocs := Suc (cx_allocs ctx)\<rparr>"] Cons.prems by auto
  show ?case using r rs Cons.prems(2) by (intro exI [of _ "r # rs"]) (simp add: allocated_Cons)
qed

text \<open>The blocks handed out, as the heap knows them.\<close>

definition blocks :: "'t probe_env \<Rightarrow> nat \<Rightarrow> nat list \<Rightarrow> (u64 \<times> nat \<times> nat) list" where
  "blocks env k szs = map (\<lambda>i. (pe_heap env (k + i) (szs ! i) PAGE_SIZE, szs ! i, PAGE_SIZE)) [0..<length szs]"

lemma blocks_Cons: "blocks env k (sz # szs) = (pe_heap env k sz PAGE_SIZE, sz, PAGE_SIZE) # blocks env (Suc k) szs"
  by (simp add: blocks_def upt_conv_Cons map_Suc_upt [symmetric] comp_def del: upt_Suc)

lemma free_regions_ok:
  assumes "allocated env (cx_dma ctx) k szs rs"
  shows "free_regions rs ctx = Ret (ctx\<lparr>cx_freed := cx_freed ctx @ blocks env k szs\<rparr>)"
  using assms
proof (induction szs arbitrary: k rs ctx)
  case Nil
  then show ?case by (simp add: allocated_def blocks_def)
next
  case (Cons sz szs)
  then obtain r rs' where rs: "rs = r # rs'" by (cases rs) (auto simp: allocated_def)
  have a: "boot_alloc_coherent (pe_heap env k) (cx_dma ctx) sz 4096 = Ret r" "sz \<le> 2 ^ 63 - 4096"
    using Cons.prems by (auto simp: rs allocated_Cons PAGE_SIZE_def)
  have "boot_free_coherent (cx_dma ctx) r = Ret (pe_heap env k sz 4096, sz, 4096)"
    using dma_free_roundtrip [OF a] by blast
  then show ?case
    using Cons.IH [of "ctx\<lparr>cx_freed := cx_freed ctx @ [(pe_heap env k sz 4096, sz, 4096)]\<rparr>" "Suc k" rs'] Cons.prems
    by (simp add: rs allocated_Cons blocks_Cons PAGE_SIZE_def)
qed

definition dma_of :: "e1000 \<Rightarrow> dma_region list" where
  "dma_of e = [e_tx_ring_dma e, e_rx_ring_dma e, e_tx_bufs_dma e, e_rx_bufs_dma e]"

lemma dma_of_write_regs: "dma_of (write_regs ws e) = dma_of e"
  unfolding write_regs_def by (induction ws arbitrary: e) (auto simp: write_reg_def dma_of_def)

lemma dma_of_new: "dma_of (e_new hw dma e) = [dma 0, dma 1, dma 2, dma 3]"
proof -
  have "dma_of (e\<lparr>e_reads := n\<rparr>) = dma_of e" for e n by (simp add: dma_of_def)
  then show ?thesis
    by (simp add: e_new_def init_rings_def Let_def read_reg_def write_flush_def dma_of_write_regs) (simp add: dma_of_def)
qed

lemma dma_of_poll: "dma_of (snd (poll_reset n hw e)) = dma_of e"
proof (induction n arbitrary: e)
  case (Suc n)
  show ?case using Suc [of "e\<lparr>e_reads := Suc (e_reads e)\<rparr>"] by (simp add: read_reg_def dma_of_def)
qed simp

lemma e_drop_regions: "fst (e_drop hw e) = dma_of e"
proof -
  obtain b e' where p: "poll_reset 100000 hw (start_reset hw e) = (b, e')" by (rule prod.exhaust)
  have "dma_of e' = dma_of (start_reset hw e)" using dma_of_poll [of 100000 hw "start_reset hw e"] p by (metis snd_conv)
  also have "\<dots> = dma_of e" by (simp add: start_reset_def read_reg_def write_reg_def dma_of_def)
  finally have "dma_of e' = dma_of e" .
  then show ?thesis unfolding e_drop_def p by (simp add: dma_of_def)
qed

lemma mac_address_snd: "snd (mac_address hw e) = e\<lparr>e_reads := Suc (Suc (e_reads e))\<rparr>"
  by (simp add: mac_address_def read_reg_def)

lemma line_register: "pci_config_address b d f 4 \<noteq> pci_config_address b d f 0x3C"
proof
  assume "pci_config_address b d f 4 = pci_config_address b d f 0x3C"
  then have "bit (pci_config_address b d f 4) 3 = bit (pci_config_address b d f 0x3C) 3" by simp
  then show False by (simp add: bit_config_address)
qed

lemma read_bar_ok: "\<exists>bar p'. read_bar dev 0 p = Ret (bar, p') \<and> config_regs p' = config_regs p"
  by (simp add: read_bar_def assert_run_def pci_read32_eq Let_def)

text \<open>The interrupt line a device reports.\<close>

definition line_of :: "pci_device \<Rightarrow> 't probe_ctx \<Rightarrow> u8" where
  "line_of dev ctx = ucast (config_regs (cx_pci ctx) (pci_config_address (pd_bus dev) (pd_dev dev) (pd_func dev) 0x3C) AND 0xFF)"

definition e1000_sizes_list :: "nat list" where
  "e1000_sizes_list = map (\<lambda>n. n * PAGE_SIZE) [TX_RING_PAGES, RX_RING_PAGES, TX_BUF_PAGES, RX_BUF_PAGES]"

lemma e1000_sizes_eq: "e1000_sizes_list = [4096, 4096, 524288, 524288]"
  by (simp add: e1000_sizes_list_def TX_RING_PAGES_def RX_RING_PAGES_def TX_BUF_PAGES_def RX_BUF_PAGES_def PAGE_SIZE_def
      div_ceil_def TX_RING_SIZE_def RX_RING_SIZE_def MBUF_SIZE_def)

text \<open>A fresh device with interrupts enabled is fit for use.\<close>

lemma e1000_fresh_good:
  assumes "tails_hold hw" "dma_range_ok (dma 3) 524288"
  shows "e1000_good hw (e_enable_interrupts hw ((e_new hw dma e)\<lparr>e_reads := k\<rparr>), w)"
proof -
  let ?e = "e_new hw dma e"
  have d: "dma_range_ok (dma 3) (256 * 2048)" using assms(2) by simp
  have "e_rx ?e = map (init_rx_desc (dma 3)) [0..<256]" by (simp add: e_new_def init_lists del: upt_rec_numeral)
  then have r: "\<forall>d \<in> set (e_rx ?e). rd_errors d = 0" by (simp add: init_rx_desc_def del: upt_rec_numeral)
  let ?f = "e_enable_interrupts hw (?e\<lparr>e_reads := k\<rparr>)"
  have parts: "tx_part ?f = tx_part ?e" "rx_part ?f = rx_part ?e"
    by (simp_all add: tx_part_def rx_part_def e_enable_interrupts_def write_flush_def read_reg_def write_reg_def
        IMS_def TDT_def RDT_def)
  show ?thesis
    using assms(1) e1000_parts(1) [OF parts(1)] e1000_rx_parts(1,2) [OF parts(2)] e_new_tx(1) [of hw dma e] e_new_rx(1) [of dma hw e, OF d] r
    by (simp add: e1000_good_def)
qed

section \<open>Lemmas: probing an e1000\<close>

lemma ctx_map_mmio_ok:
  assumes "paging_laws (pe_paging env)" "window_free (pe_paging env) (cx_memory ctx) (cx_table ctx)"
    "next_vaddr (cx_memory ctx) + extent sz + 4096 \<le> 2 ^ 47" "unat phys + extent sz \<le> 2 ^ 52"
  shows "\<exists>h m t. ctx_map_mmio env phys sz ctx = Ret (h, ctx\<lparr>cx_memory := m, cx_table := t\<rparr>) \<and>
    (\<forall>k < extent sz. translate (pe_paging env) (mm_vaddr h + k) t = Some (containing_address (unat phys) + k))"
proof -
  obtain h m t where r: "map_one (pe_paging env) (MapMmio (unat phys) sz) (cx_memory ctx) (cx_table ctx) = Ret (h, m, t)"
      "mm_size h = sz"
      "\<forall>a. translate (pe_paging env) a t = (if in_region h a
         then Some (containing_address (unat phys) + (a - mm_vaddr h)) else translate (pe_paging env) a (cx_table ctx))"
    using map_one_spec [OF assms(1,2), of "MapMmio (unat phys) sz"] assms(3,4) by auto
  then have "ctx_map_mmio env phys sz ctx = Ret (h, ctx\<lparr>cx_memory := m, cx_table := t\<rparr>)"
    by (simp add: ctx_map_mmio_def map_one_def)
  moreover have "\<forall>k < extent sz. translate (pe_paging env) (mm_vaddr h + k) t = Some (containing_address (unat phys) + k)"
    using r(2,3) by (simp add: in_region_def)
  ultimately show ?thesis by blast
qed

text \<open>What a probe needs of the machine and of the context.\<close>

definition e1000_probe_ok :: "nat \<Rightarrow> 't probe_env \<Rightarrow> pci_device \<Rightarrow> 't probe_ctx \<Rightarrow> u64 \<Rightarrow> bool" where
  "e1000_probe_ok n env dev ctx bar \<longleftrightarrow>
     tails_hold (fst (pe_e1000 env dev)) \<and> reset_device (fst (pe_e1000 env dev)) (snd (pe_e1000 env dev)) \<noteq> Panic \<and>
     paging_laws (pe_paging env) \<and> window_free (pe_paging env) (cx_memory ctx) (cx_table ctx) \<and>
     next_vaddr (cx_memory ctx) + 0x21000 \<le> 2 ^ 47 \<and>
     map_option fst (read_bar dev 0 (cx_pci ctx)) = Some bar \<and> unat bar + 0x20000 \<le> 2 ^ 52 \<and>
     heap_ok env (cx_dma ctx) \<and> entries_ok n (cx_irq ctx)"

text \<open>The outcome of a probe: a working NIC whose interrupt is routed, or the DMA memory given back.\<close>

definition e1000_outcome :: "nat \<Rightarrow> 't probe_env \<Rightarrow> pci_device \<Rightarrow> 't probe_ctx \<Rightarrow> u64 \<Rightarrow> (nic_device, probe_error) result \<Rightarrow> 't probe_ctx \<Rightarrow> bool" where
  "e1000_outcome n env dev ctx bar r ctx' \<longleftrightarrow> (case r of
     Ok nic \<Rightarrow> (\<exists>e mac v. nic = NicE1000 e mac \<and> e1000_good (fst (pe_e1000 env dev)) (e, False) \<and> length mac = 6 \<and>
       v \<notin> vectors_taken (ic_vectors (cx_irq ctx)) \<and> ic_idt (cx_irq ctx') v = Some E1000Handler \<and>
       fst (redirection (cx_irq ctx') (line_of dev ctx)) = ucast v) \<and>
       (\<forall>k < 0x20000. translate (pe_paging env) (e1000_regs_base ctx' + k) (cx_table ctx') = Some (containing_address (unat bar) + k)) \<and>
       cx_freed ctx' = cx_freed ctx
   | Err x \<Rightarrow> (x = InvalidIrqLine (line_of dev ctx) \<and> \<not> unat (line_of dev ctx) < n \<or>
       x = NoFreeVector \<and> vectors_taken (ic_vectors (cx_irq ctx)) = {start (ic_vectors (cx_irq ctx))..last (ic_vectors (cx_irq ctx))}) \<and>
       cx_freed ctx' = cx_freed ctx @ blocks env (cx_allocs ctx) e1000_sizes_list)"

lemma pci_line_eq:
  assumes "config_regs p = config_regs (cx_pci ctx)"
  shows "\<exists>q. pci_line dev (c\<lparr>cx_pci := enable_bus_mastering wr dev p\<rparr>) = (line_of dev ctx, c\<lparr>cx_pci := q\<rparr>)"
  using line_register [of "pd_bus dev" "pd_dev dev" "pd_func dev"] assms
  by (intro exI [of _ "(enable_bus_mastering wr dev p)\<lparr>config_addr := pci_config_address (pd_bus dev) (pd_dev dev) (pd_func dev) 0x3C\<rparr>"])
    (simp add: pci_line_def read_config_def pci_read32_eq enable_bus_mastering_regs line_of_def Let_def)

text \<open>The steps of a probe up to the interrupt: the context then, the device and the regions it has.\<close>

lemma e1000_probe_run:
  assumes ok: "e1000_probe_ok n env dev ctx bar" and hw: "pe_e1000 env dev = (hw, regs)"
  shows "\<exists>rs e0 k mac r irq c. allocated env (cx_dma ctx) (cx_allocs ctx) e1000_sizes_list rs \<and> length mac = 6 \<and>
    install_effect n (pe_cpus env) (line_of dev ctx, E1000Handler, Bsp) (cx_irq ctx) r irq \<and>
    cx_freed c = cx_freed ctx \<and> cx_dma c = cx_dma ctx \<and> cx_irq c = irq \<and>
    (\<forall>k < 0x20000. translate (pe_paging env) (e1000_regs_base c + k) (cx_table c) = Some (containing_address (unat bar) + k)) \<and>
    e1000_probe env dev ctx = (let e = (e_new hw ((!) rs) e0)\<lparr>e_reads := k\<rparr> in case r of
       Err x \<Rightarrow> do { c \<leftarrow> free_regions (fst (e_drop hw e)) c; Ret (Err x, c) }
     | Ok isr \<Rightarrow> Ret (Ok (NicE1000 (e_enable_interrupts hw e) mac), c))"
proof -
  note ok = ok [unfolded e1000_probe_ok_def hw fst_conv snd_conv]
  have x: "extent 0x20000 = 0x20000" by (simp add: extent_def num_pages_def)
  obtain p where p: "read_bar dev 0 (cx_pci ctx) = Ret (bar, p)" "config_regs p = config_regs (cx_pci ctx)"
    using read_bar_ok [of dev "cx_pci ctx"] ok by auto
  obtain h m t where map: "ctx_map_mmio env bar 0x20000 (ctx\<lparr>cx_pci := p\<rparr>) = Ret (h, ctx\<lparr>cx_pci := p, cx_memory := m, cx_table := t\<rparr>)"
      "\<forall>k < 0x20000. translate (pe_paging env) (mm_vaddr h + k) t = Some (containing_address (unat bar) + k)"
    using ctx_map_mmio_ok [of env "ctx\<lparr>cx_pci := p\<rparr>" "0x20000" bar] ok x by auto
  obtain e0 where e0: "reset_device hw regs = Ret e0" using ok by auto
  define c2 where "c2 = ctx\<lparr>cx_pci := p, cx_memory := m, cx_table := t\<rparr>"
  define c3 where "c3 = c2\<lparr>cx_pci := enable_bus_mastering (pe_write env) dev (cx_pci c2)\<rparr>"
  obtain rs where rs: "alloc_regions env e1000_sizes_list c3 = Ret (rs, c3\<lparr>cx_allocs := cx_allocs c3 + 4\<rparr>)"
      "allocated env (cx_dma ctx) (cx_allocs ctx) e1000_sizes_list rs"
    using alloc_regions_ok [of env c3 e1000_sizes_list] ok by (auto simp: e1000_sizes_eq c3_def c2_def)
  let ?e = "e_new hw ((!) rs) e0"
  obtain mac where mac: "mac_address hw ?e = (mac, ?e\<lparr>e_reads := Suc (Suc (e_reads ?e))\<rparr>)" "length mac = 6"
    by (simp add: mac_address_def read_reg_def)
  define c5 where "c5 = c3\<lparr>cx_allocs := cx_allocs c3 + 4, e1000_regs_base := mm_vaddr h\<rparr>"
  have "c5 = (c2\<lparr>cx_allocs := cx_allocs c2 + 4, e1000_regs_base := mm_vaddr h\<rparr>)
      \<lparr>cx_pci := enable_bus_mastering (pe_write env) dev p\<rparr>" by (simp add: c5_def c3_def c2_def)
  then obtain q where line: "pci_line dev c5 = (line_of dev ctx, c5\<lparr>cx_pci := q\<rparr>)"
    using pci_line_eq [OF p(2), where dev = dev and wr = "pe_write env"
        and c = "c2\<lparr>cx_allocs := cx_allocs c2 + 4, e1000_regs_base := mm_vaddr h\<rparr>"] by auto
  obtain r irq where i: "install_pci_isr (pe_cpus env) (line_of dev ctx) E1000Handler (cx_irq ctx) = Ret (r, irq)"
      "install_effect n (pe_cpus env) (line_of dev ctx, E1000Handler, Bsp) (cx_irq ctx) r irq"
    using install_one [of n "cx_irq ctx"] ok unfolding install_pci_isr_def by blast
  define c6 where "c6 = c5\<lparr>cx_pci := q\<rparr>"
  have c6: "cx_irq c6 = cx_irq ctx" "cx_freed c6 = cx_freed ctx" "cx_dma c6 = cx_dma ctx" "cx_table c6 = t"
      "e1000_regs_base c6 = mm_vaddr h"
    by (simp_all add: c6_def c5_def c3_def c2_def)
  have inst: "ctx_install env (line_of dev ctx) E1000Handler c6 = Ret (r, c6\<lparr>cx_irq := irq\<rparr>)"
    using i(1) c6(1) by (simp add: ctx_install_def)
  have "e1000_probe env dev ctx = (let e = ?e\<lparr>e_reads := Suc (Suc (e_reads ?e))\<rparr> in case r of
       Err x \<Rightarrow> do { c \<leftarrow> free_regions (fst (e_drop hw e)) (c6\<lparr>cx_irq := irq\<rparr>); Ret (Err x, c) }
     | Ok isr \<Rightarrow> Ret (Ok (NicE1000 (e_enable_interrupts hw e) mac), c6\<lparr>cx_irq := irq\<rparr>))"
    unfolding e1000_probe_def e1000_sizes_list_def [symmetric] Let_def
    using hw p(1) map(1) [folded c2_def] e0 rs(1) mac(1) line [folded c6_def] inst
    by (simp add: c3_def [symmetric] c5_def [symmetric])
  then show ?thesis
    using rs(2) mac(2) i(2) map(2) c6
    by (intro exI [of _ rs] exI [of _ e0] exI [of _ "Suc (Suc (e_reads ?e))"] exI [of _ mac] exI [of _ r] exI [of _ irq]
        exI [of _ "c6\<lparr>cx_irq := irq\<rparr>"]) simp
qed

lemma e_drop_new:
  assumes "length rs = 4"
  shows "fst (e_drop hw ((e_new hw ((!) rs) e0)\<lparr>e_reads := k\<rparr>)) = rs"
proof -
  have "rs = [rs ! 0, rs ! 1, rs ! 2, rs ! 3]"
    using assms by (auto simp: list_eq_iff_nth_eq less_Suc_eq numeral_eq_Suc)
  then show ?thesis using dma_of_new [of hw "(!) rs" e0] by (simp add: e_drop_regions dma_of_def)
qed

lemma e1000_probe_spec:
  assumes "e1000_probe_ok n env dev ctx bar"
  shows "\<exists>r ctx'. e1000_probe env dev ctx = Ret (r, ctx') \<and> e1000_outcome n env dev ctx bar r ctx'"
proof -
  obtain hw regs where hw: "pe_e1000 env dev = (hw, regs)" by (cases "pe_e1000 env dev")
  obtain rs e0 k mac r irq c where
    rs: "allocated env (cx_dma ctx) (cx_allocs ctx) e1000_sizes_list rs" and
    m: "length mac = 6" "\<forall>k < 0x20000. translate (pe_paging env) (e1000_regs_base c + k) (cx_table c) = Some (containing_address (unat bar) + k)" and
    i: "install_effect n (pe_cpus env) (line_of dev ctx, E1000Handler, Bsp) (cx_irq ctx) r irq" and
    c: "cx_freed c = cx_freed ctx" "cx_dma c = cx_dma ctx" "cx_irq c = irq" and
    run: "e1000_probe env dev ctx = (let e = (e_new hw ((!) rs) e0)\<lparr>e_reads := k\<rparr> in case r of
       Err x \<Rightarrow> do { c \<leftarrow> free_regions (fst (e_drop hw e)) c; Ret (Err x, c) }
     | Ok isr \<Rightarrow> Ret (Ok (NicE1000 (e_enable_interrupts hw e) mac), c))"
    using e1000_probe_run [OF assms hw] by blast
  have l: "length rs = 4" using rs by (simp add: allocated_def e1000_sizes_eq)
  show ?thesis
  proof (cases r)
    case (Ok isr)
    have "dma_range_ok (rs ! 3) 524288" using rs by (auto simp: allocated_def e1000_sizes_eq dest: spec [of _ 3])
    then have "e1000_good hw (e_enable_interrupts hw ((e_new hw ((!) rs) e0)\<lparr>e_reads := k\<rparr>), False)"
      using e1000_fresh_good [of hw "(!) rs"] assms hw by (simp add: e1000_probe_ok_def)
    then show ?thesis
      using run i m c by (auto simp: Ok e1000_outcome_def install_effect_def hw)
  next
    case (Err x)
    have "free_regions rs c = Ret (c\<lparr>cx_freed := cx_freed ctx @ blocks env (cx_allocs ctx) e1000_sizes_list\<rparr>)"
      using free_regions_ok [of env c "cx_allocs ctx" e1000_sizes_list rs] rs c by simp
    then show ?thesis
      using run i by (auto simp: Err e1000_outcome_def install_effect_def hw e_drop_new [OF l])
  qed
qed

section \<open>Theorems\<close>


text \<open>C40. The kernel picks the NIC by priority.  When probing found NICs, at most four, the primary one is one of
  them and none has a smaller priority value: a NetVSC device if there is one, else an e1000, else a
  Tulip.  With a filter \<open>nic=name\<close> on the command line it is of the driver of that name.\<close>

theorem boot_nic_choice:
  assumes "boot_probe env cmdline ctx = Ret (nics, ctx')" "nics \<noteq> []"
  shows "\<exists>p. boot_nic env cmdline ctx = Ret (p, ctx') \<and> p \<in> set nics \<and> length nics \<le> 4 \<and>
    (\<forall>n \<in> set nics. pn_priority p \<le> pn_priority n) \<and>
    (\<forall>name. parse_nic_filter cmdline = Some name \<longrightarrow> pn_name p = name) \<and>
    pn_name p = (if \<exists>n \<in> set nics. pn_name n = ''netvsc'' then ''netvsc''
                 else if \<exists>n \<in> set nics. pn_name n = ''e1000'' then ''e1000'' else ''tulip'')"
  by (rule boot_nic_spec [OF assms])

text \<open>A machine with one e1000 as device 3, interrupt line 11, and nothing else.\<close>

definition demo_config :: "u32 \<Rightarrow> u32" where
  "demo_config a = (if a = 0x80001800 then 0x100E8086 else if a = 0x80001808 then 0x02000003 else if a = 0x8000180C then 0
     else if a = 0x80001810 then 0xFEBC0000 else if a = 0x8000183C then 0x10B else 0xFFFFFFFF)"

definition demo_regs_hw :: reg_hw where
  "demo_regs_hw n off v = (if off = CTL then 0 else v)"

definition demo_env :: "(nat \<rightharpoonup> nat) probe_env" where
  "demo_env = \<lparr>pe_write = (\<lambda>a old new. new), pe_paging = map_paging, pe_heap = (\<lambda>k sz al. 0x100000),
     pe_e1000 = (\<lambda>d. (demo_regs_hw, blank_e1000)), pe_tulip = (\<lambda>d. (\<lambda>n a. 0, \<lambda>_. 0)), pe_cpus = \<lparr>locals = [], gs_base = 0\<rparr>,
     pe_fuel = 0, pe_host = demo_host, pe_ring_host = (\<lambda>n p. p), pe_rx_mem = (\<lambda>n. []), pe_crash = 0\<rparr>"

definition demo_ctx :: "(nat \<rightharpoonup> nat) probe_ctx" where
  "demo_ctx = \<lparr>cx_dma = \<lparr>kernel_offset = 0, phys_offset = 0\<rparr>, cx_allocs = 0, cx_freed = [], cx_memory = mapper_new 0 0,
     cx_table = Map.empty, cx_irq = \<lparr>ic_ioapic = \<lparr>io_regsel = 0, io_regs = (\<lambda>r. if r = 1 then 0x170020 else 0x10000)\<rparr>,
       ic_vectors = \<lparr>used = 0x81, start = 32, last = 47\<rparr>, ic_idt = idt_init DefaultHandler\<rparr>,
     cx_pci = \<lparr>config_addr = 0, config_regs = demo_config\<rparr>, cx_vmbus = None, cx_gpadl = 0, cx_world = demo_world,
     e1000_regs_base = 0, csr_for_isr = None\<rparr>"

definition demo_dev :: pci_device where
  "demo_dev = \<lparr>pd_bus = 0, pd_dev = 3, pd_func = 0, pd_vendor = 0x8086, pd_device = 0x100E, pd_class = 2, pd_subclass = 0\<rparr>"

lemma demo_probe_ok:
  assumes "c = demo_ctx\<lparr>cx_pci := p\<rparr>" "config_regs p = demo_config"
  shows "e1000_probe_ok 24 demo_env demo_dev c 0xFEBC0000"
proof -
  have "reset_device demo_regs_hw blank_e1000 \<noteq> Panic"
    unfolding reset_device_iff by (intro exI [of _ 0]) (simp add: demo_regs_hw_def)
  moreover have "tails_hold demo_regs_hw" by (simp add: tails_hold_def demo_regs_hw_def RDT_def TDT_def CTL_def)
  moreover have "window_free map_paging (mapper_new 0 0) Map.empty" "next_vaddr (mapper_new 0 0) + 0x21000 \<le> 2 ^ 47"
    by (simp_all add: window_free_def mapper_new_def MMIO_VIRT_BASE_def map_paging_def)
  moreover have "heap_ok demo_env (cx_dma demo_ctx)"
    by (simp add: heap_ok_def demo_env_def demo_ctx_def boot_alloc_coherent_def assert_run_def layout_ok_def is_power_of_two_def
        upt_rec sub64_def add64_def dma_range_ok_def PAGE_SIZE_def)
  moreover have "entries_ok 24 (cx_irq demo_ctx)" by (simp add: demo_ctx_def entries_ok_def vectors_inv_def)
  moreover have "map_option fst (read_bar demo_dev 0 p) = Some 0xFEBC0000"
    using assms(2) by (simp add: read_bar_def assert_run_def pci_read32_eq demo_dev_def pci_config_address_def demo_config_def)
  ultimately show ?thesis
    using map_paging_laws by (simp add: e1000_probe_ok_def assms(1)) (simp add: demo_env_def demo_ctx_def)
qed

lemma demo_enumerate: "\<exists>p. ctx_enumerate demo_ctx = ([demo_dev], demo_ctx\<lparr>cx_pci := p\<rparr>) \<and> config_regs p = demo_config"
proof -
  have "devices_of demo_config = [demo_dev]" by code_simp
  then show ?thesis
    using enum_devs_eq [of "cx_pci demo_ctx" demo_config device_slots "[]"]
    by (auto simp: ctx_enumerate_def pci_enumerate_def devices_of_def demo_ctx_def)
qed

lemma demo_probe:
  assumes "c = demo_ctx\<lparr>cx_pci := p\<rparr>" "config_regs p = demo_config"
  shows "\<exists>e mac c'. e1000_probe demo_env demo_dev c = Ret (Ok (NicE1000 e mac), c')"
proof -
  obtain r c' where r: "e1000_probe demo_env demo_dev c = Ret (r, c')" "e1000_outcome 24 demo_env demo_dev c 0xFEBC0000 r c'"
    using e1000_probe_spec [OF demo_probe_ok [OF assms]] by blast
  have "line_of demo_dev c = 11"
    using assms by (simp add: line_of_def demo_dev_def pci_config_address_def demo_config_def)
  moreover have "33 \<notin> vectors_taken (ic_vectors (cx_irq c))" "33 \<in> {start (ic_vectors (cx_irq c))..last (ic_vectors (cx_irq c))}"
    by (simp_all add: assms(1) demo_ctx_def vectors_taken_def)
  ultimately show ?thesis using r by (cases r) (auto simp: e1000_outcome_def)
qed

lemma probe_seq_none: "probe_seq [] devs k ctx = Ret ([], ctx)"
proof (induction devs arbitrary: ctx)
  case (Cons d ds)
  then show ?case by (cases k) simp_all
qed (cases k, simp_all)

lemma demo_boot_probe:
  "\<exists>n ctx'. boot_probe demo_env ''quiet nic=e1000'' demo_ctx = Ret ([n], ctx') \<and> pn_name n = ''e1000''"
proof -
  have "parse_nic_filter ''quiet nic=e1000'' = Some ''e1000''" by code_simp
  then have reg: "reg_pci (boot_registry demo_env ''quiet nic=e1000'') = [e1000_driver demo_env]"
      "reg_vmbus (boot_registry demo_env ''quiet nic=e1000'') = []"
    by (simp_all add: boot_registry_def register_named_driver_def register_pci_def registry_new_def)
  obtain p where p: "ctx_enumerate demo_ctx = ([demo_dev], demo_ctx\<lparr>cx_pci := p\<rparr>)" "config_regs p = demo_config"
    using demo_enumerate by blast
  obtain e mac c' where r: "e1000_probe demo_env demo_dev (demo_ctx\<lparr>cx_pci := p\<rparr>) = Ret (Ok (NicE1000 e mac), c')"
    using demo_probe [OF refl p(2)] by blast
  have "e1000_matches demo_dev" by (simp add: e1000_matches_def demo_dev_def E1000_DEVICES_def)
  then have "probe_seq [e1000_driver demo_env] [demo_dev] 4 (demo_ctx\<lparr>cx_pci := p\<rparr>) =
      Ret ([\<lparr>pn_driver = NicE1000 e mac, pn_priority = 20, pn_name = ''e1000''\<rparr>], c')"
    using r by (simp add: numeral_eq_Suc e1000_driver_def)
  then show ?thesis by (simp add: boot_probe_eq probe_reference_def reg p(1) probe_seq_none)
qed

theorem boot_nic_choice_witness:
  "\<exists>p ctx'. boot_nic demo_env ''quiet nic=e1000'' demo_ctx = Ret (p, ctx') \<and> pn_name p = ''e1000''"
proof -
  obtain n ctx' where "boot_probe demo_env ''quiet nic=e1000'' demo_ctx = Ret ([n], ctx')" "pn_name n = ''e1000''"
    using demo_boot_probe by blast
  with boot_nic_choice [OF this(1)] show ?thesis by auto
qed

end
