(* ===== verification/Spec2Isabelle.thy ===== *)
theory Spec2Isabelle
  imports Hv_Isr Hv_Synthvid Kernel_Timing Driver_Registry
begin

text \<open>
  The embclox kernel library: a verification development.

  \<^bold>\<open>The program.\<close>  embclox (\<open>src/crates\<close>) is a set of \<open>no_std\<close> Rust crates from which a
  single-address-space x86-64 kernel for network services is built, for QEMU and for Hyper-V.  The
  hardware layer \<open>embclox-hal-x86\<close> finds PCI devices, maps their registers, routes their interrupts,
  keeps timers, starts CPUs and reads the command line.  \<open>embclox-e1000\<close> and \<open>embclox-tulip\<close> drive
  two PCI network cards through descriptor rings in DMA memory (\<open>embclox-dma\<close>, \<open>embclox-core\<close>).
  \<open>embclox-hyperv\<close> brings up the VMBus (hypercalls, SynIC messages, channel offers, GPADLs, ring
  buffers) and drives the synthetic network card and the synthetic display over it; its waits run on
  the one-future executor of \<open>embclox-async\<close>.  \<open>embclox-driver\<close> probes all of these and presents the
  result as one trait object to the network stack.  \<open>examples-kernel\<close> is a kernel made of the parts.

  \<^bold>\<open>Conventions.\<close>  Integers are words of their Rust width; sizes and indices of type \<open>usize\<close> are
  naturals.  \<open>'a run\<close> is an option in which None (written \<open>Panic\<close>) is an abort: a failed assertion, an
  index or slice out of range, arithmetic overflow (the checked build), an access by a raw pointer
  outside its region.  \<open>result\<close> is Rust's \<open>Result\<close>.  \<open>Try_Run\<close> has the sequencing of calls with the
  question mark operator.  Devices, hosts, page tables, the heap and the clock are parameters:
  functions from what was done so far to what is seen next, with the documented behaviour a theorem
  needs as a named premise (\<open>ring_host_ok\<close>, \<open>tails_hold\<close>, \<open>paging_laws\<close>, \<open>heap_ok\<close>, \<open>cooperative\<close>, ...).
  Shared memory is written by these parameters between any two looks of the driver at it.

  \<^bold>\<open>Theories.\<close>
  \<^item> \<open>Prelude\<close>: slices, little-endian codecs, lemma collections, and the locale \<open>bounded_fifo\<close> of bounded queues.
  \<^item> \<open>Async_Rt\<close>: \<open>embclox-async/src/lib.rs\<close>, the executor loop and its invariant and return rules.
  \<^item> \<open>Try_Run\<close>: sequencing, and the predicates \<open>keeps\<close>, \<open>safe\<close>, \<open>never\<close>, \<open>reaches\<close> through which invariants and success pass.
  \<^item> \<open>Dma\<close>: \<open>embclox-dma\<close> and \<open>embclox-core/src/dma_alloc.rs\<close>; freeing gives back what was allocated.
  \<^item> \<open>Hv_Ring\<close>: \<open>ring.rs\<close>.  A ring half is its control words and its bytes; sends and receives refine a
    bounded queue (interpretation \<open>vmring\<close>), and receives are safe on arbitrary bytes.
  \<^item> \<open>Hv_Synic\<close>: \<open>msr.rs\<close>, \<open>hypercall.rs\<close>, \<open>synic.rs\<close>.  Messages are matched exactly once; waits return; posts retry.
  \<^item> \<open>Hv_Vmbus\<close>: \<open>guid.rs\<close>, \<open>detect.rs\<close>, \<open>vmbus.rs\<close>, \<open>lib.rs\<close>.  All offers are found; MSRs are written in order.
  \<^item> \<open>Hv_Channel\<close>: \<open>channel.rs\<close>.  Page lists survive their split into messages; which ring sizes open.
  \<^item> \<open>Hv_Isr\<close>: \<open>isr.rs\<close>.  The interrupt handler wakes exactly the channels that were signalled.
  \<^item> \<open>Hv_Nvsp\<close>: \<open>nvsp_types.rs\<close>, \<open>nvsp_msg.rs\<close>, the constants of \<open>ffi.rs\<close>.  Parsers invert builders.
  \<^item> \<open>Hv_Netvsc\<close>: \<open>netvsc.rs\<close>.  An invariant over all sequences of data-path calls, the frame round
    trip, buffer ownership, progress, and the exact conditions of packet loss and aborts.
  \<^item> \<open>Hv_Synthvid\<close>: \<open>synthvid.rs\<close>.  The handshake completes with a cooperating host; pixels are independent.
  \<^item> \<open>Desc_Ring\<close>: the locales \<open>tx_ring\<close> and \<open>rx_ring\<close> with step relations that interleave driver and device;
    frames pass in order, unaltered and without loss.
  \<^item> \<open>E1000\<close>, \<open>Tulip\<close>: \<open>embclox-e1000/src\<close>, \<open>embclox-tulip/src\<close>.  Both interpret the two locales on the
    state a constructor leaves (\<open>e1000_tx\<close>, \<open>e1000_rx\<close>, \<open>tulip_tx\<close>, \<open>tulip_rx\<close>); lemmas give the
    exact conditions under which they stall, overrun or truncate.
  \<^item> \<open>Nic\<close>: \<open>embclox-driver/src/nic.rs\<close> and the trait implementations in \<open>drivers/\<close>.  The locales
    \<open>nic_rx\<close>, \<open>nic_tx\<close> and \<open>full_nic\<close> are the contract of the trait; \<open>e1000_if\<close>, \<open>tulip_if\<close> and
    \<open>netvsc_if\<close> say which part of it each driver keeps.
  \<^item> \<open>Hal_Cpu\<close>: \<open>vector_alloc.rs\<close>, \<open>cpu_local.rs\<close>, \<open>smp.rs\<close> (locale \<open>unique_source\<close>, interpreted as \<open>idt_vectors\<close>).
  \<^item> \<open>Hal_Time\<close>: \<open>time.rs\<close>.  The alarm table refines a map of deadlines; no alarm is lost.
  \<^item> \<open>Hal_Cmdline\<close>: \<open>cmdline.rs\<close>.  \<open>Hal_Pci\<close>: \<open>pci.rs\<close>.  \<open>Hal_Memory\<close>: \<open>memory.rs\<close>.  \<open>Hal_Irq\<close>: \<open>ioapic.rs\<close>,
    \<open>idt.rs\<close> and \<open>install_pci_isr\<close> of \<open>embclox-driver/src/driver.rs\<close>.  Printing and parsing of the
    network mode, enumeration against a reference, all mappings live and apart, interrupts routed.
  \<^item> \<open>Driver_Registry\<close>: \<open>registry.rs\<close>, \<open>driver.rs\<close>, \<open>defaults.rs\<close>, \<open>bus.rs\<close>, the probe functions, and the
    choice of the NIC in \<open>examples-kernel/src/main.rs\<close>.  The probe loop is generic in drivers and
    context; the in-tree drivers run it on a context that joins the states of the other theories.
  \<^item> \<open>Kernel_Timing\<close>: \<open>apic.rs\<close>, \<open>pit.rs\<close>, \<open>pic.rs\<close>, the timer part of \<open>runtime.rs\<close>, \<open>smp::ap_setup\<close> and the
    timer start-up of \<open>main.rs\<close>, over \<open>Hal_Memory\<close>, \<open>Hal_Irq\<close>, \<open>Hal_Cpu\<close> and \<open>Hal_Time\<close>.  Every CPU ticks.
  \<^item> this theory: what holds from probing a card to polling it, over \<open>Driver_Registry\<close>, \<open>Hal_Pci\<close>,
    \<open>Hal_Memory\<close>, \<open>Hal_Irq\<close>, \<open>Dma\<close>, \<open>E1000\<close> and \<open>Nic\<close> together.

  \<^bold>\<open>Bounds and fuel.\<close>  Loops that wait for a device or a host are fuelled; None is also a run that has
  not returned.  The theorems that promise a result give fuel that is enough: \<open>wait_for_match_returns\<close>
  more than the host turns until it is quiet plus the clock reads until the deadline plus one,
  \<open>pump_channel_drains\<close> more than the packets in the ring, \<open>display_is_canvas\<close> one.  Loops with a constant
  bound in the source (the reset and calibration polls, ten post attempts, descriptor counts, 256
  buses) have that bound.  Rings are at
  most 512 KiB, the size up to which the 16-bit packet length of the format suffices; the drivers' own
  rings are smaller.

  \<^bold>\<open>Not modelled.\<close>  Code that only executes an instruction or calls a third-party crate and has no
  state the rest depends on: \<open>serial.rs\<close>, \<open>heap.rs\<close>, \<open>critical_section_impl.rs\<close>, \<open>limine_boot.rs\<close> and
  \<open>init\<close> of \<open>lib.rs\<close> (requests to the boot loader, accessors of its answers, initialisation calls),
  and the executor loop of \<open>runtime.rs\<close>.  Generated bindings (\<open>ffi.rs\<close> beyond the constants in use,
  \<open>build.rs\<close>), log output and \<open>Display\<close> implementations.  \<open>app.rs\<close> only composes third-party
  network-stack and executor calls.  The test programs under \<open>qemu-tests\<close> and \<open>embclox-test-macros\<close>.
  Memory ordering: shared words are read and written atomically and in program order.
\<close>

section \<open>From probing to polling\<close>

text \<open>
  C5.  A probed e1000 is ready to serve the network stack: on a machine whose reset completes and
  whose heap and page tables behave, probing never aborts.  It returns either a card that works, with its
  registers mapped where the driver looks for them, its handler on a vector that was free before and the redirection entry of
  its line pointing to that vector, on which a poll of the stack with any well-behaved closures completes; or
  the error of a line outside the I/O APIC or of exhausted vectors, with all four DMA regions given back.
\<close>

theorem e1000_probe_ready:
  assumes "e1000_probe_ok n env dev ctx bar" "keeps_length f" "\<And>r. keeps_length (reply r)" "\<And>r. len r \<le> 1514"
  shows "\<exists>r ctx'. e1000_probe env dev ctx = Ret (r, ctx') \<and> e1000_outcome n env dev ctx bar r ctx' \<and>
    (\<forall>e mac. r = Ok (NicE1000 e mac) \<longrightarrow>
      poll_ok (nic_e1000 (fst (pe_e1000 env dev))) (e1000_good (fst (pe_e1000 env dev))) f len reply (e, False))"
proof -
  from e1000_probe_spec [OF assms(1)] obtain r ctx' where
    r: "e1000_probe env dev ctx = Ret (r, ctx')" "e1000_outcome n env dev ctx bar r ctx'" by blast
  have "poll_ok (nic_e1000 (fst (pe_e1000 env dev))) (e1000_good (fst (pe_e1000 env dev))) f len reply (e, False)"
    if "r = Ok (NicE1000 e mac)" for e mac
  proof -
    have g: "e1000_good (fst (pe_e1000 env dev)) (e, False)" using r(2) that by (simp add: e1000_outcome_def)
    have l: "\<And>r. len r \<le> pci_mtu" using assms(4) by (simp add: pci_mtu_def)
    show ?thesis unfolding poll_ok_def by (rule e1000_if.poll_safe [OF g assms(2,3) l])
  qed
  with r show ?thesis by blast
qed

theorem e1000_probe_ready_witness:
  "\<exists>e mac ctx'. e1000_probe demo_env demo_dev demo_ctx = Ret (Ok (NicE1000 e mac), ctx') \<and>
     poll_ok (nic_e1000 demo_regs_hw) (e1000_good demo_regs_hw) (\<lambda>b. (b, length b)) (\<lambda>r. 60) (\<lambda>r b. (b, r)) (e, False)"
proof -
  have c: "demo_ctx = demo_ctx\<lparr>cx_pci := cx_pci demo_ctx\<rparr>" "config_regs (cx_pci demo_ctx) = demo_config"
    by (simp_all add: demo_ctx_def)
  have k: "keeps_length (\<lambda>b::bytes. (b, length b))" "\<And>r. keeps_length (\<lambda>b::bytes. (b, r :: nat))"
    by (simp_all add: keeps_length_def)
  have hw: "fst (pe_e1000 demo_env demo_dev) = demo_regs_hw" by (simp add: demo_env_def)
  from demo_probe [OF c] obtain e mac c' where p: "e1000_probe demo_env demo_dev demo_ctx = Ret (Ok (NicE1000 e mac), c')" by blast
  from e1000_probe_ready [OF demo_probe_ok [OF c] k, of "\<lambda>r. 60"] p show ?thesis by (auto simp: hw)
qed

end
